(* ===== verification/FS_Prelude.thy ===== *)
theory FS_Prelude
  imports Main "HOL-Library.Word" "HOL-Library.Multiset" "HOL-Library.AList"
begin

section \<open>Prelude: machine integers, C++ strings, shared automation\<close>

text \<open>
  What every component of the daemon shares: the machine integer types, the members of
  \<^verbatim>\<open>std::string\<close> and \<^verbatim>\<open>std::unordered_map\<close> the sources call, the effect a critical section
  has on its condition variable, and the lemma collections the component proofs draw on.
\<close>

subsection \<open>Lemma collections\<close>

named_theorems op_defs \<open>definitions of the program's operations, unfolded by branch proofs\<close>
named_theorems inv_defs \<open>definitions of component invariants\<close>

subsection \<open>Machine integers\<close>

type_synonym u64 = "64 word"
type_synonym u16 = "16 word"
type_synonym i64 = "64 word"
type_synonym i32 = "32 word"

text \<open>
  An atomic counter reached through a pointer that may be null: \<^term>\<open>None\<close> is the null
  pointer, and an update of it is skipped, as in
  \<^verbatim>\<open>if (metrics.x) metrics.x->fetch_add(1)\<close>. The counter wraps at 64 bits.
\<close>

definition fetch_add1 :: "u64 option \<Rightarrow> u64 option" where
  "fetch_add1 c = map_option (\<lambda>v. v + 1) c"

definition fetch_sub1 :: "u64 option \<Rightarrow> u64 option" where
  "fetch_sub1 c = map_option (\<lambda>v. v - 1) c"

lemma fetch_add1_None [simp]: "fetch_add1 None = None"
  and fetch_add1_Some [simp]: "fetch_add1 (Some v) = Some (v + 1)"
  and fetch_sub1_None [simp]: "fetch_sub1 None = None"
  and fetch_sub1_Some [simp]: "fetch_sub1 (Some v) = Some (v - 1)"
  by (simp_all add: fetch_add1_def fetch_sub1_def)

text \<open>A counter that, where it is bound, holds the number \<open>n\<close> modulo \<open>2 ^ 64\<close>.\<close>

definition counts :: "u64 option \<Rightarrow> nat \<Rightarrow> bool" where
  "counts c n \<longleftrightarrow> (case c of None \<Rightarrow> True | Some v \<Rightarrow> v = of_nat n)"

lemma counts_None [simp]: "counts None n"
  and counts_Some [simp]: "counts (Some v) n \<longleftrightarrow> v = of_nat n"
  by (simp_all add: counts_def)

lemma counts_add1 [intro]: "counts c n \<Longrightarrow> counts (fetch_add1 c) (Suc n)"
  by (cases c) (simp_all add: add.commute)

lemma counts_sub1 [intro]: "counts c (Suc n) \<Longrightarrow> counts (fetch_sub1 c) n"
  by (cases c) simp_all

subsection \<open>Condition variables\<close>

text \<open>What a member function does to its condition variable after it has left the lock.\<close>

datatype cv_signal = No_notify | Notify_one | Notify_all

subsection \<open>\<^verbatim>\<open>std::string\<close>\<close>

text \<open>
  \<open>str_find_from p s k\<close> is \<^verbatim>\<open>s.find(p, k)\<close>, with \<^term>\<open>None\<close> for \<^verbatim>\<open>npos\<close>; \<open>str_find\<close> starts
  at 0. \<open>starts_with p s\<close> is \<^verbatim>\<open>s.rfind(p, 0) == 0\<close>, which holds just when \<open>p\<close> is a prefix of
  \<open>s\<close>. \<open>substr s k n\<close> is \<^verbatim>\<open>s.substr(k, n)\<close> for \<open>k\<close> at most the length of \<open>s\<close> (all uses in the
  sources are; beyond it C++ throws).
\<close>

definition starts_with :: "string \<Rightarrow> string \<Rightarrow> bool" where
  "starts_with p s \<longleftrightarrow> take (length p) s = p"

fun str_find :: "string \<Rightarrow> string \<Rightarrow> nat option" where
  "str_find p [] = (if p = [] then Some 0 else None)"
| "str_find p (c # s) =
     (if starts_with p (c # s) then Some 0 else map_option Suc (str_find p s))"

definition str_find_from :: "string \<Rightarrow> string \<Rightarrow> nat \<Rightarrow> nat option" where
  "str_find_from p s k =
     (if length s < k then None else map_option (\<lambda>i. k + i) (str_find p (drop k s)))"

definition substr :: "string \<Rightarrow> nat \<Rightarrow> nat \<Rightarrow> string" where
  "substr s k n = take n (drop k s)"

lemma starts_with_Nil [simp]: "starts_with [] s"
  by (simp add: starts_with_def)

lemma starts_with_iff: "starts_with p s \<longleftrightarrow> (\<exists>t. s = p @ t)"
  unfolding starts_with_def by (metis append_eq_conv_conj append_take_drop_id)

lemma starts_with_append [simp]: "starts_with p (p @ t)"
  by (auto simp: starts_with_iff)

lemma starts_with_antisym_len:
  "starts_with p s \<Longrightarrow> length s \<le> length p \<Longrightarrow> p = s"
  by (auto simp: starts_with_iff)

lemma str_find_Some:
  "str_find p s = Some i \<Longrightarrow> \<exists>a t. s = a @ p @ t \<and> length a = i"
proof (induction s arbitrary: i)
  case Nil
  then show ?case by (simp split: if_splits)
next
  case (Cons c s)
  show ?case
  proof (cases "starts_with p (c # s)")
    case True
    with Cons.prems have "i = 0" by simp
    with True show ?thesis by (auto simp: starts_with_iff)
  next
    case False
    with Cons.prems obtain j where j: "str_find p s = Some j" "i = Suc j" by auto
    with Cons.IH obtain a t where "s = a @ p @ t" "length a = j" by blast
    with j have "c # s = (c # a) @ p @ t \<and> length (c # a) = i" by simp
    then show ?thesis by blast
  qed
qed

lemma str_find_None: "str_find p s = None \<longleftrightarrow> (\<nexists>a t. s = a @ p @ t)"
proof (induction s)
  case Nil
  then show ?case by simp
next
  case (Cons c s)
  show ?case
  proof (cases "starts_with p (c # s)")
    case True
    then show ?thesis by (auto simp: starts_with_iff) (metis append_Nil)
  next
    case False
    have "(\<exists>a t. c # s = a @ p @ t) \<longleftrightarrow> (\<exists>a t. s = a @ p @ t)"
      using False by (auto simp: starts_with_iff Cons_eq_append_conv)
    with False Cons show ?thesis by simp
  qed
qed

lemma str_find_first:
  "str_find p s = Some i \<Longrightarrow> j < i \<Longrightarrow> \<not> starts_with p (drop j s)"
proof (induction s arbitrary: i j)
  case Nil
  then show ?case by (simp split: if_splits)
next
  case (Cons c s)
  then show ?case by (cases j) (auto split: if_splits)
qed

lemma str_find_skip:
  assumes "\<And>c. c \<in> set a \<Longrightarrow> c \<noteq> hd p" "p \<noteq> []"
  shows "str_find p (a @ p @ t) = Some (length a)"
  using assms
proof (induction a)
  case Nil
  have "starts_with p (p @ t)" by simp
  with Nil.prems show ?case by (cases "p @ t") auto
next
  case (Cons c a)
  have "\<not> starts_with p (c # a @ p @ t)"
    using Cons.prems by (cases p) (auto simp: starts_with_iff)
  with Cons show ?case by simp
qed

subsection \<open>\<^verbatim>\<open>std::unordered_map\<close> as an association list\<close>

text \<open>
  Keys are distinct; iteration follows the list (some order, as in C++). Lookup is
  \<^const>\<open>map_of\<close>, assignment \<^const>\<open>AList.update\<close>, erasure \<^const>\<open>AList.delete\<close>.
\<close>

lemma map_of_map_value:
  "map_of (map (\<lambda>(k, v). (k, f v)) xs) k = map_option f (map_of xs k)"
  by (induction xs) auto

lemma map_fst_map_value: "map fst (map (\<lambda>(k, v). (k, f v)) xs) = map fst xs"
  by (induction xs) auto

lemma length_filter_one:
  assumes "distinct (map fst xs)" and "map_of xs k = Some v"
  shows "length (filter (\<lambda>(k', v'). k' = k \<and> P v') xs) = (if P v then 1 else 0)"
  using assms
proof (induction xs)
  case Nil
  then show ?case by simp
next
  case (Cons x xs)
  obtain a b where x: "x = (a, b)" by (cases x)
  show ?case
  proof (cases "a = k")
    case True
    with Cons.prems x have "filter (\<lambda>(k', v'). k' = k \<and> P v') xs = []"
      by (force simp: filter_empty_conv)
    with True x Cons.prems show ?thesis by simp
  next
    case False
    with Cons x show ?thesis by simp
  qed
qed


lemma sum_list_map_update:
  fixes f :: "'a \<Rightarrow> 'b::comm_monoid_add"
  assumes "i < length xs"
  shows "sum_list (map f (xs[i := v])) + f (xs ! i) = sum_list (map f xs) + f v"
  using assms
proof (induction xs arbitrary: i)
  case Nil
  then show ?case by simp
next
  case (Cons x xs)
  then show ?case by (cases i) (simp_all add: ac_simps)
qed

subsection \<open>Counting in lists\<close>

text \<open>\<open>cnt P xs\<close>: the number of elements with \<open>P\<close>, as an integer so that updates subtract.\<close>

definition cnt :: "('a \<Rightarrow> bool) \<Rightarrow> 'a list \<Rightarrow> int" where
  "cnt P xs = int (length (filter P xs))"

lemma cnt_Nil [simp]: "cnt P [] = 0"
  and cnt_Cons [simp]: "cnt P (x # xs) = of_bool (P x) + cnt P xs"
  and cnt_append [simp]: "cnt P (xs @ ys) = cnt P xs + cnt P ys"
  by (simp_all add: cnt_def)

lemma cnt_nonneg [simp]: "0 \<le> cnt P xs"
  by (simp add: cnt_def)

lemma cnt_le_0 [simp]: "cnt P xs \<le> 0 \<longleftrightarrow> cnt P xs = 0"
  by (simp add: cnt_def)

lemma cnt_le_length: "cnt P xs \<le> int (length xs)"
  by (simp add: cnt_def)

lemma cnt_pos_iff: "0 < cnt P xs \<longleftrightarrow> (\<exists>x \<in> set xs. P x)"
  by (auto simp: cnt_def filter_empty_conv)

lemma cnt_zero_iff: "cnt P xs = 0 \<longleftrightarrow> (\<forall>x \<in> set xs. \<not> P x)"
  using cnt_pos_iff [of P xs] cnt_nonneg [of P xs] by (auto simp: order.order_iff_strict)

lemma cnt_nth_pos: "i < length xs \<Longrightarrow> P (xs ! i) \<Longrightarrow> 0 < cnt P xs"
  by (auto simp: cnt_pos_iff)

lemma cnt_zero_nth: "cnt P xs = 0 \<Longrightarrow> i < length xs \<Longrightarrow> \<not> P (xs ! i)"
  by (simp add: cnt_zero_iff)

lemma cnt_update:
  "i < length xs \<Longrightarrow> cnt P (xs[i := v]) = cnt P xs - of_bool (P (xs ! i)) + of_bool (P v)"
proof (induction xs arbitrary: i)
  case Nil
  then show ?case by simp
next
  case (Cons x xs)
  then show ?case by (cases i) simp_all
qed

lemma cnt_map [simp]: "cnt P (map f xs) = cnt (\<lambda>x. P (f x)) xs"
  by (induction xs) simp_all

lemma cnt_cong: "(\<And>x. x \<in> set xs \<Longrightarrow> P x = Q x) \<Longrightarrow> cnt P xs = cnt Q xs"
  by (induction xs) simp_all

lemma cnt_avoids_two:
  assumes "i < length xs" "j < length xs" "i \<noteq> j" "\<not> P (xs ! i)" "\<not> P (xs ! j)"
  shows "cnt P xs + 2 \<le> int (length xs)"
proof -
  have "{k. k < length xs \<and> P (xs ! k)} \<subseteq> {..<length xs} - {i, j}"
    using assms by auto
  then have "card {k. k < length xs \<and> P (xs ! k)} \<le> card ({..<length xs} - {i, j})"
    by (intro card_mono) auto
  also have "\<dots> = length xs - 2"
    using assms by (subst card_Diff_subset) auto
  finally show ?thesis
    using assms by (simp add: cnt_def length_filter_conv_card)
qed

lemma distinct_submultiset:
  assumes "mset xs \<subseteq># mset ys" "distinct ys"
  shows "distinct xs"
proof -
  obtain zs where "mset (xs @ zs) = mset ys"
    using assms(1) by (metis ex_mset mset_append subset_mset.le_iff_add)
  then have "distinct (xs @ zs)" using assms(2) mset_eq_imp_distinct_iff by blast
  then show ?thesis by simp
qed

end
