(* ===== verification/Channel.thy ===== *)
theory Channel
  imports FS_Prelude
begin

section \<open>Buffers between threads: runs of operations and their contracts\<close>

text \<open>
  Two classes of the daemon are bounded buffers behind a mutex: \<^verbatim>\<open>JobQueue<T>\<close> and the queue
  inside \<^verbatim>\<open>AsyncLogger\<close>. An operation is one critical section, so a concurrent history of a
  buffer is a sequence of operations in lock order. This theory gives the runs of such a
  sequence and, as locales, the contracts the clients rely on. Each contract is one law per
  operation; what it says of whole runs is proved once here.
\<close>

subsection \<open>Runs\<close>

text \<open>
  \<open>exec step ops s\<close> performs the operations in order and collects what they return. An
  operation that would block on the condition variable has no step (\<^term>\<open>None\<close>).
\<close>

fun exec :: "('op \<Rightarrow> 's \<Rightarrow> ('r \<times> 's) option) \<Rightarrow> 'op list \<Rightarrow> 's \<Rightarrow> ('r list \<times> 's) option" where
  "exec step [] s = Some ([], s)"
| "exec step (x # xs) s =
     (case step x s of
        None \<Rightarrow> None
      | Some (r, s') \<Rightarrow> map_option (\<lambda>(rs, t). (r # rs, t)) (exec step xs s'))"

fun collect :: "('op \<Rightarrow> 'r \<Rightarrow> 'x list) \<Rightarrow> 'op list \<Rightarrow> 'r list \<Rightarrow> 'x list" where
  "collect f (x # xs) (r # rs) = f x r @ collect f xs rs"
| "collect f _ _ = []"

lemma exec_Cons:
  "exec step (x # xs) s = Some (rs, t) \<longleftrightarrow>
     (\<exists>r rs' s'. step x s = Some (r, s') \<and> exec step xs s' = Some (rs', t) \<and> rs = r # rs')"
  by (auto split: option.splits)

lemma exec_append:
  "exec step (xs @ ys) s = Some (rs, t) \<longleftrightarrow>
     (\<exists>rs1 rs2 u. exec step xs s = Some (rs1, u) \<and> exec step ys u = Some (rs2, t) \<and> rs = rs1 @ rs2)"
proof (induction xs arbitrary: s rs)
  case Nil
  then show ?case by auto
next
  case (Cons x xs)
  show ?case
    unfolding append_Cons exec_Cons Cons.IH by fastforce
qed

lemma exec_length: "exec step xs s = Some (rs, t) \<Longrightarrow> length rs = length xs"
  by (induction xs arbitrary: s rs) (auto simp: exec_Cons simp del: exec.simps(2))

text \<open>Rule for a property of a run: it holds of the empty run and every step extends it.\<close>

lemma exec_induct [consumes 1, case_names Nil Cons]:
  assumes "exec step xs s = Some (rs, t)"
    and "\<And>s. P [] [] s s"
    and "\<And>x xs r rs s s' t. step x s = Some (r, s') \<Longrightarrow> exec step xs s' = Some (rs, t) \<Longrightarrow>
           P xs rs s' t \<Longrightarrow> P (x # xs) (r # rs) s t"
  shows "P xs rs s t"
  using assms(1)
proof (induction xs arbitrary: s rs)
  case Nil
  with assms(2) show ?case by simp
next
  case (Cons x xs)
  then obtain r rs' s' where "step x s = Some (r, s')" "exec step xs s' = Some (rs', t)"
      "rs = r # rs'"
    unfolding exec_Cons by blast
  with Cons.IH assms(3) show ?case by blast
qed

subsection \<open>Contracts\<close>

text \<open>
  \<open>ins x r\<close> are the items that operation \<open>x\<close> put in when it returned \<open>r\<close>, \<open>outs x r\<close> those
  it took out, \<open>items s\<close> what the buffer holds.
\<close>

locale channel =
  fixes step :: "'op \<Rightarrow> 's \<Rightarrow> ('r \<times> 's) option"
    and invar :: "'s \<Rightarrow> bool"
    and items :: "'s \<Rightarrow> 'x list"
    and ins :: "'op \<Rightarrow> 'r \<Rightarrow> 'x list"
    and outs :: "'op \<Rightarrow> 'r \<Rightarrow> 'x list"
  assumes invar_step: "invar s \<Longrightarrow> step x s = Some (r, s') \<Longrightarrow> invar s'"

locale bag_channel = channel +
  assumes bag_law: "invar s \<Longrightarrow> step x s = Some (r, s') \<Longrightarrow>
    mset (items s) + mset (ins x r) = mset (outs x r) + mset (items s')"

locale fifo_channel = channel +
  assumes fifo_law: "invar s \<Longrightarrow> step x s = Some (r, s') \<Longrightarrow>
    items s @ ins x r = outs x r @ items s'"

text \<open>For a stack, \<open>items\<close> lists the newest item first.\<close>

locale lifo_channel = channel +
  assumes lifo_law: "invar s \<Longrightarrow> step x s = Some (r, s') \<Longrightarrow>
    ins x r @ items s = outs x r @ items s'"

context channel
begin

lemma invar_exec:
  assumes "exec step xs s = Some (rs, t)" and "invar s"
  shows "invar t"
  using assms by (induction rule: exec_induct) (auto intro: invar_step)

end

context bag_channel
begin

text \<open>Nothing is lost, duplicated or made up.\<close>

lemma conservation:
  assumes "exec step xs s = Some (rs, t)" and "invar s"
  shows "mset (items s) + mset (collect ins xs rs) = mset (collect outs xs rs) + mset (items t)"
  using assms
proof (induction rule: exec_induct)
  case (Nil s)
  then show ?case by simp
next
  case (Cons x xs r rs s s' t)
  have "mset (items s) + mset (ins x r) = mset (outs x r) + mset (items s')"
    using Cons.hyps(1) Cons.prems by (rule bag_law [rotated])
  moreover have "mset (items s') + mset (collect ins xs rs)
      = mset (collect outs xs rs) + mset (items t)"
    using Cons by (blast intro: invar_step)
  ultimately show ?case
    by (simp add: union_assoc) (metis union_assoc)
qed

end

sublocale fifo_channel \<subseteq> bag_channel
proof unfold_locales
  fix s x r s'
  assume "invar s" and "step x s = Some (r, s')"
  then have "mset (items s @ ins x r) = mset (outs x r @ items s')"
    by (simp only: fifo_law)
  then show "mset (items s) + mset (ins x r) = mset (outs x r) + mset (items s')" by simp
qed

sublocale lifo_channel \<subseteq> bag_channel
proof unfold_locales
  fix s x r s'
  assume "invar s" and "step x s = Some (r, s')"
  then have "mset (ins x r @ items s) = mset (outs x r @ items s')"
    by (simp only: lifo_law)
  then show "mset (items s) + mset (ins x r) = mset (outs x r) + mset (items s')"
    by (simp add: add.commute)
qed

context fifo_channel
begin

text \<open>First in, first out: what came out, followed by what is left, is what went in.\<close>

lemma in_order:
  assumes "exec step xs s = Some (rs, t)" and "invar s"
  shows "items s @ collect ins xs rs = collect outs xs rs @ items t"
  using assms
proof (induction rule: exec_induct)
  case (Nil s)
  then show ?case by simp
next
  case (Cons x xs r rs s s' t)
  have "items s @ ins x r = outs x r @ items s'"
    using Cons.hyps(1) Cons.prems by (rule fifo_law [rotated])
  moreover have "items s' @ collect ins xs rs = collect outs xs rs @ items t"
    using Cons by (blast intro: invar_step)
  ultimately show ?case by (metis append_assoc collect.simps(1))
qed

end

context lifo_channel
begin

text \<open>
  Last in, first out: a run that ends with the items it started with delivers, at each
  removal, the newest item then held. Stated of one insertion and one removal around a run
  that leaves the rest of the stack as it was.
\<close>

lemma newest_first:
  assumes "step x s = Some (r, s1)" and "ins x r = [a]" and "outs x r = []"
    and "exec step xs s1 = Some (rs, s2)" and "items s2 = items s1"
    and "step y s2 = Some (r', s3)" and "ins y r' = []" and "outs y r' = [b]"
    and "invar s"
  shows "b = a \<and> items s3 = items s"
proof -
  have s1: "invar s1" using assms(1,9) by (blast intro: invar_step)
  then have s2: "invar s2" using assms(4) by (blast intro: invar_exec)
  have "a # items s = items s1" using lifo_law [OF assms(9,1)] assms(2,3) by simp
  moreover have "items s2 = b # items s3" using lifo_law [OF s2 assms(6)] assms(7,8) by simp
  ultimately show ?thesis using assms(5) by simp
qed

end

end
