(* ===== verification/Job_Queue.thy ===== *)
theory Job_Queue
  imports Channel
begin

section \<open>JobQueue (src/concurrency/job_queue.h)\<close>

text \<open>
  \<^verbatim>\<open>JobQueue<T>\<close>: a bounded deque behind a mutex, taken from at either end by policy. Each
  member function is one critical section and is modelled by one function on the queue's
  state; \<^term>\<open>None\<close> means that the function waits on the condition variable in this state (so
  it has no step), and the \<^typ>\<open>cv_signal\<close> is the notification sent after the lock is left.
  The \<^verbatim>\<open>std::deque\<close> is a list whose head is \<^verbatim>\<open>front()\<close>. The metrics are pointers to atomic
  counters that only this queue updates, so their values are kept in the queue.
\<close>

datatype queue_type = Lifo | Fifo

datatype submit_result = Pushed | Full | Shutdown

record queue_metrics =
  submitted_total :: "u64 option"
  submitted_failed :: "u64 option"
  queued_number :: "u64 option"

record 'a job_queue =
  jq_policy :: queue_type
  jq_metrics :: queue_metrics
  QUEUE_SIZE :: nat
  jq_container :: "'a list"
  jq_stop_flag :: bool

definition JobQueue_init :: "queue_type \<Rightarrow> queue_metrics \<Rightarrow> nat \<Rightarrow> 'a job_queue" where
  "JobQueue_init p m n =
     \<lparr>jq_policy = p, jq_metrics = m, QUEUE_SIZE = n, jq_container = [], jq_stop_flag = False\<rparr>"

definition jq_rejected :: "'a job_queue \<Rightarrow> 'a job_queue" where
  "jq_rejected q = q\<lparr>jq_metrics := (jq_metrics q)
     \<lparr>submitted_failed := fetch_add1 (submitted_failed (jq_metrics q))\<rparr>\<rparr>"

definition jq_accepted :: "'a \<Rightarrow> 'a job_queue \<Rightarrow> 'a job_queue" where
  "jq_accepted item q = q\<lparr>jq_container := jq_container q @ [item],
     jq_metrics := (jq_metrics q)
       \<lparr>submitted_total := fetch_add1 (submitted_total (jq_metrics q)),
        queued_number := fetch_add1 (queued_number (jq_metrics q))\<rparr>\<rparr>"

definition JobQueue_try_push ::
    "'a \<Rightarrow> 'a job_queue \<Rightarrow> submit_result \<times> 'a job_queue \<times> cv_signal" where
  "JobQueue_try_push item q =
     (if jq_stop_flag q then (Shutdown, jq_rejected q, No_notify)
      else if QUEUE_SIZE q \<le> length (jq_container q) then (Full, jq_rejected q, No_notify)
      else (Pushed, jq_accepted item q, Notify_one))"

text \<open>
  The blocking \<^verbatim>\<open>push\<close>: waits while the queue is full and not stopped; on a stopped queue it
  returns without the item and without a notification. The flag says whether it was taken.
\<close>

definition JobQueue_push :: "'a \<Rightarrow> 'a job_queue \<Rightarrow> (bool \<times> 'a job_queue \<times> cv_signal) option" where
  "JobQueue_push item q =
     (if \<not> jq_stop_flag q \<and> QUEUE_SIZE q \<le> length (jq_container q) then None
      else if jq_stop_flag q then Some (False, q, No_notify)
      else Some (True, jq_accepted item q, Notify_one))"

definition jq_taken :: "'a list \<Rightarrow> 'a job_queue \<Rightarrow> 'a job_queue" where
  "jq_taken rest q = q\<lparr>jq_container := rest,
     jq_metrics := (jq_metrics q)\<lparr>queued_number := fetch_sub1 (queued_number (jq_metrics q))\<rparr>\<rparr>"

text \<open>
  \<^verbatim>\<open>pop(item)\<close>: \<open>Some (None, \<dots>)\<close> is the return value \<^verbatim>\<open>false\<close>, \<open>Some (Some x, \<dots>)\<close> is
  \<^verbatim>\<open>true\<close> with \<open>item = x\<close>. The enumeration has two values, so the \<^verbatim>\<open>default\<close> of the switch is
  no case here.
\<close>

definition JobQueue_pop :: "'a job_queue \<Rightarrow> ('a option \<times> 'a job_queue \<times> cv_signal) option" where
  "JobQueue_pop q =
     (if jq_container q = [] \<and> \<not> jq_stop_flag q then None
      else if jq_container q = [] \<and> jq_stop_flag q then Some (None, q, No_notify)
      else (case jq_policy q of
              Fifo \<Rightarrow> Some (Some (hd (jq_container q)), jq_taken (tl (jq_container q)) q, Notify_one)
            | Lifo \<Rightarrow> Some (Some (last (jq_container q)), jq_taken (butlast (jq_container q)) q,
                Notify_one)))"

definition JobQueue_shutdown :: "'a job_queue \<Rightarrow> 'a job_queue \<times> cv_signal" where
  "JobQueue_shutdown q = (q\<lparr>jq_stop_flag := True\<rparr>, Notify_all)"

definition JobQueue_jobs_in_queue :: "'a job_queue \<Rightarrow> nat" where
  "JobQueue_jobs_in_queue q = length (jq_container q)"

lemmas jq_op_defs = JobQueue_try_push_def JobQueue_push_def JobQueue_pop_def
  JobQueue_shutdown_def jq_rejected_def jq_accepted_def jq_taken_def

subsection \<open>Histories\<close>

text \<open>The calls in the order in which they take the lock, and what each returned.\<close>

datatype 'a jq_op = Try_push 'a | Push 'a | Pop | Close | Size

datatype 'a jq_ret = R_submit submit_result | R_push bool | R_pop "'a option" | R_unit | R_size nat

fun jq_step :: "'a jq_op \<Rightarrow> 'a job_queue \<Rightarrow> ('a jq_ret \<times> 'a job_queue) option" where
  "jq_step (Try_push x) q =
     (case JobQueue_try_push x q of (r, q', _) \<Rightarrow> Some (R_submit r, q'))"
| "jq_step (Push x) q = map_option (\<lambda>(b, q', _). (R_push b, q')) (JobQueue_push x q)"
| "jq_step Pop q = map_option (\<lambda>(r, q', _). (R_pop r, q')) (JobQueue_pop q)"
| "jq_step Close q = Some (R_unit, fst (JobQueue_shutdown q))"
| "jq_step Size q = Some (R_size (JobQueue_jobs_in_queue q), q)"

fun jq_ins :: "'a jq_op \<Rightarrow> 'a jq_ret \<Rightarrow> 'a list" where
  "jq_ins (Try_push x) (R_submit Pushed) = [x]"
| "jq_ins (Push x) (R_push True) = [x]"
| "jq_ins _ _ = []"

fun jq_outs :: "'a jq_op \<Rightarrow> 'a jq_ret \<Rightarrow> 'a list" where
  "jq_outs Pop (R_pop (Some x)) = [x]"
| "jq_outs _ _ = []"

fun jq_fails :: "'a jq_op \<Rightarrow> 'a jq_ret \<Rightarrow> unit list" where
  "jq_fails (Try_push x) (R_submit r) = (if r = Pushed then [] else [()])"
| "jq_fails _ _ = []"

text \<open>The invariant: the bound, and the gauge that shows the length.\<close>

definition jq_inv :: "'a job_queue \<Rightarrow> bool" where
  "jq_inv q \<longleftrightarrow> length (jq_container q) \<le> QUEUE_SIZE q \<and>
     counts (queued_number (jq_metrics q)) (length (jq_container q))"

lemma jq_inv_init: "counts (queued_number m) 0 \<Longrightarrow> jq_inv (JobQueue_init p m n)"
  by (simp add: jq_inv_def JobQueue_init_def)

lemma jq_inv_accepted:
  "jq_inv q \<Longrightarrow> length (jq_container q) < QUEUE_SIZE q \<Longrightarrow> jq_inv (jq_accepted x q)"
  by (auto simp: jq_inv_def jq_accepted_def)

lemma jq_inv_taken:
  "jq_inv q \<Longrightarrow> length (jq_container q) = Suc (length rest) \<Longrightarrow> jq_inv (jq_taken rest q)"
  by (auto simp: jq_inv_def jq_taken_def)

lemma jq_inv_rejected: "jq_inv q \<Longrightarrow> jq_inv (jq_rejected q)"
  by (simp add: jq_inv_def jq_rejected_def)

lemma jq_inv_closed: "jq_inv (q\<lparr>jq_stop_flag := b\<rparr>) = jq_inv q"
  by (simp add: jq_inv_def)

lemma jq_inv_step: "jq_inv q \<Longrightarrow> jq_step x q = Some (r, q') \<Longrightarrow> jq_inv q'"
  by (cases x) (auto simp: JobQueue_try_push_def JobQueue_push_def JobQueue_pop_def
      JobQueue_shutdown_def jq_inv_closed intro: jq_inv_accepted jq_inv_taken jq_inv_rejected
      split: if_splits queue_type.splits)

lemma jq_policy_step: "jq_step x q = Some (r, q') \<Longrightarrow> jq_policy q' = jq_policy q"
  by (cases x) (auto simp: jq_op_defs split: if_splits queue_type.splits)

lemma jq_size_step: "jq_step x q = Some (r, q') \<Longrightarrow> QUEUE_SIZE q' = QUEUE_SIZE q"
  by (cases x) (auto simp: jq_op_defs split: if_splits queue_type.splits)

lemma jq_fifo_step:
  "jq_policy q = Fifo \<Longrightarrow> jq_step x q = Some (r, q') \<Longrightarrow>
   jq_container q @ jq_ins x r = jq_outs x r @ jq_container q'"
  by (cases x) (auto simp: jq_op_defs split: if_splits)

lemma jq_lifo_step:
  assumes "jq_policy q = Lifo" and "jq_step x q = Some (r, q')"
  shows "jq_ins x r @ rev (jq_container q) = jq_outs x r @ rev (jq_container q')"
proof (cases x)
  case Pop
  with assms show ?thesis
    by (cases "jq_container q" rule: rev_cases) (auto simp: jq_op_defs split: if_splits)
qed (use assms in \<open>auto simp: jq_op_defs split: if_splits\<close>)

interpretation fifo: fifo_channel jq_step "\<lambda>q. jq_inv q \<and> jq_policy q = Fifo" jq_container
    jq_ins jq_outs
  by unfold_locales (auto dest: jq_inv_step jq_policy_step jq_fifo_step)

interpretation lifo: lifo_channel jq_step "\<lambda>q. jq_inv q \<and> jq_policy q = Lifo"
    "\<lambda>q. rev (jq_container q)" jq_ins jq_outs
  by unfold_locales (auto dest: jq_inv_step jq_policy_step jq_lifo_step)


subsection \<open>Accounting\<close>

lemma jq_accounting_step:
  assumes "jq_step x q = Some (r, q')"
    and "counts (submitted_total (jq_metrics q)) a" and "counts (submitted_failed (jq_metrics q)) f"
  shows "counts (submitted_total (jq_metrics q')) (length (jq_ins x r) + a) \<and>
    counts (submitted_failed (jq_metrics q')) (length (jq_fails x r) + f)"
  using assms
  by (cases x) (auto simp: jq_op_defs split: if_splits queue_type.splits)

lemma jq_accounting_exec:
  assumes "exec jq_step xs q = Some (rs, t)"
    and "counts (submitted_total (jq_metrics q)) a" and "counts (submitted_failed (jq_metrics q)) f"
  shows "counts (submitted_total (jq_metrics t)) (length (collect jq_ins xs rs) + a) \<and>
    counts (submitted_failed (jq_metrics t)) (length (collect jq_fails xs rs) + f)"
  using assms
proof (induction arbitrary: a f rule: exec_induct)
  case (Nil s)
  then show ?case by simp
next
  case (Cons x xs r rs s s' t)
  from jq_accounting_step [OF Cons.hyps(1) Cons.prems]
  show ?case by (auto dest!: Cons.IH simp: ac_simps)
qed

definition same_bound :: "queue_metrics \<Rightarrow> queue_metrics \<Rightarrow> bool" where
  "same_bound m m' \<longleftrightarrow>
     (submitted_total m' = None) = (submitted_total m = None) \<and>
     (submitted_failed m' = None) = (submitted_failed m = None) \<and>
     (queued_number m' = None) = (queued_number m = None)"

lemma same_bound_step: "jq_step x q = Some (r, t) \<Longrightarrow> same_bound (jq_metrics q) (jq_metrics t)"
  by (cases x) (auto simp: jq_op_defs fetch_add1_def fetch_sub1_def same_bound_def split: if_splits queue_type.splits)

lemma jq_bound_exec:
  "exec jq_step xs q = Some (rs, t) \<Longrightarrow> same_bound (jq_metrics q) (jq_metrics t)"
proof (induction rule: exec_induct)
  case (Cons x xs r rs s s' t)
  from same_bound_step [OF Cons.hyps(1)] Cons.IH show ?case unfolding same_bound_def by simp
qed (simp add: same_bound_def)

lemma jq_frame_exec:
  "exec jq_step xs q = Some (rs, t) \<Longrightarrow> QUEUE_SIZE t = QUEUE_SIZE q \<and> jq_policy t = jq_policy q"
  by (induction rule: exec_induct) (auto dest: jq_size_step jq_policy_step)

lemma jq_inv_exec: "exec jq_step xs q = Some (rs, t) \<Longrightarrow> jq_inv q \<Longrightarrow> jq_inv t"
  by (induction rule: exec_induct) (auto intro: jq_inv_step)

definition zero_metrics :: queue_metrics where
  "zero_metrics = \<lparr>submitted_total = Some 0, submitted_failed = Some 0, queued_number = Some 0\<rparr>"



subsection \<open>Order of delivery\<close>

text \<open>A FIFO queue delivers the accepted items in the order in which they were accepted,
  without loss or duplication, whatever calls are interleaved with them.\<close>

theorem job_queue_fifo_order:
  assumes "exec jq_step xs (JobQueue_init Fifo m n) = Some (rs, q)"
    and "counts (queued_number m) 0"
  shows "collect jq_ins xs rs = collect jq_outs xs rs @ jq_container q"
  using fifo.in_order [OF assms(1)] jq_inv_init [OF assms(2), of Fifo n]
  by (simp add: JobQueue_init_def)

theorem job_queue_fifo_order_witness:
  "\<exists>rs q. exec jq_step [Push 1, Try_push 2, Pop, Push 3, Close, Pop]
       (JobQueue_init Fifo zero_metrics 2) = Some (rs, q :: nat job_queue)
     \<and> collect jq_ins [Push 1, Try_push 2, Pop, Push 3, Close, Pop] rs = [1, 2] @ jq_container q"
proof -
  obtain rs q where *: "exec jq_step [Push 1, Try_push 2, Pop, Push 3, Close, Pop]
       (JobQueue_init Fifo zero_metrics 2) = Some (rs, q :: nat job_queue)"
    "rs = [R_push True, R_submit Pushed, R_pop (Some 1), R_push True, R_unit, R_pop (Some 2)]"
    by (simp add: jq_op_defs JobQueue_init_def zero_metrics_def)
  with job_queue_fifo_order [OF *(1)] show ?thesis by (simp add: zero_metrics_def)
qed

text \<open>On a LIFO queue a \<^verbatim>\<open>pop\<close> returns the item of the latest accepted submission whose
  later submissions have all been taken again: around any history that leaves the queue's
  items as they were, the item just pushed is the next one out, and the rest is untouched.\<close>

theorem job_queue_lifo_order:
  assumes "jq_inv q" and "jq_policy q = Lifo"
    and "jq_step (Try_push a) q = Some (R_submit Pushed, q1)"
    and "exec jq_step xs q1 = Some (rs, q2)" and "jq_container q2 = jq_container q1"
    and "jq_step Pop q2 = Some (R_pop (Some b), q3)"
  shows "b = a \<and> jq_container q3 = jq_container q"
proof -
  have "b = a \<and> rev (jq_container q3) = rev (jq_container q)"
    using assms by (intro lifo.newest_first [OF assms(3) _ _ assms(4) _ assms(6)]) simp_all
  then show ?thesis by simp
qed

theorem job_queue_lifo_order_witness:
  "\<exists>q1 q2 q3 :: nat job_queue.
     jq_step (Try_push 7) (JobQueue_init Lifo zero_metrics 3) = Some (R_submit Pushed, q1)
     \<and> exec jq_step [Try_push 8, Pop] q1 = Some ([R_submit Pushed, R_pop (Some 8)], q2)
     \<and> jq_step Pop q2 = Some (R_pop (Some 7), q3) \<and> jq_container q3 = []"
proof -
  let ?q = "JobQueue_init Lifo zero_metrics 3 :: nat job_queue"
  obtain q1 where 1: "jq_step (Try_push 7) ?q = Some (R_submit Pushed, q1)" "jq_container q1 = [7]"
      "QUEUE_SIZE q1 = 3" "jq_policy q1 = Lifo" "\<not> jq_stop_flag q1"
    by (simp add: jq_op_defs JobQueue_init_def)
  obtain q2 where 2: "exec jq_step [Try_push 8, Pop] q1 = Some ([R_submit Pushed, R_pop (Some 8)], q2)"
      "jq_container q2 = [7]" "jq_policy q2 = Lifo"
    using 1 by (simp add: jq_op_defs)
  obtain b q3 where 3: "jq_step Pop q2 = Some (R_pop (Some b), q3)"
    using 2 by (simp add: jq_op_defs)
  have "jq_inv ?q" "jq_policy ?q = Lifo"
    by (simp_all add: jq_inv_def zero_metrics_def JobQueue_init_def)
  from job_queue_lifo_order [OF this 1(1) 2(1) _ 3] 1 2 3 show ?thesis
    by (auto simp: JobQueue_init_def)
qed

subsection \<open>Shutdown\<close>

text \<open>The order in which a stopped queue hands out what it still holds.\<close>

definition delivery_order :: "'a job_queue \<Rightarrow> 'a list" where
  "delivery_order q = (case jq_policy q of Fifo \<Rightarrow> jq_container q | Lifo \<Rightarrow> rev (jq_container q))"

lemma jq_pop_order:
  assumes "delivery_order q = x # rest"
  obtains q' where "jq_step Pop q = Some (R_pop (Some x), q')" "delivery_order q' = rest"
    "jq_stop_flag q' = jq_stop_flag q"
proof (cases "jq_policy q")
  case Fifo
  with assms that show ?thesis by (auto simp: jq_op_defs delivery_order_def)
next
  case Lifo
  with assms that show ?thesis
    by (cases "jq_container q" rule: rev_cases) (auto simp: jq_op_defs delivery_order_def)
qed

lemma jq_drain:
  "\<exists>t. exec jq_step (replicate (length (delivery_order q)) Pop) q
        = Some (map (R_pop \<circ> Some) (delivery_order q), t)
     \<and> delivery_order t = [] \<and> jq_stop_flag t = jq_stop_flag q"
proof (induction "delivery_order q" arbitrary: q)
  case Nil
  then show ?case by (metis exec.simps(1) list.map(1) list.size(3) replicate_0)
next
  case (Cons x rest)
  obtain q' where q': "jq_step Pop q = Some (R_pop (Some x), q')" "delivery_order q' = rest"
      "jq_stop_flag q' = jq_stop_flag q"
    using Cons.hyps(2) by (metis jq_pop_order)
  from Cons.hyps(1) [OF q'(2) [symmetric]] q' Cons.hyps(2) [symmetric]
  show ?case by auto
qed

lemma delivery_order_Nil: "delivery_order q = [] \<longleftrightarrow> jq_container q = []"
  by (simp add: delivery_order_def split: queue_type.splits)

text \<open>Shutdown is graceful. After it no submission is accepted (both kinds return at once and
  leave the items alone), every item still queued is handed out, in policy order, and only then
  does \<^verbatim>\<open>pop\<close> return \<^verbatim>\<open>false\<close>; it never waits again.\<close>

theorem job_queue_graceful_shutdown:
  "let q0 = fst (JobQueue_shutdown q) in
    (\<exists>q1. jq_step (Try_push x) q0 = Some (R_submit Shutdown, q1)
            \<and> jq_container q1 = jq_container q)
    \<and> jq_step (Push x) q0 = Some (R_push False, q0)
    \<and> (\<exists>t. exec jq_step (replicate (length (jq_container q)) Pop) q0
              = Some (map (R_pop \<circ> Some) (delivery_order q), t)
            \<and> jq_container t = [] \<and> jq_step Pop t = Some (R_pop None, t))"
proof -
  define q0 where "q0 = fst (JobQueue_shutdown q)"
  have stop: "jq_stop_flag q0" and cont: "jq_container q0 = jq_container q"
    and order: "delivery_order q0 = delivery_order q"
    by (simp_all add: q0_def JobQueue_shutdown_def delivery_order_def split: queue_type.splits)
  have len: "length (delivery_order q) = length (jq_container q)"
    by (simp add: delivery_order_def split: queue_type.splits)
  obtain t where t: "exec jq_step (replicate (length (jq_container q)) Pop) q0
        = Some (map (R_pop \<circ> Some) (delivery_order q), t)" "jq_container t = []" "jq_stop_flag t"
    using jq_drain [of q0] stop order len by (auto simp: delivery_order_Nil)
  then have "jq_step Pop t = Some (R_pop None, t)" by (simp add: JobQueue_pop_def)
  with t stop cont show ?thesis
    unfolding Let_def q0_def [symmetric]
    by (auto simp: JobQueue_try_push_def JobQueue_push_def jq_rejected_def)
qed

end
