(* ===== verification/Job_Queue_Monitor.thy ===== *)
theory Job_Queue_Monitor
  imports Job_Queue
begin

section \<open>JobQueue as a monitor: waiting, notifying, lost wake-ups\<close>

text \<open>
  \<^verbatim>\<open>JobQueue\<close> has one condition variable, on which consumers wait for an item and blocking
  producers wait for room, and every insertion and removal ends with \<^verbatim>\<open>notify_one\<close>. This
  theory models the calls at that grain: a thread is outside, about to take the lock, asleep
  on the condition variable, or past the lock with its notification still to be sent. A step
  is one thread passing one of these points; which thread moves, and whom \<^verbatim>\<open>notify_one\<close>
  wakes, is not determined. Spurious wake-ups are steps too.
\<close>

fun jq_section :: "'a jq_op \<Rightarrow> 'a job_queue \<Rightarrow> ('a job_queue \<times> cv_signal) option" where
  "jq_section (Try_push x) q = Some (snd (JobQueue_try_push x q))"
| "jq_section (Push x) q = map_option snd (JobQueue_push x q)"
| "jq_section Pop q = map_option snd (JobQueue_pop q)"
| "jq_section Close q = Some (JobQueue_shutdown q)"
| "jq_section Size q = Some (q, No_notify)"

lemma jq_section_step:
  "jq_section x q = None \<longleftrightarrow> jq_step x q = None"
  "jq_section x q = Some (q', g) \<Longrightarrow> \<exists>r. jq_step x q = Some (r, q')"
  by (cases x; auto split: prod.splits)+

datatype 'a jq_pc =
    Outside
  | Entering "'a jq_op"
  | Asleep "'a jq_op"
  | Signalling cv_signal

record 'a monitor =
  mon_queue :: "'a job_queue"
  mon_pcs :: "'a jq_pc list"

fun wake :: "'a jq_pc \<Rightarrow> 'a jq_pc" where
  "wake (Asleep x) = Entering x"
| "wake pc = pc"

fun asleep :: "'a jq_pc \<Rightarrow> bool" where
  "asleep (Asleep x) = True"
| "asleep _ = False"

text \<open>The moves of one thread. A move that is not possible in the state has no result.\<close>

datatype 'a move = Call nat "'a jq_op" | Enter nat | Signal nat nat | Wake nat

definition mon_move :: "'a move \<Rightarrow> 'a monitor \<Rightarrow> 'a monitor option" where
  "mon_move c s = (let pcs = mon_pcs s in
     case c of
       Call i x \<Rightarrow>
         (if i < length pcs \<and> pcs ! i = Outside
          then Some (s\<lparr>mon_pcs := pcs[i := Entering x]\<rparr>) else None)
     | Enter i \<Rightarrow>
         (if i < length pcs then
            (case pcs ! i of
               Entering x \<Rightarrow>
                 (case jq_section x (mon_queue s) of
                    None \<Rightarrow> Some (s\<lparr>mon_pcs := pcs[i := Asleep x]\<rparr>)
                  | Some (q, g) \<Rightarrow> Some (s\<lparr>mon_queue := q, mon_pcs := pcs[i := Signalling g]\<rparr>))
             | _ \<Rightarrow> None)
          else None)
     | Signal i j \<Rightarrow>
         (if i < length pcs then
            (case pcs ! i of
               Signalling No_notify \<Rightarrow> Some (s\<lparr>mon_pcs := pcs[i := Outside]\<rparr>)
             | Signalling Notify_all \<Rightarrow> Some (s\<lparr>mon_pcs := map wake (pcs[i := Outside])\<rparr>)
             | Signalling Notify_one \<Rightarrow>
                 (if list_ex asleep pcs then
                    (if j < length pcs \<and> asleep (pcs ! j)
                     then Some (s\<lparr>mon_pcs := pcs[i := Outside, j := wake (pcs ! j)]\<rparr>) else None)
                  else Some (s\<lparr>mon_pcs := pcs[i := Outside]\<rparr>))
             | _ \<Rightarrow> None)
          else None)
     | Wake j \<Rightarrow>
         (if j < length pcs \<and> asleep (pcs ! j)
          then Some (s\<lparr>mon_pcs := pcs[j := wake (pcs ! j)]\<rparr>) else None))"

text \<open>
  \<open>mon_reach allowed s0 s\<close>: some interleaving leads from \<open>s0\<close> to \<open>s\<close>, where thread \<open>i\<close> may
  make the call \<open>x\<close> only if \<open>allowed i x\<close>.
\<close>

fun permitted :: "(nat \<Rightarrow> 'a jq_op \<Rightarrow> bool) \<Rightarrow> 'a move \<Rightarrow> bool" where
  "permitted allowed (Call i x) = allowed i x"
| "permitted allowed _ = True"

inductive mon_reach :: "(nat \<Rightarrow> 'a jq_op \<Rightarrow> bool) \<Rightarrow> 'a monitor \<Rightarrow> 'a monitor \<Rightarrow> bool"
  for allowed :: "nat \<Rightarrow> 'a jq_op \<Rightarrow> bool" and s0 :: "'a monitor" where
  mon_start: "mon_reach allowed s0 s0"
| mon_next: "mon_reach allowed s0 s \<Longrightarrow> mon_move c s = Some t \<Longrightarrow> permitted allowed c \<Longrightarrow>
    mon_reach allowed s0 t"

fun mon_run :: "'a move list \<Rightarrow> 'a monitor \<Rightarrow> 'a monitor option" where
  "mon_run [] s = Some s"
| "mon_run (c # cs) s = (case mon_move c s of None \<Rightarrow> None | Some t \<Rightarrow> mon_run cs t)"

lemma mon_run_reach:
  "mon_reach allowed s0 s \<Longrightarrow> list_all (permitted allowed) cs \<Longrightarrow> mon_run cs s = Some t \<Longrightarrow>
   mon_reach allowed s0 t"
  by (induction cs arbitrary: s) (auto split: option.splits intro: mon_next)

text \<open>The moves, one at a time, in the form the invariant proofs use.\<close>

lemma mon_move_cases:
  assumes "mon_move c s = Some t"
  obtains
    (call) i x where "c = Call i x" "i < length (mon_pcs s)" "mon_pcs s ! i = Outside"
      "t = s\<lparr>mon_pcs := (mon_pcs s)[i := Entering x]\<rparr>"
  | (sleep) i x where "i < length (mon_pcs s)" "mon_pcs s ! i = Entering x"
      "jq_section x (mon_queue s) = None" "t = s\<lparr>mon_pcs := (mon_pcs s)[i := Asleep x]\<rparr>"
  | (enter) i x q g where "i < length (mon_pcs s)" "mon_pcs s ! i = Entering x"
      "jq_section x (mon_queue s) = Some (q, g)"
      "t = s\<lparr>mon_queue := q, mon_pcs := (mon_pcs s)[i := Signalling g]\<rparr>"
  | (quiet) i where "i < length (mon_pcs s)" "mon_pcs s ! i = Signalling No_notify"
      "t = s\<lparr>mon_pcs := (mon_pcs s)[i := Outside]\<rparr>"
  | (notify) i j x where "i < length (mon_pcs s)" "mon_pcs s ! i = Signalling Notify_one"
      "j < length (mon_pcs s)" "mon_pcs s ! j = Asleep x" "i \<noteq> j"
      "t = s\<lparr>mon_pcs := (mon_pcs s)[i := Outside, j := Entering x]\<rparr>"
  | (notify_none) i where "i < length (mon_pcs s)" "mon_pcs s ! i = Signalling Notify_one"
      "cnt asleep (mon_pcs s) = 0" "t = s\<lparr>mon_pcs := (mon_pcs s)[i := Outside]\<rparr>"
  | (notify_all) i where "i < length (mon_pcs s)" "mon_pcs s ! i = Signalling Notify_all"
      "t = s\<lparr>mon_pcs := map wake ((mon_pcs s)[i := Outside])\<rparr>"
  | (spurious) j x where "j < length (mon_pcs s)" "mon_pcs s ! j = Asleep x"
      "t = s\<lparr>mon_pcs := (mon_pcs s)[j := Entering x]\<rparr>"
proof (cases c)
  case (Call i x)
  with assms call show thesis by (auto simp: mon_move_def Let_def split: if_splits)
next
  case (Enter i)
  with assms sleep enter show thesis
    by (auto simp: mon_move_def Let_def split: if_splits jq_pc.splits option.splits)
next
  case (Signal i j)
  with assms have i: "i < length (mon_pcs s)"
    by (auto simp: mon_move_def Let_def split: if_splits)
  show thesis
  proof (cases "mon_pcs s ! i")
    case (Signalling g)
    show thesis
    proof (cases g)
      case No_notify
      with Signalling Signal assms i quiet show thesis by (auto simp: mon_move_def Let_def)
    next
      case Notify_all
      with Signalling Signal assms i notify_all show thesis by (auto simp: mon_move_def Let_def)
    next
      case Notify_one
      show thesis
      proof (cases "list_ex asleep (mon_pcs s)")
        case True
        with Notify_one Signalling Signal assms i
        have j: "j < length (mon_pcs s)" "asleep (mon_pcs s ! j)"
          and t: "t = s\<lparr>mon_pcs := (mon_pcs s)[i := Outside, j := wake (mon_pcs s ! j)]\<rparr>"
          by (auto simp: mon_move_def Let_def split: if_splits)
        from j(2) obtain x where x: "mon_pcs s ! j = Asleep x"
          by (cases "mon_pcs s ! j") auto
        with Signalling have "i \<noteq> j" by auto
        with notify i j x t Signalling Notify_one show thesis by auto
      next
        case False
        then have "cnt asleep (mon_pcs s) = 0"
          by (auto simp: cnt_zero_iff list_ex_iff)
        with False Notify_one Signalling Signal assms i notify_none show thesis
          by (auto simp: mon_move_def Let_def)
      qed
    qed
  qed (use Signal assms i in \<open>auto simp: mon_move_def Let_def\<close>)
next
  case (Wake j)
  with assms have j: "j < length (mon_pcs s)" "asleep (mon_pcs s ! j)"
    and t: "t = s\<lparr>mon_pcs := (mon_pcs s)[j := wake (mon_pcs s ! j)]\<rparr>"
    by (auto simp: mon_move_def Let_def split: if_splits)
  from j(2) obtain x where "mon_pcs s ! j = Asleep x" by (cases "mon_pcs s ! j") auto
  with j t spurious show thesis by auto
qed


subsection \<open>What a critical section does\<close>

fun helper :: "'a jq_pc \<Rightarrow> bool" where
  "helper (Entering x) = (x = Pop)"
| "helper (Signalling g) = (g = Notify_one)"
| "helper _ = False"

fun broadcasting :: "'a jq_pc \<Rightarrow> bool" where
  "broadcasting (Signalling g) = (g = Notify_all)"
| "broadcasting _ = False"

fun pending_one :: "'a jq_pc \<Rightarrow> bool" where
  "pending_one (Signalling g) = (g = Notify_one)"
| "pending_one _ = False"

definition mon_init :: "'a job_queue \<Rightarrow> nat \<Rightarrow> 'a monitor" where
  "mon_init q n = \<lparr>mon_queue = q, mon_pcs = replicate n Outside\<rparr>"

lemma cnt_replicate_Outside [simp]: "\<not> P Outside \<Longrightarrow> cnt P (replicate n Outside) = 0"
  by (simp add: cnt_zero_iff)

lemma asleep_wake [simp]: "\<not> asleep (wake pc)"
  and broadcasting_wake [simp]: "broadcasting (wake pc) = broadcasting pc"
  and pending_one_wake [simp]: "pending_one (wake pc) = pending_one pc"
  by (cases pc; simp)+

lemma cnt_const_False [simp]: "cnt (\<lambda>x. False) xs = 0"
  by (simp add: cnt_zero_iff)

text \<open>A section leaves the capacity alone and either changes nothing and sends nothing, or
  inserts or removes one item and sends one notification, or stops the queue and tells all.\<close>

lemma jq_section_effect:
  assumes "jq_section x q = Some (q', g)"
  shows "QUEUE_SIZE q' = QUEUE_SIZE q \<and>
    (g = No_notify \<and> jq_container q' = jq_container q \<and> jq_stop_flag q' = jq_stop_flag q \<and>
       (x = Pop \<longrightarrow> jq_stop_flag q \<and> jq_container q = []) \<and> (\<forall>y. x = Push y \<longrightarrow> jq_stop_flag q)
     \<or> g = Notify_one \<and> jq_stop_flag q' = jq_stop_flag q \<and> x \<noteq> Pop \<and>
       length (jq_container q') = Suc (length (jq_container q)) \<and>
       length (jq_container q) < QUEUE_SIZE q
     \<or> g = Notify_one \<and> jq_stop_flag q' = jq_stop_flag q \<and> x = Pop \<and>
       Suc (length (jq_container q')) = length (jq_container q)
     \<or> g = Notify_all \<and> jq_stop_flag q' \<and> x = Close \<and> jq_container q' = jq_container q)"
  using assms
  by (cases x) (auto simp: jq_op_defs split: if_splits queue_type.splits)

lemma jq_section_sleep:
  assumes "jq_section x q = None"
  shows "\<not> jq_stop_flag q \<and> (x = Pop \<and> jq_container q = [] \<or>
    (\<exists>y. x = Push y) \<and> QUEUE_SIZE q \<le> length (jq_container q))"
  using assms
  by (cases x) (auto simp: jq_op_defs split: if_splits queue_type.splits)

subsection \<open>Stopping wakes everybody\<close>

definition stop_inv :: "'a monitor \<Rightarrow> bool" where
  "stop_inv s \<longleftrightarrow> (jq_stop_flag (mon_queue s) \<longrightarrow>
     cnt asleep (mon_pcs s) = 0 \<or> 0 < cnt broadcasting (mon_pcs s))"

lemma stop_inv_move: "mon_move c s = Some t \<Longrightarrow> stop_inv s \<Longrightarrow> stop_inv t"
proof (erule mon_move_cases, goal_cases)
  case (3 i x q g)
  with jq_section_effect [OF 3(4)] show ?case
    by (auto simp: stop_inv_def cnt_update)
qed (auto simp: stop_inv_def cnt_update dest: jq_section_sleep cnt_zero_nth)

lemma stop_inv_reach: "mon_reach al s0 s \<Longrightarrow> stop_inv s0 \<Longrightarrow> stop_inv s"
  by (induction rule: mon_reach.induct) (auto intro: stop_inv_move)

subsection \<open>Workers and non-blocking producers\<close>

text \<open>
  The use in \<^verbatim>\<open>ThreadPool\<close>: any number of workers \<^verbatim>\<open>pop\<close>, everybody else uses \<^verbatim>\<open>try_push\<close>. A
  call to the blocking \<^verbatim>\<open>push\<close> is not made.
\<close>

definition pool_calls :: "nat \<Rightarrow> 'a jq_op \<Rightarrow> bool" where
  "pool_calls i x \<longleftrightarrow> (\<forall>y. x \<noteq> Push y)"

fun blocking_push :: "'a jq_pc \<Rightarrow> bool" where
  "blocking_push (Entering (Push y)) = True"
| "blocking_push (Asleep x) = (x \<noteq> Pop)"
| "blocking_push _ = False"

lemma blocking_push_wake: "blocking_push (wake pc) \<Longrightarrow> blocking_push pc"
  by (cases pc) (auto elim: blocking_push.elims)

definition pool_inv :: "'a monitor \<Rightarrow> bool" where
  "pool_inv s \<longleftrightarrow> cnt blocking_push (mon_pcs s) = 0 \<and>
     (jq_container (mon_queue s) \<noteq> [] \<longrightarrow> 0 < cnt asleep (mon_pcs s) \<longrightarrow>
        0 < cnt helper (mon_pcs s) \<or> 0 < cnt broadcasting (mon_pcs s))"

lemma pool_inv_move:
  assumes "mon_move c s = Some t" and "permitted pool_calls c" and "pool_inv s"
  shows "pool_inv t"
  using assms
proof (cases rule: mon_move_cases)
  case (call i x)
  with assms(2,3) show ?thesis
    by (cases x) (auto simp: pool_inv_def cnt_update pool_calls_def)
next
  case (sleep i x)
  with assms(3) have nb: "\<not> blocking_push (Entering x)"
    unfolding pool_inv_def by (metis cnt_zero_nth)
  then have "x = Pop" "jq_container (mon_queue s) = []"
    using jq_section_sleep [OF sleep(3)] by auto
  with sleep assms(3) show ?thesis by (auto simp: pool_inv_def cnt_update)
next
  case (enter i x q g)
  have nb: "\<not> blocking_push (Entering x)"
    using enter assms(3) unfolding pool_inv_def by (metis cnt_zero_nth)
  from jq_section_effect [OF enter(3)] enter assms(3) nb show ?thesis
    by (cases g) (auto simp: pool_inv_def cnt_update)
next
  case (notify i j x)
  have "\<not> blocking_push (Asleep x)"
    using notify assms(3) unfolding pool_inv_def by (metis cnt_zero_nth)
  with notify assms(3) show ?thesis by (auto simp: pool_inv_def cnt_update)
next
  case (notify_all i)
  have "cnt (\<lambda>pc. blocking_push (wake pc)) (mon_pcs s) = 0"
    using assms(3) blocking_push_wake by (auto simp: pool_inv_def cnt_zero_iff)
  with notify_all assms(3) show ?thesis by (auto simp: pool_inv_def cnt_update)
next
  case (spurious j x)
  have "\<not> blocking_push (Asleep x)"
    using spurious assms(3) unfolding pool_inv_def by (metis cnt_zero_nth)
  with spurious assms(3) show ?thesis by (auto simp: pool_inv_def cnt_update)
qed (use assms in \<open>auto simp: pool_inv_def cnt_update dest: cnt_zero_nth\<close>)

lemma pool_inv_reach: "mon_reach pool_calls s0 s \<Longrightarrow> pool_inv s0 \<Longrightarrow> pool_inv s"
  by (induction rule: mon_reach.induct) (auto intro: pool_inv_move)

definition quiescent :: "'a monitor \<Rightarrow> bool" where
  "quiescent s \<longleftrightarrow> (\<forall>pc \<in> set (mon_pcs s). pc = Outside \<or> asleep pc)"

lemma quiescent_cnt:
  "quiescent s \<Longrightarrow> (\<And>x. asleep x \<Longrightarrow> \<not> P x) \<Longrightarrow> \<not> P Outside \<Longrightarrow> cnt P (mon_pcs s) = 0"
  by (auto simp: quiescent_def cnt_zero_iff)

lemma quiescent_helpers:
  assumes "quiescent s"
  shows "cnt helper (mon_pcs s) = 0" "cnt broadcasting (mon_pcs s) = 0"
    "cnt pending_one (mon_pcs s) = 0"
proof -
  have "\<not> helper x" "\<not> broadcasting x" "\<not> pending_one x" if "asleep x" for x :: "'a jq_pc"
    using that by (cases x; simp)+
  with assms show "cnt helper (mon_pcs s) = 0" "cnt broadcasting (mon_pcs s) = 0"
    "cnt pending_one (mon_pcs s) = 0"
    by (auto intro!: quiescent_cnt)
qed

text \<open>C19: With any number of workers in \<^verbatim>\<open>pop\<close> and any number of threads in \<^verbatim>\<open>try_push\<close> and
  \<^verbatim>\<open>shutdown\<close>, no wake-up is lost, whatever the interleaving and whomever \<^verbatim>\<open>notify_one\<close> picks:
  whenever every thread is either outside the queue or asleep in it and some worker is asleep,
  the queue is empty and not stopped.\<close>

theorem job_queue_pool_no_lost_wakeup:
  assumes "mon_reach pool_calls (mon_init (JobQueue_init p m n) k) s"
    and "quiescent s" and "list_ex asleep (mon_pcs s)"
  shows "jq_container (mon_queue s) = [] \<and> \<not> jq_stop_flag (mon_queue s)"
proof -
  have "pool_inv s"
    using assms(1) by (rule pool_inv_reach) (simp add: pool_inv_def mon_init_def)
  moreover have "stop_inv s"
    using assms(1) by (rule stop_inv_reach) (simp add: stop_inv_def mon_init_def JobQueue_init_def)
  moreover have "0 < cnt asleep (mon_pcs s)"
    using assms(3) by (auto simp: cnt_pos_iff list_ex_iff)
  ultimately show ?thesis
    using quiescent_helpers [OF assms(2)] by (auto simp: pool_inv_def stop_inv_def)
qed

text \<open>Two workers and a producer: both workers fall asleep, two jobs are pushed before the first
  notification goes out, and both workers are woken.\<close>

theorem job_queue_pool_no_lost_wakeup_witness:
  "\<exists>s :: nat monitor. mon_reach pool_calls (mon_init (JobQueue_init Lifo zero_metrics 2) 3) s
     \<and> quiescent s \<and> mon_pcs s = [Asleep Pop, Outside, Outside]
     \<and> jq_container (mon_queue s) = [] \<and> \<not> jq_stop_flag (mon_queue s)"
proof -
  let ?s0 = "mon_init (JobQueue_init Lifo zero_metrics 2) 3 :: nat monitor"
  let ?cs = "[Call 0 Pop, Enter 0, Call 1 Pop, Enter 1, Call 2 (Try_push 5), Enter 2, Signal 2 0,
    Enter 0, Signal 0 1, Enter 1, Call 0 Pop, Enter 0, Wake 1, Call 2 (Try_push 6), Enter 2,
    Enter 1, Signal 2 0, Enter 0, Signal 1 0, Enter 0]"
  obtain s where s: "mon_run ?cs ?s0 = Some s" "mon_pcs s = [Asleep Pop, Outside, Outside]"
    by (simp add: mon_move_def mon_init_def jq_op_defs JobQueue_init_def numeral_3_eq_3)
  have r: "mon_reach pool_calls ?s0 s"
    by (rule mon_run_reach [OF mon_start _ s(1)]) (simp add: pool_calls_def)
  have "quiescent s" "list_ex asleep (mon_pcs s)" by (simp_all add: quiescent_def s(2))
  with job_queue_pool_no_lost_wakeup [OF r] r s(2) show ?thesis by blast
qed

end
