(* ===== verification/Job_Queue_Blocking.thy ===== *)
theory Job_Queue_Blocking
  imports Job_Queue_Monitor
begin

section \<open>JobQueue with blocking producers: the result queue of ExportManager\<close>

text \<open>
  \<^verbatim>\<open>ExportManager\<close> uses its \<^verbatim>\<open>JobQueue<FileEvent>\<close> with one consumer (thread 0, the export
  thread) and blocking producers (the scan workers). Consumer and producers sleep on the same
  condition variable and are woken by \<^verbatim>\<open>notify_one\<close>, so a notification meant for the one kind
  can reach the other. The first theorem says when that is harmless: when the queue has room
  for one item of every producer. The second exhibits the deadlock when it has not.
\<close>

definition export_calls :: "nat \<Rightarrow> 'a jq_op \<Rightarrow> bool" where
  "export_calls i x = (case x of
      Pop \<Rightarrow> i = 0 | Push _ \<Rightarrow> 0 < i | Try_push _ \<Rightarrow> False | Close \<Rightarrow> True | Size \<Rightarrow> True)"

fun well_placed :: "nat \<Rightarrow> 'a jq_pc \<Rightarrow> bool" where
  "well_placed i (Entering x) = export_calls i x"
| "well_placed i (Asleep x) = (x \<noteq> Close \<and> x \<noteq> Size \<and> export_calls i x)"
| "well_placed i _ = True"

fun asleep_push :: "'a jq_pc \<Rightarrow> bool" where
  "asleep_push (Asleep (Push y)) = True"
| "asleep_push _ = False"

definition balanced :: "'a monitor \<Rightarrow> bool" where
  "balanced s \<longleftrightarrow>
     (let pcs = mon_pcs s; room = int (length (jq_container (mon_queue s))) in
      if pcs ! 0 = Asleep Pop then cnt asleep_push pcs = 0 \<and> room \<le> cnt pending_one pcs
      else cnt asleep_push pcs \<le> room + of_bool (pending_one (pcs ! 0)))"

definition export_inv :: "nat \<Rightarrow> 'a monitor \<Rightarrow> bool" where
  "export_inv n s \<longleftrightarrow> length (mon_pcs s) = Suc n \<and> n \<le> QUEUE_SIZE (mon_queue s)
     \<and> (\<forall>i < Suc n. well_placed i (mon_pcs s ! i))
     \<and> (\<not> jq_stop_flag (mon_queue s) \<longrightarrow> balanced s)"

lemma well_placed_wake [simp]: "well_placed i pc \<Longrightarrow> well_placed i (wake pc)"
  by (cases pc) auto

lemma asleep_push_asleep: "asleep_push pc \<Longrightarrow> asleep pc"
  by (cases pc) auto

lemma not_asleep_push_wake [simp]: "\<not> asleep_push (wake pc)"
  by (cases pc) auto

lemma wake_not_Asleep [simp]: "wake pc \<noteq> Asleep x"
  by (cases pc) auto

lemma asleep_push_less:
  assumes "i < length pcs" "0 < i" "\<not> asleep_push (pcs ! i)" "\<not> asleep_push (pcs ! 0)"
  shows "cnt asleep_push pcs + 2 \<le> int (length pcs)"
  using assms by (intro cnt_avoids_two [of i _ 0]) auto

lemma pending_one_less:
  assumes "i < length pcs" "0 < i" "\<not> pending_one (pcs ! i)" "\<not> pending_one (pcs ! 0)"
  shows "cnt pending_one pcs + 2 \<le> int (length pcs)"
  using assms by (intro cnt_avoids_two [of i _ 0]) auto

lemma export_inv_move:
  assumes "mon_move c s = Some t" and "permitted export_calls c" and inv: "export_inv n s"
  shows "export_inv n t"
proof -
  from inv have len: "length (mon_pcs s) = Suc n" and cap: "n \<le> QUEUE_SIZE (mon_queue s)"
    and wp: "\<And>i. i < Suc n \<Longrightarrow> well_placed i (mon_pcs s ! i)"
    and bal: "\<not> jq_stop_flag (mon_queue s) \<Longrightarrow> balanced s"
    by (auto simp: export_inv_def)
  note * = export_inv_def balanced_def Let_def cnt_update nth_list_update
  from assms(1) show ?thesis
  proof (cases rule: mon_move_cases)
    case (call i x)
    with assms(2) have "export_calls i x" by simp
    with call len cap wp bal show ?thesis by (auto simp: *)
  next
    case (sleep i x)
    have "i < Suc n" using sleep len by simp
    from wp [OF this] sleep have ec: "export_calls i x" by simp
    note f = jq_section_sleep [OF sleep(3)]
    show ?thesis
    proof (cases "i = 0")
      case True
      with ec f have "x = Pop" "jq_container (mon_queue s) = []" by (auto simp: export_calls_def)
      with True sleep len cap wp bal f show ?thesis by (auto simp: * export_calls_def)
    next
      case False
      with ec f obtain y where x: "x = Push y"
        and full: "QUEUE_SIZE (mon_queue s) \<le> length (jq_container (mon_queue s))"
        by (auto simp: export_calls_def)
      from f have ns: "\<not> jq_stop_flag (mon_queue s)" by simp
      have p: "cnt pending_one (mon_pcs s) + 2 \<le> int (Suc n)" if "mon_pcs s ! 0 = Asleep Pop"
        using pending_one_less [of i "mon_pcs s"] that sleep False len by simp
      then have nc: "mon_pcs s ! 0 \<noteq> Asleep Pop"
        using bal [OF ns] full cap by (auto simp: balanced_def Let_def)
      have "well_placed 0 (mon_pcs s ! 0)" using wp by simp
      then have "\<not> asleep_push (mon_pcs s ! 0)"
        by (cases "mon_pcs s ! 0" rule: asleep_push.cases) (auto simp: export_calls_def)
      then have "cnt asleep_push (mon_pcs s) + 2 \<le> int (Suc n)"
        using asleep_push_less [of i "mon_pcs s"] sleep False len by simp
      with sleep x len cap wp bal [OF ns] nc full False ec show ?thesis by (auto simp: *)
    qed
  next
    case (enter i x q g)
    have "i < Suc n" using enter len by simp
    from wp [OF this] enter have ec: "export_calls i x" by simp
    from jq_section_effect [OF enter(3)] enter len cap wp bal ec show ?thesis
      by (cases g) (auto simp: * export_calls_def)
  next
    case (quiet i)
    with len cap wp bal show ?thesis by (auto simp: *)
  next
    case (notify i j x)
    have "j < Suc n" using notify len by simp
    from wp [OF this] notify have ec: "export_calls j x" "x \<noteq> Close" "x \<noteq> Size" by auto
    show ?thesis
    proof (cases "j = 0")
      case True
      with ec have "x = Pop" by (auto simp: export_calls_def split: jq_op.splits)
      with True notify len cap wp bal show ?thesis by (auto simp: * export_calls_def)
    next
      case False
      with ec obtain y where x: "x = Push y" by (auto simp: export_calls_def split: jq_op.splits)
      with notify have "0 < cnt asleep_push (mon_pcs s)"
        by (intro cnt_nth_pos [of j]) auto
      with False x notify len cap wp bal ec show ?thesis
        by (cases "jq_stop_flag (mon_queue s)") (auto simp: *)
    qed
  next
    case (notify_none i)
    have z: "cnt asleep_push (mon_pcs s) = 0"
      using notify_none(3) asleep_push_asleep by (auto simp: cnt_zero_iff)
    have "\<not> asleep (mon_pcs s ! 0)" using notify_none(3) len by (intro cnt_zero_nth) auto
    with z notify_none len cap wp bal show ?thesis by (auto simp: *)
  next
    case (notify_all i)
    with len cap wp bal show ?thesis by (auto simp: *)
  next
    case (spurious j x)
    have "j < Suc n" using spurious len by simp
    from wp [OF this] spurious have ec: "export_calls j x" "x \<noteq> Close" "x \<noteq> Size" by auto
    show ?thesis
    proof (cases "j = 0")
      case True
      with ec have "x = Pop" by (auto simp: export_calls_def split: jq_op.splits)
      with True spurious len cap wp bal show ?thesis by (auto simp: * export_calls_def)
    next
      case False
      with ec obtain y where x: "x = Push y" by (auto simp: export_calls_def split: jq_op.splits)
      with spurious have "0 < cnt asleep_push (mon_pcs s)"
        by (intro cnt_nth_pos [of j]) auto
      with False x spurious len cap wp bal ec show ?thesis
        by (cases "jq_stop_flag (mon_queue s)") (auto simp: *)
    qed
  qed
qed


lemma export_inv_reach:
  "mon_reach export_calls s0 s \<Longrightarrow> export_inv n s0 \<Longrightarrow> export_inv n s"
  by (induction rule: mon_reach.induct) (auto intro: export_inv_move)

lemma export_inv_init:
  assumes "n \<le> k"
  shows "export_inv n (mon_init (JobQueue_init p m k) (Suc n))"
proof -
  have "replicate (Suc n) Outside ! i = (Outside :: 'a jq_pc)" if "i < Suc n" for i
    using that by (simp del: replicate_Suc)
  then show ?thesis
    using assms by (auto simp: export_inv_def mon_init_def JobQueue_init_def balanced_def
        simp del: replicate_Suc)
qed

text \<open>C20: One consumer in \<^verbatim>\<open>pop\<close>, \<open>n\<close> producers in the blocking \<^verbatim>\<open>push\<close>, any thread in
  \<^verbatim>\<open>shutdown\<close>: if the capacity is at least the number of producers, the single condition
  variable is enough. Whenever nobody is running inside the queue and the consumer is asleep,
  the queue is empty and not stopped and no producer is asleep, so the next \<^verbatim>\<open>push\<close> goes
  through: the threads never block each other.\<close>

theorem export_queue_no_deadlock:
  assumes "mon_reach export_calls (mon_init (JobQueue_init p m k) (Suc n)) s"
    and "n \<le> k" and "quiescent s" and "mon_pcs s ! 0 = Asleep Pop"
  shows "jq_container (mon_queue s) = [] \<and> \<not> jq_stop_flag (mon_queue s)
    \<and> (\<forall>i < n. mon_pcs s ! Suc i = Outside)"
proof -
  have inv: "export_inv n s"
    using assms(1) export_inv_init [OF assms(2)] by (rule export_inv_reach)
  then have len: "length (mon_pcs s) = Suc n" by (simp add: export_inv_def)
  have "stop_inv s"
    using assms(1) by (rule stop_inv_reach) (simp add: stop_inv_def mon_init_def JobQueue_init_def)
  moreover have "0 < cnt asleep (mon_pcs s)"
    using assms(4) len by (intro cnt_nth_pos [of 0]) auto
  ultimately have ns: "\<not> jq_stop_flag (mon_queue s)"
    using quiescent_helpers [OF assms(3)] by (auto simp: stop_inv_def)
  with inv assms(4) have z: "cnt asleep_push (mon_pcs s) = 0" "jq_container (mon_queue s) = []"
    using quiescent_helpers [OF assms(3)] by (auto simp: export_inv_def balanced_def Let_def)
  have "mon_pcs s ! Suc i = Outside" if "i < n" for i
  proof -
    have i: "Suc i < length (mon_pcs s)" using that len by simp
    then have "well_placed (Suc i) (mon_pcs s ! Suc i)"
      using inv len by (simp add: export_inv_def)
    moreover have "\<not> asleep_push (mon_pcs s ! Suc i)" using z(1) i by (rule cnt_zero_nth)
    moreover have "mon_pcs s ! Suc i = Outside \<or> asleep (mon_pcs s ! Suc i)"
      using assms(3) i by (auto simp: quiescent_def)
    ultimately show ?thesis
      by (cases "mon_pcs s ! Suc i" rule: asleep_push.cases)
        (auto simp: export_calls_def split: jq_op.splits)
  qed
  with ns z show ?thesis by blast
qed

theorem export_queue_no_deadlock_witness:
  "\<exists>s :: nat monitor. mon_reach export_calls (mon_init (JobQueue_init Fifo zero_metrics 2) 3) s
     \<and> mon_pcs s ! 0 = Asleep Pop \<and> jq_container (mon_queue s) = []
     \<and> (\<forall>i < 2. mon_pcs s ! Suc i = Outside)"
proof -
  let ?s0 = "mon_init (JobQueue_init Fifo zero_metrics 2) (Suc 2) :: nat monitor"
  let ?cs = "[Call 0 Pop, Enter 0, Call 1 (Push 5), Enter 1, Signal 1 0, Enter 0, Signal 0 0,
    Call 0 Pop, Enter 0]"
  obtain s where s: "mon_run ?cs ?s0 = Some s" "mon_pcs s = [Asleep Pop, Outside, Outside]"
    by (simp add: mon_move_def mon_init_def jq_op_defs JobQueue_init_def numeral_2_eq_2)
  have r: "mon_reach export_calls ?s0 s"
    by (rule mon_run_reach [OF mon_start _ s(1)]) (simp add: export_calls_def)
  have "quiescent s" by (simp add: quiescent_def s(2))
  with export_queue_no_deadlock [OF r] r s(2) show ?thesis
    by (auto simp: numeral_3_eq_3 numeral_2_eq_2)
qed

text \<open>C21: With capacity 1 and two blocking producers the queue can deadlock: an interleaving of
  the three threads' calls ends with all three asleep although an item is waiting, because the
  producer's notification woke the other producer instead of the consumer. From that state no
  thread can move but by a spurious wake-up.\<close>

theorem export_queue_deadlock:
  "\<exists>s :: nat monitor. mon_reach export_calls (mon_init (JobQueue_init Fifo zero_metrics 1) 3) s
     \<and> jq_container (mon_queue s) = [11] \<and> \<not> jq_stop_flag (mon_queue s)
     \<and> list_all asleep (mon_pcs s)
     \<and> (\<forall>c. mon_move c s \<noteq> None \<longleftrightarrow> (\<exists>j < 3. c = Wake j))"
proof -
  let ?s0 = "mon_init (JobQueue_init Fifo zero_metrics 1) 3 :: nat monitor"
  let ?cs = "[Call 1 (Push 10), Enter 1, Signal 1 0, Call 1 (Push 11), Enter 1, Call 2 (Push 20),
    Enter 2, Call 0 Pop, Enter 0, Signal 0 1, Call 0 Pop, Enter 0, Enter 1, Signal 1 2, Enter 2,
    Call 1 (Push 12), Enter 1]"
  obtain s where s: "mon_run ?cs ?s0 = Some s"
      "mon_pcs s = [Asleep Pop, Asleep (Push 12), Asleep (Push 20)]"
      "jq_container (mon_queue s) = [11]" "\<not> jq_stop_flag (mon_queue s)"
    by (simp add: mon_move_def mon_init_def jq_op_defs JobQueue_init_def numeral_3_eq_3
        zero_metrics_def)
  have r: "mon_reach export_calls ?s0 s"
    by (rule mon_run_reach [OF mon_start _ s(1)]) (simp add: export_calls_def)
  have len: "length (mon_pcs s) = 3" using s(2) by simp
  have a: "asleep (mon_pcs s ! i)" if "i < 3" for i
    using that s(2) by (auto simp: less_Suc_eq numeral_3_eq_3)
  have "mon_move c s \<noteq> None \<longleftrightarrow> (\<exists>j < 3. c = Wake j)" for c
  proof (cases c)
    case (Wake j)
    then show ?thesis using a len by (auto simp: mon_move_def Let_def)
  next
    case (Call i x)
    then show ?thesis using a [of i] len by (auto simp: mon_move_def Let_def)
  next
    case (Enter i)
    then show ?thesis using a [of i] len by (auto simp: mon_move_def Let_def split: jq_pc.splits)
  next
    case (Signal i j)
    then show ?thesis using a [of i] len by (auto simp: mon_move_def Let_def split: jq_pc.splits)
  qed
  moreover have "list_all asleep (mon_pcs s)" using s(2) by simp
  ultimately show ?thesis using r s(3,4) by (intro exI [of _ s]) blast
qed

end
