(* ===== verification/Transitions.thy ===== *)
theory Transitions
  imports FS_Prelude
begin

section \<open>Interleavings: labelled moves, runs, reachable states\<close>

text \<open>
  The threads of a component interleave at their critical sections and atomic operations. Such
  a component is given by a function \<open>move\<close>: what the labelled move does to the shared state,
  \<^term>\<open>None\<close> where the move is not possible. A schedule is a list of moves; a state is reachable
  if some schedule leads to it.
\<close>

fun run :: "('m \<Rightarrow> 's \<Rightarrow> 's option) \<Rightarrow> 'm list \<Rightarrow> 's \<Rightarrow> 's option" where
  "run move [] s = Some s"
| "run move (m # ms) s = (case move m s of None \<Rightarrow> None | Some t \<Rightarrow> run move ms t)"

inductive reach :: "('m \<Rightarrow> 's \<Rightarrow> 's option) \<Rightarrow> 's \<Rightarrow> 's \<Rightarrow> bool"
  for move :: "'m \<Rightarrow> 's \<Rightarrow> 's option" and s0 :: 's where
  reach_start: "reach move s0 s0"
| reach_move: "reach move s0 s \<Longrightarrow> move m s = Some t \<Longrightarrow> reach move s0 t"

lemma run_reach: "reach move s0 s \<Longrightarrow> run move ms s = Some t \<Longrightarrow> reach move s0 t"
  by (induction ms arbitrary: s) (auto split: option.splits intro: reach_move)

lemma run_reach_start: "run move ms s0 = Some t \<Longrightarrow> reach move s0 t"
  by (rule run_reach [OF reach_start])

lemma run_append:
  "run move (ms @ ns) s = (case run move ms s of None \<Rightarrow> None | Some t \<Rightarrow> run move ns t)"
  by (induction ms arbitrary: s) (auto split: option.splits)

lemma reach_iff_run: "reach move s0 s \<longleftrightarrow> (\<exists>ms. run move ms s0 = Some s)"
proof
  assume "reach move s0 s"
  then show "\<exists>ms. run move ms s0 = Some s"
  proof (induction rule: reach.induct)
    case reach_start
    have "run move [] s0 = Some s0" by simp
    then show ?case ..
  next
    case (reach_move s m t)
    then obtain ms where "run move ms s0 = Some s" by blast
    with reach_move have "run move (ms @ [m]) s0 = Some t" by (simp add: run_append)
    then show ?case ..
  qed
qed (auto intro: run_reach_start)

lemma reach_trans: "reach move s t \<Longrightarrow> reach move t u \<Longrightarrow> reach move s u"
  by (auto simp: reach_iff_run) (metis option.simps(5) run_append)

text \<open>An invariant: it holds at the start and every move keeps it. The contract is a locale, so
  that every component states its invariant once and gets it for runs and reachable states.\<close>

locale invariant =
  fixes move :: "'m \<Rightarrow> 's \<Rightarrow> 's option" and I :: "'s \<Rightarrow> bool"
  assumes keeps: "I s \<Longrightarrow> move m s = Some t \<Longrightarrow> I t"

context invariant
begin

lemma reach_keeps: "reach move s0 s \<Longrightarrow> I s0 \<Longrightarrow> I s"
  by (induction rule: reach.induct) (auto intro: keeps)

lemma run_keeps: "run move ms s = Some t \<Longrightarrow> I s \<Longrightarrow> I t"
  using reach_keeps run_reach_start by metis

end

text \<open>A variant: a measure that every move within an invariant decreases. It bounds the length of
  every run.\<close>

locale variant = invariant +
  fixes V :: "'b \<Rightarrow> nat"
  assumes decreases: "I s \<Longrightarrow> move m s = Some t \<Longrightarrow> V t < V s"

context variant
begin

lemma run_bounded: "run move ms s = Some t \<Longrightarrow> I s \<Longrightarrow> length ms + V t \<le> V s"
proof (induction ms arbitrary: s)
  case Nil
  then show ?case by simp
next
  case (Cons m ms)
  then obtain u where u: "move m s = Some u" "run move ms u = Some t"
    by (auto split: option.splits)
  then have "length ms + V t \<le> V u" using Cons keeps by blast
  moreover have "V u < V s" using u Cons.prems decreases by blast
  ultimately show ?case by simp
qed

text \<open>Enough fuel: from any state there is a run to a state in which no move is possible.\<close>

lemma run_to_end: "I s \<Longrightarrow> \<exists>ms t. run move ms s = Some t \<and> (\<forall>m. move m t = None)"
proof (induction "V s" arbitrary: s rule: less_induct)
  case less
  show ?case
  proof (cases "\<forall>m. move m s = None")
    case True
    then show ?thesis by (metis run.simps(1))
  next
    case False
    then obtain m u where u: "move m s = Some u" by auto
    with less keeps decreases obtain ms t where "run move ms u = Some t" "\<forall>m. move m t = None"
      by blast
    with u have "run move (m # ms) s = Some t" "\<forall>m. move m t = None" by auto
    then show ?thesis by blast
  qed
qed

end

end
