(* ===== verification/Thread_Pool.thy ===== *)
theory Thread_Pool
  imports Job_Queue Transitions
begin

section \<open>ThreadPool (src/concurrency/thread_pool.h)\<close>

text \<open>
  \<^verbatim>\<open>ThreadPool<T>\<close>: worker threads that take jobs off a \<^verbatim>\<open>JobQueue<T>\<close> and run the job function
  on each. A worker is in \<^verbatim>\<open>pop\<close>, in the job function, past a \<^verbatim>\<open>pop\<close> that returned \<^verbatim>\<open>false\<close>, or
  gone. What the job function does is not modelled here (it may submit more jobs: those are
  submissions like any other); \<open>tp_done\<close> lists the jobs it has finished.
\<close>

datatype 'a worker = Popping | Running 'a | Leaving | Exited

record 'a thread_pool =
  tp_queue :: "'a job_queue"
  NUM_THREADS :: nat
  tp_pool :: "'a worker list"
  tp_done :: "'a list"

definition ThreadPool_init ::
    "queue_type \<Rightarrow> queue_metrics \<Rightarrow> nat \<Rightarrow> nat \<Rightarrow> 'a thread_pool" where
  "ThreadPool_init policy metrics queue_size num_threads =
     \<lparr>tp_queue = JobQueue_init policy metrics queue_size, NUM_THREADS = num_threads,
      tp_pool = [], tp_done = []\<rparr>"

text \<open>
  \<^verbatim>\<open>start\<close>: creating thread \<open>i\<close> succeeds or throws (\<open>spawn i\<close>). At the first failure the threads
  created so far are stopped and joined; the queue is empty then, so they leave at once.
\<close>

fun ThreadPool_spawn :: "(nat \<Rightarrow> bool) \<Rightarrow> nat \<Rightarrow> nat \<Rightarrow> 'a worker list option" where
  "ThreadPool_spawn spawn i 0 = Some []"
| "ThreadPool_spawn spawn i (Suc k) =
     (if spawn i then map_option (Cons Popping) (ThreadPool_spawn spawn (Suc i) k) else None)"

definition ThreadPool_start :: "(nat \<Rightarrow> bool) \<Rightarrow> 'a thread_pool \<Rightarrow> bool \<times> 'a thread_pool" where
  "ThreadPool_start spawn p =
     (case ThreadPool_spawn spawn 0 (NUM_THREADS p) of
        Some ws \<Rightarrow> (True, p\<lparr>tp_pool := tp_pool p @ ws\<rparr>)
      | None \<Rightarrow> (False, p\<lparr>tp_queue := fst (JobQueue_shutdown (tp_queue p)), tp_pool := []\<rparr>))"

definition ThreadPool_submit :: "'a \<Rightarrow> 'a thread_pool \<Rightarrow> submit_result \<times> 'a thread_pool" where
  "ThreadPool_submit data p =
     (case JobQueue_try_push data (tp_queue p) of (r, q, _) \<Rightarrow> (r, p\<lparr>tp_queue := q\<rparr>))"

definition ThreadPool_jobs_in_queue :: "'a thread_pool \<Rightarrow> nat" where
  "ThreadPool_jobs_in_queue p = JobQueue_jobs_in_queue (tp_queue p)"

text \<open>
  One step of worker \<open>i\<close> in \<^verbatim>\<open>work_forever\<close>: \<^verbatim>\<open>pop\<close> returns a job, or returns \<^verbatim>\<open>false\<close>, or waits
  (no step); the job function returns; after the loop the worker stops the queue itself.
\<close>

definition ThreadPool_work_step :: "nat \<Rightarrow> 'a thread_pool \<Rightarrow> 'a thread_pool option" where
  "ThreadPool_work_step i p =
     (if i < length (tp_pool p) then
        (case tp_pool p ! i of
           Popping \<Rightarrow>
             (case JobQueue_pop (tp_queue p) of
                None \<Rightarrow> None
              | Some (None, q, _) \<Rightarrow>
                  Some (p\<lparr>tp_queue := q, tp_pool := (tp_pool p)[i := Leaving]\<rparr>)
              | Some (Some job, q, _) \<Rightarrow>
                  Some (p\<lparr>tp_queue := q, tp_pool := (tp_pool p)[i := Running job]\<rparr>))
         | Running job \<Rightarrow>
             Some (p\<lparr>tp_pool := (tp_pool p)[i := Popping], tp_done := tp_done p @ [job]\<rparr>)
         | Leaving \<Rightarrow>
             Some (p\<lparr>tp_queue := fst (JobQueue_shutdown (tp_queue p)),
                     tp_pool := (tp_pool p)[i := Exited]\<rparr>)
         | Exited \<Rightarrow> None)
      else None)"

text \<open>
  \<^verbatim>\<open>shutdown\<close> stops the queue, then joins: the join returns when every worker has exited, and
  the threads are dropped.
\<close>

definition ThreadPool_shutdown_begin :: "'a thread_pool \<Rightarrow> 'a thread_pool" where
  "ThreadPool_shutdown_begin p = p\<lparr>tp_queue := fst (JobQueue_shutdown (tp_queue p))\<rparr>"

definition ThreadPool_join :: "'a thread_pool \<Rightarrow> 'a thread_pool option" where
  "ThreadPool_join p = (if list_all (\<lambda>w. w = Exited) (tp_pool p) then Some (p\<lparr>tp_pool := []\<rparr>) else None)"

datatype 'a pool_move = Submit 'a | Work nat | Stop

fun pool_step :: "'a pool_move \<Rightarrow> 'a thread_pool \<times> 'a list \<Rightarrow> ('a thread_pool \<times> 'a list) option" where
  "pool_step (Submit x) (p, acc) =
     (case ThreadPool_submit x p of (r, p') \<Rightarrow> Some (p', if r = Pushed then acc @ [x] else acc))"
| "pool_step (Work i) (p, acc) = map_option (\<lambda>p'. (p', acc)) (ThreadPool_work_step i p)"
| "pool_step Stop (p, acc) = Some (ThreadPool_shutdown_begin p, acc)"

text \<open>The second component of a state collects the accepted jobs.\<close>

fun running_job :: "'a worker \<Rightarrow> 'a multiset" where
  "running_job (Running x) = {#x#}"
| "running_job _ = {#}"

definition in_progress :: "'a thread_pool \<Rightarrow> 'a multiset" where
  "in_progress p = sum_list (map running_job (tp_pool p))"


lemma in_progress_update:
  "i < length (tp_pool p) \<Longrightarrow>
   in_progress (p\<lparr>tp_pool := (tp_pool p)[i := w]\<rparr>) + running_job (tp_pool p ! i)
     = in_progress p + running_job w"
  by (simp add: in_progress_def sum_list_map_update)

lemma JobQueue_pop_Some:
  assumes "JobQueue_pop q = Some (Some x, q', g)"
  shows "mset (jq_container q) = add_mset x (mset (jq_container q'))"
    "jq_stop_flag q' = jq_stop_flag q" "length (jq_container q) = Suc (length (jq_container q'))"
proof -
  have ne: "jq_container q \<noteq> []" using assms by (auto simp: JobQueue_pop_def split: if_splits)
  have "mset (jq_container q) = add_mset x (mset (jq_container q')) \<and>
    jq_stop_flag q' = jq_stop_flag q"
  proof (cases "jq_policy q")
    case Fifo
    with assms ne show ?thesis
      by (cases "jq_container q") (auto simp: JobQueue_pop_def jq_taken_def)
  next
    case Lifo
    with assms ne show ?thesis
      by (cases "jq_container q" rule: rev_cases) (auto simp: JobQueue_pop_def jq_taken_def)
  qed
  then show "mset (jq_container q) = add_mset x (mset (jq_container q'))"
    "jq_stop_flag q' = jq_stop_flag q" "length (jq_container q) = Suc (length (jq_container q'))"
    by (auto simp flip: size_mset)
qed

lemma JobQueue_pop_None:
  "JobQueue_pop q = Some (None, q', g) \<Longrightarrow> q' = q \<and> jq_container q = [] \<and> jq_stop_flag q"
  by (auto simp: JobQueue_pop_def split: if_splits queue_type.splits)

lemma ThreadPool_work_step_cases:
  assumes "ThreadPool_work_step i p = Some p'"
  obtains
    (job) x q g where "i < length (tp_pool p)" "tp_pool p ! i = Popping"
      "JobQueue_pop (tp_queue p) = Some (Some x, q, g)"
      "p' = p\<lparr>tp_queue := q, tp_pool := (tp_pool p)[i := Running x]\<rparr>"
  | (closed) "i < length (tp_pool p)" "tp_pool p ! i = Popping"
      "jq_container (tp_queue p) = []" "jq_stop_flag (tp_queue p)"
      "p' = p\<lparr>tp_pool := (tp_pool p)[i := Leaving]\<rparr>"
  | (finished) x where "i < length (tp_pool p)" "tp_pool p ! i = Running x"
      "p' = p\<lparr>tp_pool := (tp_pool p)[i := Popping], tp_done := tp_done p @ [x]\<rparr>"
  | (left) "i < length (tp_pool p)" "tp_pool p ! i = Leaving"
      "p' = p\<lparr>tp_queue := (tp_queue p)\<lparr>jq_stop_flag := True\<rparr>, tp_pool := (tp_pool p)[i := Exited]\<rparr>"
proof -
  from assms have i: "i < length (tp_pool p)" by (auto simp: ThreadPool_work_step_def split: if_splits)
  show thesis
  proof (cases "tp_pool p ! i")
    case Popping
    with assms i job closed show thesis
      by (auto simp: ThreadPool_work_step_def split: option.splits dest!: JobQueue_pop_None)
  qed (use assms i finished left in \<open>auto simp: ThreadPool_work_step_def JobQueue_shutdown_def\<close>)
qed

text \<open>Workers only leave a stopped, empty queue.\<close>

definition pool_ok :: "'a thread_pool \<times> 'a list \<Rightarrow> bool" where
  "pool_ok s \<longleftrightarrow> (case s of (p, acc) \<Rightarrow>
     mset acc = mset (jq_container (tp_queue p)) + in_progress p + mset (tp_done p)
     \<and> ((\<exists>w \<in> set (tp_pool p). w = Leaving \<or> w = Exited) \<longrightarrow>
          jq_stop_flag (tp_queue p) \<and> jq_container (tp_queue p) = []))"

lemma pool_ok_work:
  assumes "ThreadPool_work_step i p = Some p'" and "pool_ok (p, acc)"
  shows "pool_ok (p', acc)"
  using assms(1)
proof (cases rule: ThreadPool_work_step_cases)
  case (job x q g)
  have "\<not> (\<exists>w \<in> set (tp_pool p). w = Leaving \<or> w = Exited)"
    using assms(2) JobQueue_pop_Some [OF job(3)] by (auto simp: pool_ok_def)
  then have no: "\<not> (\<exists>w \<in> set ((tp_pool p)[i := Running x]). w = Leaving \<or> w = Exited)"
    using set_update_subset_insert [of "tp_pool p" i "Running x"] by auto
  have "in_progress (p\<lparr>tp_pool := (tp_pool p)[i := Running x]\<rparr>) = in_progress p + {#x#}"
    using in_progress_update [OF job(1), of "Running x"] job(2) by simp
  with no job assms(2) JobQueue_pop_Some(1) [OF job(3)] show ?thesis
    by (simp add: pool_ok_def in_progress_def)
next
  case closed
  have "in_progress (p\<lparr>tp_pool := (tp_pool p)[i := Leaving]\<rparr>) = in_progress p"
    using in_progress_update [OF closed(1), of Leaving] closed(2) by simp
  with closed assms(2) show ?thesis by (simp add: pool_ok_def)
next
  case (finished x)
  have *: "set ((tp_pool p)[i := Popping]) \<subseteq> insert Popping (set (tp_pool p))"
    by (rule set_update_subset_insert)
  have "add_mset x (in_progress (p\<lparr>tp_pool := (tp_pool p)[i := Popping]\<rparr>)) = in_progress p"
    using in_progress_update [OF finished(1), of Popping] finished(2) by simp
  then have "in_progress p = add_mset x (in_progress p')"
    using finished(3) by (simp add: in_progress_def)
  with finished(3) assms(2) * show ?thesis by (fastforce simp: pool_ok_def)
next
  case left
  have *: "Leaving \<in> set (tp_pool p)" using left by (metis nth_mem)
  have "in_progress (p\<lparr>tp_pool := (tp_pool p)[i := Exited]\<rparr>) = in_progress p"
    using in_progress_update [OF left(1), of Exited] left(2) by simp
  then have "in_progress p' = in_progress p"
    using left(3) by (simp add: in_progress_def)
  with left(3) assms(2) * show ?thesis by (auto simp: pool_ok_def)
qed

lemma pool_ok_step: "pool_ok s \<Longrightarrow> pool_step m s = Some t \<Longrightarrow> pool_ok t"
proof (cases m)
  case (Submit x)
  moreover assume a: "pool_ok s" "pool_step m s = Some t"
  moreover obtain p acc where s: "s = (p, acc)" by (cases s)
  ultimately have t: "t = (snd (ThreadPool_submit x p), if fst (ThreadPool_submit x p) = Pushed then acc @ [x] else acc)"
    by (auto split: prod.splits)
  show ?thesis
  proof (cases "jq_stop_flag (tp_queue p) \<or> QUEUE_SIZE (tp_queue p) \<le> length (jq_container (tp_queue p))")
    case True
    then have "t = (p\<lparr>tp_queue := jq_rejected (tp_queue p)\<rparr>, acc)"
      by (auto simp: t ThreadPool_submit_def JobQueue_try_push_def)
    with a(1) show ?thesis by (simp add: s pool_ok_def jq_rejected_def in_progress_def)
  next
    case False
    with a(1) have "\<not> (\<exists>w \<in> set (tp_pool p). w = Leaving \<or> w = Exited)" by (auto simp: s pool_ok_def)
    with False a(1) show ?thesis
      by (simp add: s t pool_ok_def ThreadPool_submit_def JobQueue_try_push_def jq_accepted_def in_progress_def)
  qed
next
  case (Work i)
  moreover assume "pool_ok s" "pool_step m s = Some t"
  ultimately show ?thesis by (cases s) (auto intro: pool_ok_work)
next
  case Stop
  moreover assume "pool_ok s" "pool_step m s = Some t"
  ultimately show ?thesis
    by (cases s) (auto simp: pool_ok_def ThreadPool_shutdown_begin_def JobQueue_shutdown_def
        in_progress_def)
qed

interpretation pool: invariant pool_step pool_ok
  by unfold_locales (rule pool_ok_step)

interpretation pool_length: invariant pool_step "\<lambda>s. length (tp_pool (fst s)) = n" for n
proof unfold_locales
  fix s m t
  assume "length (tp_pool (fst s)) = n" and "pool_step m s = Some t"
  then show "length (tp_pool (fst t)) = n"
    by (cases m; cases s)
      (auto simp: ThreadPool_submit_def ThreadPool_shutdown_begin_def
        elim!: ThreadPool_work_step_cases split: prod.splits)
qed

lemma ThreadPool_spawn_eq:
  "ThreadPool_spawn spawn i k =
     (if \<forall>j < k. spawn (i + j) then Some (replicate k Popping) else None)"
proof (induction k arbitrary: i)
  case 0
  then show ?case by simp
next
  case (Suc k)
  have "(\<forall>j < Suc k. spawn (i + j)) \<longleftrightarrow> spawn i \<and> (\<forall>j < k. spawn (Suc i + j))"
    by (auto simp: less_Suc_eq_0_disj)
  with Suc show ?case by simp
qed

lemma in_progress_Popping:
  "tp_pool (p :: 'a thread_pool) = replicate k Popping \<Longrightarrow> in_progress p = {#}"
proof -
  have "sum_list (map running_job (replicate k (Popping :: 'a worker))) = {#}"
    by (induction k) simp_all
  then show "tp_pool p = replicate k Popping \<Longrightarrow> in_progress p = {#}" for p :: "'a thread_pool"
    by (simp add: in_progress_def)
qed


subsection \<open>Every accepted job is run exactly once\<close>

text \<open>\<^verbatim>\<open>start\<close> succeeds just when every thread can be created. On success all workers are in
  \<^verbatim>\<open>pop\<close>; on failure no worker is left behind and the queue refuses every later submission.\<close>

theorem thread_pool_start:
  "ThreadPool_start spawn (ThreadPool_init pol m qs n) = (b, p) \<longleftrightarrow>
     b = (\<forall>i < n. spawn i) \<and>
     p = (if b then (ThreadPool_init pol m qs n)\<lparr>tp_pool := replicate n Popping\<rparr>
          else (ThreadPool_init pol m qs n)\<lparr>tp_queue := (JobQueue_init pol m qs)\<lparr>jq_stop_flag := True\<rparr>\<rparr>)"
  by (auto simp: ThreadPool_start_def ThreadPool_init_def JobQueue_shutdown_def ThreadPool_spawn_eq)

theorem thread_pool_start_witness:
  "ThreadPool_start (\<lambda>i. i \<noteq> 1) (ThreadPool_init Fifo zero_metrics 4 2)
     = (False, (ThreadPool_init Fifo zero_metrics 4 2)
         \<lparr>tp_queue := (JobQueue_init Fifo zero_metrics 4 :: nat job_queue)\<lparr>jq_stop_flag := True\<rparr>\<rparr>)"
  by (subst thread_pool_start) auto

definition started :: "queue_type \<Rightarrow> queue_metrics \<Rightarrow> nat \<Rightarrow> nat \<Rightarrow> 'a thread_pool" where
  "started pol m qs n = snd (ThreadPool_start (\<lambda>_. True) (ThreadPool_init pol m qs n))"

lemma started_eq:
  "started pol m qs n = (ThreadPool_init pol m qs n)\<lparr>tp_pool := replicate n Popping\<rparr>"
  by (simp add: started_def ThreadPool_start_def ThreadPool_init_def ThreadPool_spawn_eq)

lemma pool_ok_started: "pool_ok (started pol m qs n, [])"
proof -
  have "in_progress (started pol m qs n) = {#}"
    by (rule in_progress_Popping [of _ n]) (simp add: started_eq)
  then show ?thesis
    by (simp add: pool_ok_def started_eq ThreadPool_init_def JobQueue_init_def)
qed

text \<open>C13: At every moment of every interleaving of submissions, workers and shutdown, the accepted
  jobs are exactly those still queued, those being run and those already run, each once: no job
  is lost, none is run twice.\<close>

theorem thread_pool_exactly_once:
  assumes "reach pool_step (started pol m qs n, []) (p, acc)"
  shows "mset acc = mset (jq_container (tp_queue p)) + in_progress p + mset (tp_done p)"
  using pool.reach_keeps [OF assms pool_ok_started] by (simp add: pool_ok_def)

theorem thread_pool_exactly_once_witness:
  "\<exists>p. reach pool_step (started Lifo zero_metrics 2 2, []) (p, [7, 8])
     \<and> tp_done p = [8 :: nat] \<and> in_progress p = {#7#}
     \<and> mset [7, 8] = mset (jq_container (tp_queue p)) + in_progress p + mset (tp_done p)"
proof -
  let ?ms = "[Submit 7, Submit 8, Submit 9, Work 0, Work 1, Work 0]"
  obtain p where p: "run pool_step ?ms (started Lifo zero_metrics 2 2, []) = Some (p, [7, 8])"
      "tp_done p = [8 :: nat]" "in_progress p = {#7#}"
    by (simp add: started_eq ThreadPool_init_def JobQueue_init_def ThreadPool_submit_def jq_op_defs
        ThreadPool_work_step_def in_progress_def numeral_2_eq_2)
  with thread_pool_exactly_once [OF run_reach_start [OF p(1)]] show ?thesis
    using run_reach_start [OF p(1)] by blast
qed

subsection \<open>Shutdown\<close>

lemma pool_joined:
  fixes p :: "'a thread_pool"
  assumes "pool_ok (p, acc)" and "length (tp_pool p) = n" and "0 < n" and "ThreadPool_join p = Some p'"
  shows "mset (tp_done p') = mset acc \<and> jq_container (tp_queue p') = [] \<and> tp_pool p' = []"
proof -
  have ex: "list_all (\<lambda>w. w = Exited) (tp_pool p)" and p': "p' = p\<lparr>tp_pool := []\<rparr>"
    using assms(4) by (auto simp: ThreadPool_join_def split: if_splits)
  with assms(2) have w: "tp_pool p = replicate n Exited"
    by (auto simp: list_all_iff intro!: replicate_eqI)
  have "sum_list (map running_job (replicate n (Exited :: 'a worker))) = {#}"
    by (induction n) simp_all
  then have "in_progress p = {#}" by (simp add: in_progress_def w)
  with assms w p' show ?thesis by (auto simp: pool_ok_def)
qed

text \<open>Shutdown loses nothing. Once \<^verbatim>\<open>shutdown\<close> has joined the workers of a started pool, every
  job ever accepted has been run, exactly once, and nothing is left in the queue.\<close>

theorem thread_pool_shutdown_runs_all:
  fixes p :: "'a thread_pool"
  assumes "reach pool_step (started pol m qs n, []) (p, acc)" and "0 < n"
    and "ThreadPool_join p = Some p'"
  shows "mset (tp_done p') = mset acc \<and> jq_container (tp_queue p') = [] \<and> tp_pool p' = []"
proof -
  have "pool_ok (p, acc)" using assms(1) pool_ok_started by (rule pool.reach_keeps)
  moreover have "length (tp_pool p) = n"
    using pool_length.reach_keeps [OF assms(1)] by (simp add: started_eq)
  ultimately show ?thesis using assms(2,3) by (rule pool_joined)
qed

theorem thread_pool_shutdown_runs_all_witness:
  "\<exists>p p'. reach pool_step (started Fifo zero_metrics 2 2, []) (p, [7, 8 :: nat])
     \<and> ThreadPool_join p = Some p' \<and> mset (tp_done p') = mset [7, 8]"
proof -
  let ?ms = "[Submit 7, Work 1, Submit 8, Stop, Submit 9, Work 0, Work 0, Work 0, Work 1, Work 0,
    Work 1, Work 1]"
  obtain p where p: "run pool_step ?ms (started Fifo zero_metrics 2 2, []) = Some (p, [7, 8 :: nat])"
      "tp_pool p = [Exited, Exited]"
    by (simp add: started_eq ThreadPool_init_def JobQueue_init_def ThreadPool_submit_def jq_op_defs
        ThreadPool_work_step_def ThreadPool_shutdown_begin_def numeral_2_eq_2)
  then have j: "ThreadPool_join p = Some (p\<lparr>tp_pool := []\<rparr>)" by (simp add: ThreadPool_join_def)
  note r = run_reach_start [OF p(1)]
  from thread_pool_shutdown_runs_all [OF r _ j] r j show ?thesis by auto
qed

text \<open>The weight bounds the worker steps that a stopped pool can still take.\<close>

fun weight :: "'a worker \<Rightarrow> nat" where
  "weight Popping = 2"
| "weight (Running x) = 3"
| "weight Leaving = 1"
| "weight Exited = 0"

definition remaining_steps :: "'a thread_pool \<Rightarrow> nat" where
  "remaining_steps p = 2 * length (jq_container (tp_queue p)) + sum_list (map weight (tp_pool p))"


lemma weight_update:
  "i < length (tp_pool p) \<Longrightarrow>
   sum_list (map weight ((tp_pool p)[i := w])) + weight (tp_pool p ! i)
     = sum_list (map weight (tp_pool p)) + weight w"
  by (rule sum_list_map_update)

interpretation drain: variant ThreadPool_work_step "\<lambda>p. jq_stop_flag (tp_queue p)"
    remaining_steps
proof unfold_locales
  fix p :: "'a thread_pool" and i t
  assume "jq_stop_flag (tp_queue p)" and "ThreadPool_work_step i p = Some t"
  then show "jq_stop_flag (tp_queue t)"
    by (auto elim!: ThreadPool_work_step_cases dest: JobQueue_pop_Some(2))
next
  fix p :: "'a thread_pool" and i t
  assume "jq_stop_flag (tp_queue p)" and "ThreadPool_work_step i p = Some t"
  from this(2) show "remaining_steps t < remaining_steps p"
  proof (cases rule: ThreadPool_work_step_cases)
    case (job x q g)
    with weight_update [OF job(1), of "Running x"] JobQueue_pop_Some(3) [OF job(3)]
    show ?thesis by (simp add: remaining_steps_def)
  next
    case closed
    with weight_update [OF closed(1), of Leaving] show ?thesis by (simp add: remaining_steps_def)
  next
    case (finished x)
    with weight_update [OF finished(1), of Popping] show ?thesis
      by (simp add: remaining_steps_def)
  next
    case left
    with weight_update [OF left(1), of Exited] show ?thesis by (simp add: remaining_steps_def)
  qed
qed

lemma stopped_pool_progress:
  assumes "jq_stop_flag (tp_queue p)" and "\<And>i. ThreadPool_work_step i p = None"
  shows "ThreadPool_join p = Some (p\<lparr>tp_pool := []\<rparr>)"
proof -
  have "tp_pool p ! i = Exited" if "i < length (tp_pool p)" for i
    using that assms(1) assms(2) [of i]
    by (cases "tp_pool p ! i")
      (auto simp: ThreadPool_work_step_def JobQueue_pop_def split: if_splits queue_type.splits)
  then show ?thesis by (auto simp: ThreadPool_join_def list_all_length)
qed

text \<open>C14: Shutdown terminates, if the job function does: after the queue is stopped the workers
  take at most \<open>2 * queued + 3 * workers\<close> further steps in any order, some worker can move as
  long as one has not exited, and when none can move the join returns.\<close>

theorem thread_pool_shutdown_terminates:
  assumes "p0 = ThreadPool_shutdown_begin p"
    and "run ThreadPool_work_step ms p0 = Some t"
  shows "length ms \<le> 2 * length (jq_container (tp_queue p)) + 3 * length (tp_pool p)
    \<and> ((\<forall>i. ThreadPool_work_step i t = None) \<longleftrightarrow> ThreadPool_join t \<noteq> None)"
proof
  have stop: "jq_stop_flag (tp_queue p0)"
    by (simp add: assms(1) ThreadPool_shutdown_begin_def JobQueue_shutdown_def)
  have "sum_list (map weight ws) \<le> 3 * length ws" for ws :: "'a worker list"
  proof (induction ws)
    case (Cons w ws)
    then show ?case by (cases w) auto
  qed simp
  then have "remaining_steps p0 \<le> 2 * length (jq_container (tp_queue p)) + 3 * length (tp_pool p)"
    by (auto simp: assms(1) remaining_steps_def ThreadPool_shutdown_begin_def
        JobQueue_shutdown_def)
  then show "length ms \<le> 2 * length (jq_container (tp_queue p)) + 3 * length (tp_pool p)"
    using drain.run_bounded [OF assms(2) stop] by simp
  have "jq_stop_flag (tp_queue t)" using assms(2) stop by (rule drain.run_keeps)
  then have "(\<forall>i. ThreadPool_work_step i t = None) \<Longrightarrow> ThreadPool_join t \<noteq> None"
    by (simp add: stopped_pool_progress)
  moreover have "ThreadPool_work_step i t = None" if "ThreadPool_join t \<noteq> None" for i
    using that by (auto simp: ThreadPool_join_def ThreadPool_work_step_def list_all_length
        split: if_splits)
  ultimately show "(\<forall>i. ThreadPool_work_step i t = None) \<longleftrightarrow> ThreadPool_join t \<noteq> None"
    by blast
qed

theorem thread_pool_shutdown_terminates_witness:
  "\<exists>t. run ThreadPool_work_step [0, 0, 0, 0]
         (ThreadPool_shutdown_begin ((started Fifo zero_metrics 2 1)
            \<lparr>tp_queue := (JobQueue_init Fifo zero_metrics 2)\<lparr>jq_container := [7 :: nat]\<rparr>\<rparr>)) = Some t
     \<and> length [0, 0, 0, 0] \<le> 2 * 1 + 3 * (1 :: nat) \<and> ThreadPool_join t \<noteq> None"
proof -
  let ?p = "(started Fifo zero_metrics 2 1)
      \<lparr>tp_queue := (JobQueue_init Fifo zero_metrics 2)\<lparr>jq_container := [7 :: nat]\<rparr>\<rparr>"
  obtain t where t: "run ThreadPool_work_step [0, 0, 0, 0] (ThreadPool_shutdown_begin ?p) = Some t"
      "tp_pool t = [Exited]"
    by (simp add: started_eq ThreadPool_init_def JobQueue_init_def jq_op_defs
        ThreadPool_work_step_def ThreadPool_shutdown_begin_def)
  have "ThreadPool_work_step i t = None" for i
    using t(2) by (auto simp: ThreadPool_work_step_def)
  with t(1) thread_pool_shutdown_terminates [OF refl t(1)] show ?thesis
    by (auto simp: started_eq ThreadPool_init_def)
qed

end
