(* ===== verification/Common_Types.thy ===== *)
theory Common_Types
  imports FS_Prelude
begin

section \<open>Shared data types (src/common)\<close>

text \<open>
  The enumerations and structures that the subsystems exchange. The numeric value of an
  enumerator is what \<^verbatim>\<open>static_cast\<close> yields; it is what the database stores and what indexes the
  name tables, so it is written out.
\<close>

subsection \<open>Request states\<close>

datatype request_state = PENDING | DROPPED | RUNNING | CANCELED | DONE | FAILED | DISPATCHING

fun request_state_code :: "request_state \<Rightarrow> nat" where
  "request_state_code PENDING = 0"
| "request_state_code DROPPED = 1"
| "request_state_code RUNNING = 2"
| "request_state_code CANCELED = 3"
| "request_state_code DONE = 4"
| "request_state_code FAILED = 5"
| "request_state_code DISPATCHING = 6"

datatype submit_scan_result =
  Ok | Invalid | QueueFull | ScanShutdown | InternalError | OverlapConflict

subsection \<open>Nodes and events\<close>

datatype node_type = UNKNOWN | DIR | FILE | LINK

fun node_type_code :: "node_type \<Rightarrow> nat" where
  "node_type_code UNKNOWN = 0"
| "node_type_code DIR = 1"
| "node_type_code FILE = 2"
| "node_type_code LINK = 3"

text \<open>\<^verbatim>\<open>std::error_code\<close>: the value 0 means no error.\<close>

record sentinel =
  is_sentinel :: bool
  is_canceled :: bool

definition Sentinel_init :: sentinel where
  "Sentinel_init = \<lparr>is_sentinel = False, is_canceled = False\<rparr>"

record file_event =
  fe_scan_id :: u64
  fe_modtime :: i64
  fe_size :: u64
  fe_err :: int
  fe_path :: string
  fe_node_type :: node_type
  fe_end_signal :: sentinel

datatype event_state = Alive | Error | Deleted | Event_Canceled

fun event_state_code :: "event_state \<Rightarrow> nat" where
  "event_state_code Alive = 0"
| "event_state_code Error = 1"
| "event_state_code Deleted = 2"
| "event_state_code Event_Canceled = 3"

datatype scan_state = New | Scan_Error | Scan_Deleted | Scan_Canceled | Changed

fun scan_state_code :: "scan_state \<Rightarrow> nat" where
  "scan_state_code New = 0"
| "scan_state_code Scan_Error = 1"
| "scan_state_code Scan_Deleted = 2"
| "scan_state_code Scan_Canceled = 3"
| "scan_state_code Changed = 4"

subsection \<open>Rows\<close>

record scan_task_row =
  st_scan_id :: u64
  st_start_time :: u64
  st_finish_time :: u64
  st_submit_root :: string
  st_end_state :: request_state

record delete_task =
  dt_scan_id :: u64
  dt_submit_root :: string
  dt_canceled :: bool

subsection \<open>Orders\<close>

text \<open>The enumerations are ordered by their numeric value.\<close>

instantiation request_state :: linorder
begin

definition less_eq_request_state :: "request_state \<Rightarrow> request_state \<Rightarrow> bool" where
  "a \<le> b \<longleftrightarrow> request_state_code a \<le> request_state_code b"

definition less_request_state :: "request_state \<Rightarrow> request_state \<Rightarrow> bool" where
  "a < b \<longleftrightarrow> request_state_code a < request_state_code b"

instance
proof
  fix a b :: request_state
  show "a \<le> b \<Longrightarrow> b \<le> a \<Longrightarrow> a = b"
    by (cases a; cases b) (simp_all add: less_eq_request_state_def)
qed (auto simp: less_eq_request_state_def less_request_state_def)

end

lemma request_state_code_inject: "request_state_code a = request_state_code b \<longleftrightarrow> a = b"
  by (cases a; cases b) simp_all

lemma request_state_code_less: "request_state_code a < 7"
  by (cases a) simp_all

end
