(* ===== verification/Formater.thy ===== *)
theory Formater
  imports Common_Types
begin

section \<open>formater (src/utils/formater.cpp) and its data (entry.h)\<close>

text \<open>
  The text helpers: the two checks of a path with \<^verbatim>\<open>lstat\<close>, the content of a JSON line from an index
  entry or an event, the names of node types and event states, the text of a time, and the test
  whether two scan roots overlap. \<^verbatim>\<open>lstat\<close>, the texts of error numbers and \<^verbatim>\<open>localtime_r\<close> with
  \<^verbatim>\<open>strftime\<close> are parameters. The scans use only the names and \<^verbatim>\<open>paths_overlap\<close>.
\<close>

subsection \<open>Checks of a path\<close>

datatype file_mode = Mode_dir | Mode_regular | Mode_other

text \<open>What \<^verbatim>\<open>lstat\<close> tells of a path: an error number or the kind of file. The second component of a
  result lists the lines for the error log.\<close>

definition validate_outdir ::
    "(string \<Rightarrow> int + file_mode) \<Rightarrow> (int \<Rightarrow> string \<Rightarrow> string) \<Rightarrow> string \<Rightarrow> bool \<times> string list" where
  "validate_outdir lstat system_error path =
     (if path = [] then (False, [''Error: directory is empty''])
      else case lstat path of
             Inl errno \<Rightarrow> (False, [system_error errno ''path not exsist''])
           | Inr mode \<Rightarrow> if mode \<noteq> Mode_dir then (False, [''Error: path is not directory'']) else (True, []))"

definition validate_outpath ::
    "(string \<Rightarrow> int + file_mode) \<Rightarrow> (int \<Rightarrow> string \<Rightarrow> string) \<Rightarrow> string \<Rightarrow> bool \<times> string list" where
  "validate_outpath lstat system_error path =
     (if path = [] then (False, [''Error: directory is empty''])
      else case lstat path of
             Inl errno \<Rightarrow> (False, [system_error errno ''path not exsist''])
           | Inr mode \<Rightarrow> if mode \<noteq> Mode_regular then (False, [''Error: path is not directory'']) else (True, []))"

lemma validate_outdir_iff:
  "validate_outdir lstat system_error path = (True, ls) \<longleftrightarrow> path \<noteq> [] \<and> lstat path = Inr Mode_dir \<and> ls = []"
  by (auto simp: validate_outdir_def split: sum.splits)

lemma validate_refusals:
  "fst (validate_outdir lstat system_error path) \<Longrightarrow> \<not> fst (validate_outpath lstat system_error path)"
  "length (snd (validate_outdir lstat system_error path)) = of_bool (\<not> fst (validate_outdir lstat system_error path))"
  by (auto simp: validate_outdir_def validate_outpath_def split: sum.splits if_splits)

subsection \<open>Entries and the content of a JSON line\<close>

record finger_print =
  fp_modtime :: i64
  fp_size :: u64

definition FingerPrint_match :: "finger_print \<Rightarrow> file_event \<Rightarrow> bool" where
  "FingerPrint_match fp event \<longleftrightarrow> fp_modtime fp = fe_modtime event \<and> fp_size fp = fe_size event"

definition FingerPrint_equal :: "finger_print \<Rightarrow> finger_print \<Rightarrow> bool" where
  "FingerPrint_equal fp another \<longleftrightarrow> fp_modtime fp = fp_modtime another \<and> fp_size fp = fp_size another"

record entry =
  en_node_type :: node_type
  en_fp :: finger_print

record json_content =
  jc_path :: string
  jc_node_type :: node_type
  jc_state :: event_state
  jc_err_msg :: string
  jc_size :: u64
  jc_time :: string

definition transform_entry :: "(i64 \<Rightarrow> string) \<Rightarrow> entry \<Rightarrow> string \<Rightarrow> event_state \<Rightarrow> json_content" where
  "transform_entry format_time e path state =
     \<lparr>jc_path = path, jc_node_type = en_node_type e, jc_state = state, jc_err_msg = [],
      jc_size = fp_size (en_fp e), jc_time = format_time (fp_modtime (en_fp e))\<rparr>"

definition transform_event ::
    "(int \<Rightarrow> string) \<Rightarrow> (i64 \<Rightarrow> string) \<Rightarrow> file_event \<Rightarrow> event_state \<Rightarrow> json_content" where
  "transform_event message format_time e state =
     \<lparr>jc_path = fe_path e, jc_node_type = fe_node_type e, jc_state = state,
      jc_err_msg = (if state = Error then message (fe_err e) else []),
      jc_size = fe_size e, jc_time = format_time (fe_modtime e)\<rparr>"

text \<open>The entry of an unchanged event gives the same line as the event, but for the error text.\<close>

lemma transform_agree:
  assumes "FingerPrint_match (en_fp x) e" and "en_node_type x = fe_node_type e"
  shows "transform_event message format_time e state
    = (transform_entry format_time x (fe_path e) state)\<lparr>jc_err_msg := if state = Error then message (fe_err e) else []\<rparr>"
  using assms by (simp add: FingerPrint_match_def transform_event_def transform_entry_def)

lemma FingerPrint_match_equal:
  "FingerPrint_match fp e \<Longrightarrow> FingerPrint_match gp e \<longleftrightarrow> FingerPrint_equal gp fp"
  by (auto simp: FingerPrint_match_def FingerPrint_equal_def)

subsection \<open>Names and overlapping roots\<close>

definition format_node :: "node_type \<Rightarrow> string" where
  "format_node t =
     (let type_names = [''unknown'', ''directory'', ''file'', ''link''];
          type_idx = node_type_code t
      in if type_idx < length type_names then type_names ! type_idx else [])"

definition format_state :: "event_state \<Rightarrow> string" where
  "format_state st =
     (let state_names = [''alive'', ''error'', ''deleted'', ''canceled''];
          state_idx = event_state_code st
      in if state_idx < length state_names then state_names ! state_idx else [])"

definition paths_overlap :: "string \<Rightarrow> string \<Rightarrow> bool" where
  "paths_overlap a b =
     (if a = b then True
      else substr a 0 (length b + 1) = b @ ''/'' \<or> substr b 0 (length a + 1) = a @ ''/'')"

text \<open>\<open>below r p\<close>: the path \<open>p\<close> is \<open>r\<close> itself or lies in the tree under \<open>r\<close>, by its text.\<close>

definition below :: "string \<Rightarrow> string \<Rightarrow> bool" where
  "below r p \<longleftrightarrow> p = r \<or> starts_with (r @ ''/'') p"

lemma below_refl [simp]: "below r r"
  by (simp add: below_def)

lemma below_iff: "below r p \<longleftrightarrow> p = r \<or> (\<exists>t. p = r @ CHR ''/'' # t)"
  by (auto simp: below_def starts_with_iff)

lemma below_trans: "below a b \<Longrightarrow> below b c \<Longrightarrow> below a c"
  by (auto simp: below_iff)

lemma paths_overlap_sym: "paths_overlap a b = paths_overlap b a"
  by (auto simp: paths_overlap_def)

lemma substr_prefix: "substr a 0 (length b + 1) = b @ ''/'' \<longleftrightarrow> (\<exists>t. a = b @ CHR ''/'' # t)"
proof
  assume "substr a 0 (length b + 1) = b @ ''/''"
  then have "a = (b @ ''/'') @ drop (length b + 1) a"
    unfolding substr_def by (metis append_take_drop_id drop_0)
  then show "\<exists>t. a = b @ CHR ''/'' # t" by auto
qed (auto simp: substr_def)

lemma paths_overlap_below: "paths_overlap a b \<longleftrightarrow> below a b \<or> below b a"
  unfolding paths_overlap_def substr_prefix below_iff by auto

text \<open>Two prefixes of one path, each ending at a component boundary, are nested.\<close>

lemma below_linear:
  assumes "below a p" and "below b p"
  shows "below a b \<or> below b a"
proof -
  have *: "below a b \<or> below b a"
    if "length a \<le> length b" "below a p" "below b p" for a b
  proof -
    from that(2) obtain u where u: "p = a @ u" "u = [] \<or> (\<exists>t. u = CHR ''/'' # t)"
      by (auto simp: below_iff)
    from that(3) obtain v where v: "p = b @ v" "v = [] \<or> (\<exists>t. v = CHR ''/'' # t)"
      by (auto simp: below_iff)
    from u(1) v(1) that(1) obtain w where w: "b = a @ w" "u = w @ v"
      by (auto simp: append_eq_append_conv2)
    show ?thesis
    proof (cases w)
      case Nil
      with w show ?thesis by simp
    next
      case (Cons c w')
      with w(2) u(2) have "c = CHR ''/''" by auto
      with Cons w(1) show ?thesis by (auto simp: below_iff)
    qed
  qed
  show ?thesis using * [of a b] * [of b a] assms by linarith
qed

lemma overlap_common: "below a p \<Longrightarrow> below b p \<Longrightarrow> paths_overlap a b"
  by (auto simp: paths_overlap_below dest: below_linear)


text \<open>The file-system root escapes the test: \<^verbatim>\<open>/\<close> overlaps, for \<^verbatim>\<open>paths_overlap\<close>, with no other
  normalized absolute path, although every such path lies under it. (A scan of \<^verbatim>\<open>/\<close> builds its
  paths as \<^verbatim>\<open>//bin\<close>, so \<^const>\<open>below\<close> with the root \<^verbatim>\<open>/\<close> is about those texts.)\<close>

theorem paths_overlap_misses_root:
  assumes "p = CHR ''/'' # c # cs" and "c \<noteq> CHR ''/''"
  shows "\<not> paths_overlap ''/'' p"
  using assms by (auto simp: paths_overlap_below below_iff)

theorem paths_overlap_misses_root_witness: "\<not> paths_overlap ''/'' ''/home''"
  using paths_overlap_misses_root [of "''/home''" "CHR ''h''" "''ome''"] by simp

end
