(* ===== verification/Scheduler.thy ===== *)
theory Scheduler
  imports Formater
begin

section \<open>Scheduler (src/daemon_system/scheduler.cpp, scheduler.h)\<close>

text \<open>
  The scheduler queues submitted scan roots, dispatches them to the manager one at a time and
  keeps the state of every scan. All of its members are critical sections of one mutex, called
  by the HTTP workers (\<^verbatim>\<open>submit_scan_root\<close>, \<^verbatim>\<open>cancel\<close>, \<^verbatim>\<open>get_state\<close>), by the dispatch thread
  (\<^verbatim>\<open>run\<close>), by the scan workers (the \<^verbatim>\<open>notify\<close> callbacks) and by the daemon (\<^verbatim>\<open>shutdown\<close>).
  This theory gives each section as a function on the scheduler's state; how the threads
  interleave is the subject of theory \<open>Dispatch_System\<close>.

  \<^verbatim>\<open>state_map\<close> is an association list with distinct keys, \<^verbatim>\<open>root_map\<close> a list without
  duplicates. The counters are C++ \<^verbatim>\<open>int\<close>s; they stay far from the bounds of that type.
\<close>

record pending_root =
  pr_scan_id :: u64
  pr_root :: string

record scheduler =
  MAX_CONCURRENT_SCAN :: nat
  QUEUE_MAX_SIZE :: nat
  sc_stop_flag :: bool
  running_scans :: int
  pending_scans :: int
  manager_queue_full :: bool
  state_map :: "(u64 \<times> request_state) list"
  root_map :: "string list"
  pending_queue :: "pending_root list"
  next_scan_id :: u64
  metric_scan_running :: int
  metric_scan_pending :: u64

text \<open>\<^verbatim>\<open>static_cast<int>\<close> of a \<^verbatim>\<open>size_t\<close>: the low 32 bits, read as a signed number.\<close>

definition static_cast_int :: "nat \<Rightarrow> int" where
  "static_cast_int n = sint (word_of_nat n :: i32)"

lemma static_cast_int_small: "n < 2 ^ 31 \<Longrightarrow> static_cast_int n = int n"
  by (simp add: static_cast_int_def sint_uint unsigned_of_nat take_bit_nat_eq_self
      signed_take_bit_eq_if_positive bit_iff_odd take_bit_int_eq_self)

text \<open>The constructor replaces a configured 0 by 1.\<close>

definition Scheduler_init :: "nat \<Rightarrow> nat \<Rightarrow> scheduler" where
  "Scheduler_init max_concurrent_scan queue_max_size =
     \<lparr>MAX_CONCURRENT_SCAN = (if max_concurrent_scan = 0 then 1 else max_concurrent_scan),
      QUEUE_MAX_SIZE = (if queue_max_size = 0 then 1 else queue_max_size),
      sc_stop_flag = False, running_scans = 0, pending_scans = 0, manager_queue_full = False,
      state_map = [], root_map = [], pending_queue = [], next_scan_id = 1,
      metric_scan_running = 0, metric_scan_pending = 0\<rparr>"

definition Scheduler_init_history_scan_id :: "u64 \<Rightarrow> scheduler \<Rightarrow> scheduler" where
  "Scheduler_init_history_scan_id max_scan_id s = s\<lparr>next_scan_id := max_scan_id + 1\<rparr>"

subsection \<open>Submission\<close>

text \<open>
  \<^verbatim>\<open>realpath\<close> is a library call on the file system, here a parameter; \<^term>\<open>None\<close> is an error, which
  \<^verbatim>\<open>normalize_path\<close> turns into the empty string.
\<close>

definition Scheduler_normalize_path :: "(string \<Rightarrow> string option) \<Rightarrow> string \<Rightarrow> string" where
  "Scheduler_normalize_path realpath path =
     (case realpath path of None \<Rightarrow> [] | Some absolute_path \<Rightarrow> absolute_path)"

definition Scheduler_gen_scan_id :: "scheduler \<Rightarrow> u64 \<times> scheduler" where
  "Scheduler_gen_scan_id s = (next_scan_id s, s\<lparr>next_scan_id := next_scan_id s + 1\<rparr>)"

definition Scheduler_check_non_overlap_path :: "string \<Rightarrow> scheduler \<Rightarrow> bool" where
  "Scheduler_check_non_overlap_path path s =
     (if path \<in> set (root_map s) then False
      else \<not> list_ex (\<lambda>it. paths_overlap path it) (root_map s))"

text \<open>The locked part of \<^verbatim>\<open>submit_scan_root\<close>, for an id drawn before.\<close>

definition Scheduler_submit_locked ::
    "u64 \<Rightarrow> string \<Rightarrow> scheduler \<Rightarrow> submit_scan_result \<times> scheduler" where
  "Scheduler_submit_locked new_id root_path s =
     (if sc_stop_flag s then (ScanShutdown, s)
      else if static_cast_int (QUEUE_MAX_SIZE s) \<le> pending_scans s then (QueueFull, s)
      else if \<not> Scheduler_check_non_overlap_path root_path s then (OverlapConflict, s)
      else if map_of (state_map s) new_id \<noteq> None then (InternalError, s)
      else (Ok, s\<lparr>state_map := (new_id, PENDING) # state_map s,
                  root_map := List.insert root_path (root_map s),
                  pending_queue := pending_queue s @ [\<lparr>pr_scan_id = new_id, pr_root = root_path\<rparr>],
                  metric_scan_pending := metric_scan_pending s + 1,
                  pending_scans := pending_scans s + 1\<rparr>))"

text \<open>The whole call, without interference: the result, the id reported (0 where none) and the
  new state.\<close>

definition Scheduler_submit_scan_root ::
    "(string \<Rightarrow> string option) \<Rightarrow> string \<Rightarrow> scheduler \<Rightarrow> submit_scan_result \<times> u64 \<times> scheduler" where
  "Scheduler_submit_scan_root realpath path s =
     (let root_path = Scheduler_normalize_path realpath path in
      if root_path = [] then (Invalid, 0, s)
      else (case Scheduler_gen_scan_id s of (new_id, s1) \<Rightarrow>
              (case Scheduler_submit_locked new_id root_path s1 of (r, s2) \<Rightarrow>
                 (r, if r = Ok then new_id else 0, s2))))"

subsection \<open>The dispatch loop\<close>

text \<open>
  Where the dispatch thread is: before the first section of the loop, past it with a scan to
  start, back from \<^verbatim>\<open>manager.start_new_scan\<close> with its answers, past the second section with a
  late cancellation to pass on, or gone.
\<close>

datatype run_pc =
    Run_top
  | Run_dispatch pending_root
  | Run_result pending_root bool bool
  | Run_late_cancel u64
  | Run_exited

definition sched_pop_front :: "u64 \<Rightarrow> scheduler \<Rightarrow> scheduler" where
  "sched_pop_front sid s = s\<lparr>pending_queue :=
     (if pending_queue s \<noteq> [] \<and> pr_scan_id (hd (pending_queue s)) = sid
      then tl (pending_queue s) else pending_queue s)\<rparr>"

definition sched_metric_pending_sub :: "scheduler \<Rightarrow> scheduler" where
  "sched_metric_pending_sub s =
     (if metric_scan_pending s \<noteq> 0 then s\<lparr>metric_scan_pending := metric_scan_pending s - 1\<rparr> else s)"

definition sched_set_state :: "u64 \<Rightarrow> request_state \<Rightarrow> scheduler \<Rightarrow> scheduler" where
  "sched_set_state sid st s = s\<lparr>state_map := AList.update sid st (state_map s)\<rparr>"

text \<open>The guard of the wait loop.\<close>

definition Scheduler_run_waits :: "scheduler \<Rightarrow> bool" where
  "Scheduler_run_waits s \<longleftrightarrow> \<not> sc_stop_flag s \<and>
     (pending_queue s = [] \<or> pending_scans s = 0 \<or> manager_queue_full s
      \<or> static_cast_int (MAX_CONCURRENT_SCAN s) \<le> running_scans s)"

definition Scheduler_run_pick :: "scheduler \<Rightarrow> (run_pc \<times> scheduler) option" where
  "Scheduler_run_pick s =
     (if Scheduler_run_waits s then None
      else if sc_stop_flag s then Some (Run_exited, s)
      else
        let data = hd (pending_queue s); it = map_of (state_map s) (pr_scan_id data) in
        if it = None \<or> it \<noteq> Some PENDING then
          (let s1 = sched_metric_pending_sub (sched_pop_front (pr_scan_id data) s) in
           Some (Run_top,
             if it \<noteq> None \<and> it \<noteq> Some DROPPED then s1\<lparr>pending_scans := pending_scans s1 - 1\<rparr>
             else s1))
        else Some (Run_dispatch data, sched_set_state (pr_scan_id data) DISPATCHING s))"

definition Scheduler_run_result ::
    "pending_root \<Rightarrow> bool \<Rightarrow> bool \<Rightarrow> scheduler \<Rightarrow> run_pc \<times> scheduler" where
  "Scheduler_run_result data manager_accept queue_full s =
     (let sid = pr_scan_id data;
          popped = (\<lambda>s. let s1 = sched_metric_pending_sub (sched_pop_front sid s)
                        in s1\<lparr>pending_scans := pending_scans s1 - 1\<rparr>);
          counted = (\<lambda>s. s\<lparr>running_scans := running_scans s + 1,
                           metric_scan_running := metric_scan_running s + 1\<rparr>)
      in case map_of (state_map s) sid of
           None \<Rightarrow> (Run_top, s)
         | Some st \<Rightarrow>
             (if st = CANCELED then
                (if manager_accept then (Run_late_cancel sid, counted (popped s))
                 else (Run_top, popped s))
              else if st = DISPATCHING then
                (if manager_accept
                 then (Run_top, popped (sched_set_state sid RUNNING (counted s)))
                 else if queue_full
                 then (Run_top, sched_set_state sid PENDING (s\<lparr>manager_queue_full := True\<rparr>))
                 else (Run_top, sched_set_state sid FAILED (popped s)))
              else (Run_top, s)))"

subsection \<open>Cancellation\<close>

text \<open>The section of \<^verbatim>\<open>cancel\<close>: the value to return, and whether \<^verbatim>\<open>manager.cancel_scan\<close> is called
  after it.\<close>

definition Scheduler_cancel :: "u64 \<Rightarrow> scheduler \<Rightarrow> bool \<times> bool \<times> scheduler" where
  "Scheduler_cancel scan_id s =
     (case map_of (state_map s) scan_id of
        None \<Rightarrow> (False, False, s)
      | Some st \<Rightarrow>
          (if st = DONE \<or> st = DROPPED \<or> st = FAILED \<or> st = CANCELED then (False, False, s)
           else if st = RUNNING \<or> st = DISPATCHING
           then (True, True, sched_set_state scan_id CANCELED s)
           else (True, False, (sched_set_state scan_id DROPPED s)
                                \<lparr>pending_scans := pending_scans s - 1\<rparr>)))"

subsection \<open>Callbacks of the manager\<close>

definition Scheduler_notify_scan_finished :: "u64 \<Rightarrow> scheduler \<Rightarrow> scheduler" where
  "Scheduler_notify_scan_finished scan_id s =
     (case map_of (state_map s) scan_id of
        None \<Rightarrow> s
      | Some st \<Rightarrow>
          (let s1 = (if st = RUNNING \<or> st = CANCELED
                     then s\<lparr>running_scans := running_scans s - 1,
                            metric_scan_running := metric_scan_running s - 1\<rparr> else s)
           in if st = RUNNING \<or> st = DISPATCHING then sched_set_state scan_id DONE s1 else s1))"

definition Scheduler_notify_dispatch_available :: "scheduler \<Rightarrow> scheduler" where
  "Scheduler_notify_dispatch_available s = s\<lparr>manager_queue_full := False\<rparr>"

definition Scheduler_notify_export_done :: "string \<Rightarrow> scheduler \<Rightarrow> scheduler" where
  "Scheduler_notify_export_done root s = s\<lparr>root_map := removeAll root (root_map s)\<rparr>"

subsection \<open>Shutdown and queries\<close>

text \<open>The section of \<^verbatim>\<open>shutdown\<close>, with the scans that may be running, which the caller then
  cancels and waits for. (\<^verbatim>\<open>state_map[id]\<close> makes an entry \<^const>\<open>PENDING\<close>, the value 0, where there
  is none, and the assignment then drops it.)\<close>

definition Scheduler_shutdown :: "scheduler \<Rightarrow> u64 list \<times> scheduler" where
  "Scheduler_shutdown s =
     (let maybe_running = (\<lambda>st. st = RUNNING \<or> st = DISPATCHING \<or> st = CANCELED);
          m1 = map (\<lambda>(sid, st). (sid, if maybe_running st then CANCELED else st)) (state_map s);
          m2 = foldl (\<lambda>m d. if map_of m (pr_scan_id d) = None \<or> map_of m (pr_scan_id d) = Some PENDING
                            then AList.update (pr_scan_id d) DROPPED m else m)
                 m1 (pending_queue s)
      in (map fst (filter (\<lambda>(sid, st). maybe_running st) (state_map s)),
          s\<lparr>sc_stop_flag := True, state_map := m2, pending_queue := [],
            metric_scan_pending := 0, pending_scans := 0\<rparr>))"

definition Scheduler_get_state :: "u64 list \<Rightarrow> scheduler \<Rightarrow> request_state list" where
  "Scheduler_get_state scan_ids s =
     map (\<lambda>sid. case map_of (state_map s) sid of
                 None \<Rightarrow> FAILED
               | Some st \<Rightarrow> (if st = DISPATCHING then PENDING else st)) scan_ids"

lemmas scheduler_defs = Scheduler_submit_locked_def Scheduler_run_pick_def
  Scheduler_run_result_def Scheduler_cancel_def Scheduler_notify_scan_finished_def
  Scheduler_notify_dispatch_available_def Scheduler_notify_export_done_def
  sched_pop_front_def sched_metric_pending_sub_def sched_set_state_def

end
