(* ===== verification/Dispatch_System.thy ===== *)
theory Dispatch_System
  imports Scheduler Transitions
begin

section \<open>The dispatch system: scheduler, dispatch thread, manager callbacks\<close>

text \<open>
  The scheduler's sections interleaved. What the scheduler needs of the manager is kept
  abstract: the scans it has accepted and not finished (\<open>ds_live\<close>), those whose results are
  still being exported (\<open>ds_exporting\<close>), the flag \<^verbatim>\<open>dispatch_failed\<close>, and whether the scan pool
  has been stopped. A move is one section of one thread:

  \<^item> \<open>Gen\<close>, \<open>Enqueue\<close>: \<^verbatim>\<open>submit_scan_root\<close> draws an id, then takes the lock;
  \<^item> \<open>Cancel\<close>: \<^verbatim>\<open>cancel\<close>; \<open>Shutdown_scheduler\<close>, \<open>Stop_pool\<close>: the two halves of \<^verbatim>\<open>shutdown\<close>;
  \<^item> \<open>Pick\<close>, then \<open>Accept\<close>, \<open>Reject_full\<close> or \<open>Refuse\<close>, then \<open>Return\<close> and \<open>Late_cancel\<close>: a turn
    of \<^verbatim>\<open>run\<close>, with \<^verbatim>\<open>manager.start_new_scan\<close> between its sections (\<open>Refuse\<close>: the pool was
    stopped, and \<^verbatim>\<open>task_on_job_finish\<close> has called back before \<^verbatim>\<open>start_new_scan\<close> returns);
  \<^item> \<open>Finish\<close>: the last job of a scan calls \<^verbatim>\<open>notify_scan_finished\<close>;
  \<^item> \<open>Job_past\<close>: a job that is not the last one of its scan has decremented the counter of the scan;
  \<^item> \<open>Job_end\<close>: a job's end reaches \<^verbatim>\<open>dispatch_failed.exchange(false)\<close> (\<open>ds_tails\<close> counts the jobs between
    their decrement and this point; the scan may have finished meanwhile), and, if the flag was
    set, \<open>Available\<close>: \<^verbatim>\<open>notify_dispatch_available\<close>;
  \<^item> \<open>Export_done\<close>: the export thread calls \<^verbatim>\<open>notify_export_done\<close>.
\<close>

record dispatch_system =
  ds_sched :: scheduler
  ds_run :: run_pc
  ds_live :: "(u64 \<times> string) list"
  ds_exporting :: "(u64 \<times> string) list"
  ds_inflight :: "(u64 \<times> string) list"
  ds_dispatch_failed :: bool
  ds_tails :: nat
  ds_notifying :: nat
  ds_pool_stopped :: bool

definition ds_init :: "scheduler \<Rightarrow> dispatch_system" where
  "ds_init s = \<lparr>ds_sched = s, ds_run = Run_top, ds_live = [], ds_exporting = [],
     ds_inflight = [], ds_dispatch_failed = False, ds_tails = 0, ds_notifying = 0,
     ds_pool_stopped = False\<rparr>"

datatype dispatch_move =
    Gen string
  | Enqueue u64 string
  | Cancel u64
  | Shutdown_scheduler
  | Stop_pool
  | Pick
  | Accept
  | Reject_full
  | Refuse
  | Return
  | Late_cancel
  | Finish u64 string
  | Job_past
  | Job_end
  | Available
  | Export_done u64 string

definition ds_exchange :: "dispatch_system \<Rightarrow> dispatch_system" where
  "ds_exchange s = (if ds_dispatch_failed s
     then s\<lparr>ds_dispatch_failed := False, ds_notifying := Suc (ds_notifying s)\<rparr> else s)"

fun ds_step :: "dispatch_move \<Rightarrow> dispatch_system \<Rightarrow> dispatch_system option" where
  "ds_step (Gen root) s =
     (if root = [] then None
      else case Scheduler_gen_scan_id (ds_sched s) of (i, sc) \<Rightarrow>
        Some (s\<lparr>ds_sched := sc, ds_inflight := (i, root) # ds_inflight s\<rparr>))"
| "ds_step (Enqueue i root) s =
     (if (i, root) \<in> set (ds_inflight s) then
        Some (s\<lparr>ds_sched := snd (Scheduler_submit_locked i root (ds_sched s)),
                ds_inflight := remove1 (i, root) (ds_inflight s)\<rparr>)
      else None)"
| "ds_step (Cancel i) s = Some (s\<lparr>ds_sched := snd (snd (Scheduler_cancel i (ds_sched s)))\<rparr>)"
| "ds_step Shutdown_scheduler s = Some (s\<lparr>ds_sched := snd (Scheduler_shutdown (ds_sched s))\<rparr>)"
| "ds_step Stop_pool s =
     (if sc_stop_flag (ds_sched s) then Some (s\<lparr>ds_pool_stopped := True\<rparr>) else None)"
| "ds_step Pick s =
     (if ds_run s = Run_top then
        (case Scheduler_run_pick (ds_sched s) of
           None \<Rightarrow> None
         | Some (pc, sc) \<Rightarrow> Some (s\<lparr>ds_sched := sc, ds_run := pc\<rparr>))
      else None)"
| "ds_step Accept s =
     (case ds_run s of
        Run_dispatch d \<Rightarrow>
          (if ds_pool_stopped s then None
           else Some (s\<lparr>ds_run := Run_result d True False,
                        ds_live := (pr_scan_id d, pr_root d) # ds_live s\<rparr>))
      | _ \<Rightarrow> None)"
| "ds_step Reject_full s =
     (case ds_run s of
        Run_dispatch d \<Rightarrow>
          (if ds_pool_stopped s then None
           else Some (s\<lparr>ds_run := Run_result d False True, ds_dispatch_failed := True\<rparr>))
      | _ \<Rightarrow> None)"
| "ds_step Refuse s =
     (case ds_run s of
        Run_dispatch d \<Rightarrow>
          (if ds_pool_stopped s
           then Some (s\<lparr>ds_run := Run_result d False False,
                        ds_sched := Scheduler_notify_scan_finished (pr_scan_id d) (ds_sched s),
                        ds_exporting := (pr_scan_id d, pr_root d) # ds_exporting s,
                        ds_tails := Suc (ds_tails s)\<rparr>)
           else None)
      | _ \<Rightarrow> None)"
| "ds_step Return s =
     (case ds_run s of
        Run_result d acc full \<Rightarrow>
          (case Scheduler_run_result d acc full (ds_sched s) of (pc, sc) \<Rightarrow>
             Some (s\<lparr>ds_sched := sc, ds_run := pc\<rparr>))
      | _ \<Rightarrow> None)"
| "ds_step Late_cancel s =
     (case ds_run s of Run_late_cancel i \<Rightarrow> Some (s\<lparr>ds_run := Run_top\<rparr>) | _ \<Rightarrow> None)"
| "ds_step (Finish i root) s =
     (if (i, root) \<in> set (ds_live s) then
        Some (s\<lparr>ds_sched := Scheduler_notify_scan_finished i (ds_sched s),
                ds_live := remove1 (i, root) (ds_live s),
                ds_exporting := (i, root) # ds_exporting s, ds_tails := Suc (ds_tails s)\<rparr>)
      else None)"
| "ds_step Job_past s = (if ds_live s = [] then None else Some (s\<lparr>ds_tails := Suc (ds_tails s)\<rparr>))"
| "ds_step Job_end s =
     (if ds_tails s = 0 then None else Some (ds_exchange (s\<lparr>ds_tails := ds_tails s - 1\<rparr>)))"
| "ds_step Available s =
     (if ds_notifying s = 0 then None
      else Some (s\<lparr>ds_sched := Scheduler_notify_dispatch_available (ds_sched s),
                   ds_notifying := ds_notifying s - 1\<rparr>))"
| "ds_step (Export_done i root) s =
     (if (i, root) \<in> set (ds_exporting s) then
        Some (s\<lparr>ds_sched := Scheduler_notify_export_done root (ds_sched s),
                ds_exporting := remove1 (i, root) (ds_exporting s)\<rparr>)
      else None)"

subsection \<open>Frame lemmas of the sections\<close>

abbreviation scan_state_of :: "scheduler \<Rightarrow> u64 \<Rightarrow> request_state option" where
  "scan_state_of s \<equiv> map_of (state_map s)"

lemma sched_set_state_simps [simp]:
  "scan_state_of (sched_set_state i st s) = (scan_state_of s)(i \<mapsto> st)"
  "pending_queue (sched_set_state i st s) = pending_queue s"
  "pending_scans (sched_set_state i st s) = pending_scans s"
  "running_scans (sched_set_state i st s) = running_scans s"
  "root_map (sched_set_state i st s) = root_map s"
  "sc_stop_flag (sched_set_state i st s) = sc_stop_flag s"
  "manager_queue_full (sched_set_state i st s) = manager_queue_full s"
  "metric_scan_running (sched_set_state i st s) = metric_scan_running s"
  "metric_scan_pending (sched_set_state i st s) = metric_scan_pending s"
  "MAX_CONCURRENT_SCAN (sched_set_state i st s) = MAX_CONCURRENT_SCAN s"
  "QUEUE_MAX_SIZE (sched_set_state i st s) = QUEUE_MAX_SIZE s"
  "next_scan_id (sched_set_state i st s) = next_scan_id s"
  by (simp_all add: sched_set_state_def update_conv')

lemma sched_pop_simps [simp]:
  "state_map (sched_metric_pending_sub (sched_pop_front i s)) = state_map s"
  "pending_scans (sched_metric_pending_sub (sched_pop_front i s)) = pending_scans s"
  "running_scans (sched_metric_pending_sub (sched_pop_front i s)) = running_scans s"
  "root_map (sched_metric_pending_sub (sched_pop_front i s)) = root_map s"
  "sc_stop_flag (sched_metric_pending_sub (sched_pop_front i s)) = sc_stop_flag s"
  "manager_queue_full (sched_metric_pending_sub (sched_pop_front i s)) = manager_queue_full s"
  "metric_scan_running (sched_metric_pending_sub (sched_pop_front i s)) = metric_scan_running s"
  "MAX_CONCURRENT_SCAN (sched_metric_pending_sub (sched_pop_front i s)) = MAX_CONCURRENT_SCAN s"
  "QUEUE_MAX_SIZE (sched_metric_pending_sub (sched_pop_front i s)) = QUEUE_MAX_SIZE s"
  "next_scan_id (sched_metric_pending_sub (sched_pop_front i s)) = next_scan_id s"
  "pending_queue (sched_metric_pending_sub (sched_pop_front i s)) =
     (if pending_queue s \<noteq> [] \<and> pr_scan_id (hd (pending_queue s)) = i
      then tl (pending_queue s) else pending_queue s)"
  "metric_scan_pending (sched_metric_pending_sub (sched_pop_front i s)) =
     (if metric_scan_pending s = 0 then 0 else metric_scan_pending s - 1)"
  by (simp_all add: sched_metric_pending_sub_def sched_pop_front_def)

lemma distinct_keys_update [simp]:
  "distinct (map fst m) \<Longrightarrow> distinct (map fst (AList.update k v m))"
  by (rule distinct_update)

text \<open>\<^verbatim>\<open>shutdown\<close>, by its effect on the state of one scan.\<close>

lemma shutdown_fold:
  "map_of (foldl (\<lambda>m d. if map_of m (pr_scan_id d) = None \<or> map_of m (pr_scan_id d) = Some PENDING
                        then AList.update (pr_scan_id d) DROPPED m else m) m q) i =
     (if i \<in> pr_scan_id ` set q \<and> (map_of m i = None \<or> map_of m i = Some PENDING)
      then Some DROPPED else map_of m i)"
proof (induction q arbitrary: m)
  case Nil
  then show ?case by simp
next
  case (Cons d q)
  show ?case by (auto simp: Cons.IH update_conv')
qed

lemma scan_state_shutdown:
  "scan_state_of (snd (Scheduler_shutdown s)) i =
     (case scan_state_of s i of
        None \<Rightarrow> if i \<in> pr_scan_id ` set (pending_queue s) then Some DROPPED else None
      | Some st \<Rightarrow>
          if st = RUNNING \<or> st = DISPATCHING \<or> st = CANCELED then Some CANCELED
          else if st = PENDING \<and> i \<in> pr_scan_id ` set (pending_queue s) then Some DROPPED
          else Some st)"
  by (auto simp: Scheduler_shutdown_def Let_def shutdown_fold map_of_map_value split: option.splits)

lemma shutdown_simps [simp]:
  "sc_stop_flag (snd (Scheduler_shutdown s))"
  "pending_queue (snd (Scheduler_shutdown s)) = []"
  "pending_scans (snd (Scheduler_shutdown s)) = 0"
  "root_map (snd (Scheduler_shutdown s)) = root_map s"
  "running_scans (snd (Scheduler_shutdown s)) = running_scans s"
  "metric_scan_running (snd (Scheduler_shutdown s)) = metric_scan_running s"
  "metric_scan_pending (snd (Scheduler_shutdown s)) = 0"
  "manager_queue_full (snd (Scheduler_shutdown s)) = manager_queue_full s"
  "MAX_CONCURRENT_SCAN (snd (Scheduler_shutdown s)) = MAX_CONCURRENT_SCAN s"
  "QUEUE_MAX_SIZE (snd (Scheduler_shutdown s)) = QUEUE_MAX_SIZE s"
  "next_scan_id (snd (Scheduler_shutdown s)) = next_scan_id s"
  by (simp_all add: Scheduler_shutdown_def Let_def)

subsection \<open>The life of a request\<close>

text \<open>The transitions of a request's state, as \<^verbatim>\<open>request_state.h\<close> lists them, and two more that the
  code makes: a full manager queue puts a dispatched scan back, and a scan may finish before
  its dispatch is recorded.\<close>

fun legal_transition :: "request_state \<Rightarrow> request_state \<Rightarrow> bool" where
  "legal_transition PENDING b = (b \<in> {PENDING, DROPPED, DISPATCHING})"
| "legal_transition DISPATCHING b = (b \<in> {DISPATCHING, RUNNING, CANCELED, FAILED, PENDING, DONE})"
| "legal_transition RUNNING b = (b \<in> {RUNNING, DONE, CANCELED})"
| "legal_transition a b = (a = b)"

end
