(* ===== verification/Dispatch_Invariant.thy ===== *)
theory Dispatch_Invariant
  imports Dispatch_System
begin

section \<open>What the interleaved dispatch system keeps\<close>

subsection \<open>The invariant\<close>

fun ds_current :: "run_pc \<Rightarrow> u64 option" where
  "ds_current (Run_dispatch d) = Some (pr_scan_id d)"
| "ds_current (Run_result d acc full) = Some (pr_scan_id d)"
| "ds_current _ = None"

text \<open>A scan accepted by the manager but not yet counted by the second section of \<^verbatim>\<open>run\<close>.\<close>

fun ds_uncounted :: "run_pc \<Rightarrow> (u64 \<Rightarrow> request_state option) \<Rightarrow> bool" where
  "ds_uncounted (Run_result d True full) M = (M (pr_scan_id d) \<noteq> Some DONE)"
| "ds_uncounted _ M = False"

fun ds_dispatching :: "run_pc \<Rightarrow> bool" where
  "ds_dispatching (Run_dispatch d) = True"
| "ds_dispatching _ = False"

text \<open>The states a scan may have, by whether it is queued, with the manager, or the one being
  dispatched.\<close>

fun st_ok :: "request_state option \<Rightarrow> bool \<Rightarrow> bool \<Rightarrow> bool \<Rightarrow> bool" where
  "st_ok None queued live current = (\<not> queued \<and> \<not> live \<and> \<not> current)"
| "st_ok (Some PENDING) queued live current = (queued \<and> \<not> live \<and> \<not> current)"
| "st_ok (Some DROPPED) queued live current = (\<not> live \<and> \<not> current)"
| "st_ok (Some RUNNING) queued live current = (\<not> queued \<and> live \<and> \<not> current)"
| "st_ok (Some CANCELED) queued live current = (queued = current)"
| "st_ok (Some DONE) queued live current = (\<not> live \<and> (current \<longrightarrow> queued))"
| "st_ok (Some FAILED) queued live current = (\<not> queued \<and> \<not> live \<and> \<not> current)"
| "st_ok (Some DISPATCHING) queued live current = (queued \<and> current)"

text \<open>What the dispatch thread's place says of its scan: it heads the queue, and it is with the
  manager only if accepted.\<close>

fun pc_ok ::
    "run_pc \<Rightarrow> (u64 \<Rightarrow> request_state option) \<Rightarrow> u64 set \<Rightarrow> pending_root list \<Rightarrow> bool" where
  "pc_ok (Run_dispatch d) M L q =
     (q \<noteq> [] \<and> hd q = d \<and> pr_scan_id d \<notin> L \<and> M (pr_scan_id d) \<noteq> Some DONE)"
| "pc_ok (Run_result d True full) M L q =
     (q \<noteq> [] \<and> hd q = d \<and> (M (pr_scan_id d) = Some DISPATCHING \<longrightarrow> pr_scan_id d \<in> L))"
| "pc_ok (Run_result d False full) M L q =
     (q \<noteq> [] \<and> hd q = d \<and> full \<and> pr_scan_id d \<notin> L \<and> M (pr_scan_id d) \<noteq> Some DONE)"
| "pc_ok _ M L q = True"

definition undropped :: "(u64 \<Rightarrow> request_state option) \<Rightarrow> pending_root list \<Rightarrow> int" where
  "undropped M q = cnt (\<lambda>d. M (pr_scan_id d) \<noteq> Some DROPPED) q"

text \<open>The scheduler's tables before a shutdown: the states \<open>M\<close>, the queue \<open>q\<close>, the two counters,
  the dispatch thread's place \<open>pc\<close> and the manager's scans \<open>L\<close>.\<close>

definition core_ok ::
    "(u64 \<Rightarrow> request_state option) \<Rightarrow> pending_root list \<Rightarrow> int \<Rightarrow> int \<Rightarrow> run_pc
     \<Rightarrow> (u64 \<times> string) list \<Rightarrow> bool" where
  "core_ok M q running pending pc L \<longleftrightarrow>
     distinct (map pr_scan_id q) \<and> distinct (map fst L)
     \<and> (\<forall>i. st_ok (M i) (i \<in> pr_scan_id ` set q) (i \<in> fst ` set L) (ds_current pc = Some i))
     \<and> pc_ok pc M (fst ` set L) q
     \<and> running = int (length L) - of_bool (ds_uncounted pc M)
     \<and> pending = undropped M q"

definition ds_core :: "dispatch_system \<Rightarrow> bool" where
  "ds_core s \<longleftrightarrow> \<not> ds_pool_stopped s
     \<and> core_ok (scan_state_of (ds_sched s)) (pending_queue (ds_sched s))
         (running_scans (ds_sched s)) (pending_scans (ds_sched s)) (ds_run s) (ds_live s)"

text \<open>After a shutdown nothing is queued, running or dispatching.\<close>

definition ds_stopped :: "scheduler \<Rightarrow> bool" where
  "ds_stopped sc \<longleftrightarrow> pending_queue sc = []
     \<and> (\<forall>i. scan_state_of sc i \<notin> {Some PENDING, Some DISPATCHING, Some RUNNING})"

definition ds_bound :: "dispatch_system \<Rightarrow> bool" where
  "ds_bound s \<longleftrightarrow>
     int (length (ds_live s)) + of_bool (ds_dispatching (ds_run s))
       \<le> int (MAX_CONCURRENT_SCAN (ds_sched s))
     \<and> MAX_CONCURRENT_SCAN (ds_sched s) < 2 ^ 31"

definition ds_inv :: "dispatch_system \<Rightarrow> bool" where
  "ds_inv s \<longleftrightarrow> ds_bound s
     \<and> metric_scan_running (ds_sched s) = running_scans (ds_sched s)
     \<and> (if sc_stop_flag (ds_sched s) then ds_stopped (ds_sched s) else ds_core s)"

subsection \<open>Helpers\<close>

lemma undropped_simps [simp]:
  "undropped M [] = 0"
  "undropped M (d # q) = of_bool (M (pr_scan_id d) \<noteq> Some DROPPED) + undropped M q"
  "undropped M (p @ q) = undropped M p + undropped M q"
  by (simp_all add: undropped_def)

text \<open>With distinct ids, one id's state decides one entry of the queue.\<close>

lemma undropped_fresh [simp]:
  "i \<notin> pr_scan_id ` set q \<Longrightarrow> undropped (M(i := x)) q = undropped M q"
  unfolding undropped_def by (intro cnt_cong) auto

lemma undropped_change:
  "x \<noteq> Some DROPPED \<Longrightarrow> M i \<noteq> Some DROPPED \<Longrightarrow> undropped (M(i := x)) q = undropped M q"
  unfolding undropped_def by (intro cnt_cong) auto

lemma undropped_cancel:
  "distinct (map pr_scan_id q) \<Longrightarrow> i \<in> pr_scan_id ` set q \<Longrightarrow> M i \<noteq> Some DROPPED \<Longrightarrow>
   undropped (M(i \<mapsto> DROPPED)) q = undropped M q - 1"
proof (induction q)
  case Nil
  then show ?case by simp
next
  case (Cons d q)
  show ?case
  proof (cases "pr_scan_id d = i")
    case True
    with Cons.prems have "undropped (M(i \<mapsto> DROPPED)) q = undropped M q"
      by (intro undropped_fresh) auto
    then show ?thesis unfolding undropped_simps True using Cons.prems by (simp del: fun_upd_apply) simp
  next
    case False
    with Cons show ?thesis by simp
  qed
qed

lemma distinct_fst_remove1: "distinct (map fst xs) \<Longrightarrow> distinct (map fst (remove1 x xs))"
proof (induction xs)
  case Nil
  then show ?case by simp
next
  case (Cons a xs)
  have "fst ` set (remove1 x xs) \<subseteq> fst ` set xs"
    by (rule image_mono) (rule set_remove1_subset)
  with Cons show ?case by auto
qed

lemma fst_remove1:
  "distinct (map fst xs) \<Longrightarrow> (i, r) \<in> set xs \<Longrightarrow> fst ` set (remove1 (i, r) xs) = fst ` set xs - {i}"
  by (induction xs) force+

lemma length_remove1_mem: "x \<in> set xs \<Longrightarrow> int (length (remove1 x xs)) = int (length xs) - 1"
  by (induction xs) auto

lemma pc_ok_other: "ds_current pc \<noteq> Some i \<Longrightarrow> pc_ok pc (M(i := x)) L q = pc_ok pc M L q"
  by (cases "(pc, M, L, q)" rule: pc_ok.cases) auto

lemma uncounted_other:
  "ds_current pc \<noteq> Some i \<Longrightarrow> ds_uncounted pc (M(i := x)) = ds_uncounted pc M"
  by (cases "(pc, M)" rule: ds_uncounted.cases) auto

lemma pc_ok_append: "pc_ok pc M L q \<Longrightarrow> pc_ok pc M L (q @ r)"
  by (cases "(pc, M, L, q)" rule: pc_ok.cases) auto

lemma core_st:
  "core_ok M q rs ps pc L \<Longrightarrow>
   st_ok (M i) (i \<in> pr_scan_id ` set q) (i \<in> fst ` set L) (ds_current pc = Some i)"
  by (simp add: core_ok_def)

lemma core_facts:
  "core_ok M q rs ps pc L \<Longrightarrow> distinct (map pr_scan_id q) \<and> distinct (map fst L)
    \<and> pc_ok pc M (fst ` set L) q \<and> rs = int (length L) - of_bool (ds_uncounted pc M)
    \<and> ps = undropped M q"
  by (simp add: core_ok_def)

text \<open>A change of one scan's state.\<close>

lemma core_update:
  assumes "core_ok M q rs ps pc L"
    and "st_ok x (i \<in> pr_scan_id ` set q') (i \<in> fst ` set L') (ds_current pc' = Some i)"
    and "\<And>j. j \<noteq> i \<Longrightarrow> (j \<in> pr_scan_id ` set q') = (j \<in> pr_scan_id ` set q)"
    and "\<And>j. j \<noteq> i \<Longrightarrow> (j \<in> fst ` set L') = (j \<in> fst ` set L)"
    and "\<And>j. j \<noteq> i \<Longrightarrow> (ds_current pc' = Some j) = (ds_current pc = Some j)"
    and "distinct (map pr_scan_id q')" "distinct (map fst L')"
    and "pc_ok pc' (M(i := x)) (fst ` set L') q'"
    and "rs' = int (length L') - of_bool (ds_uncounted pc' (M(i := x)))"
    and "ps' = undropped (M(i := x)) q'"
  shows "core_ok (M(i := x)) q' rs' ps' pc' L'"
proof -
  have "st_ok ((M(i := x)) j) (j \<in> pr_scan_id ` set q') (j \<in> fst ` set L') (ds_current pc' = Some j)"
    for j
    using core_st [OF assms(1), of j] assms(2-5) by (cases "j = i") simp_all
  with assms(6-) show ?thesis by (simp add: core_ok_def)
qed

text \<open>The same where the state stays.\<close>

lemma core_moved:
  assumes "core_ok M q rs ps pc L"
    and "st_ok (M i) (i \<in> pr_scan_id ` set q') (i \<in> fst ` set L') (ds_current pc' = Some i)"
    and "\<And>j. j \<noteq> i \<Longrightarrow> (j \<in> pr_scan_id ` set q') = (j \<in> pr_scan_id ` set q)"
    and "\<And>j. j \<noteq> i \<Longrightarrow> (j \<in> fst ` set L') = (j \<in> fst ` set L)"
    and "\<And>j. j \<noteq> i \<Longrightarrow> (ds_current pc' = Some j) = (ds_current pc = Some j)"
    and "distinct (map pr_scan_id q')" "distinct (map fst L')"
    and "pc_ok pc' M (fst ` set L') q'"
    and "rs' = int (length L') - of_bool (ds_uncounted pc' M)" and "ps' = undropped M q'"
  shows "core_ok M q' rs' ps' pc' L'"
  by (rule core_update [of M q rs ps pc L "M i" i, unfolded fun_upd_triv, OF assms])

subsection \<open>The tables under each change\<close>

lemma core_enqueue:
  assumes c: "core_ok M q rs ps pc L" and i: "M i = None"
  shows "core_ok (M(i \<mapsto> PENDING)) (q @ [\<lparr>pr_scan_id = i, pr_root = root\<rparr>]) rs (ps + 1) pc L"
proof -
  have st: "i \<notin> pr_scan_id ` set q" "i \<notin> fst ` set L" "ds_current pc \<noteq> Some i"
    using core_st [OF c, of i] i by simp_all
  show ?thesis
    by (rule core_update [OF c])
      (use c st in \<open>auto simp: core_ok_def pc_ok_other uncounted_other pc_ok_append\<close>)
qed

lemma core_cancel_pending:
  assumes c: "core_ok M q rs ps pc L" and i: "M i = Some PENDING"
  shows "core_ok (M(i \<mapsto> DROPPED)) q rs (ps - 1) pc L"
proof -
  have st: "i \<in> pr_scan_id ` set q" "i \<notin> fst ` set L" "ds_current pc \<noteq> Some i"
    using core_st [OF c, of i] i by simp_all
  show ?thesis
    by (rule core_update [OF c])
      (use c st i in \<open>simp_all add: core_ok_def pc_ok_other uncounted_other undropped_cancel\<close>)
qed

lemma core_cancel_running:
  assumes c: "core_ok M q rs ps pc L" and i: "M i = Some RUNNING \<or> M i = Some DISPATCHING"
  shows "core_ok (M(i \<mapsto> CANCELED)) q rs ps pc L"
proof -
  have st: "(i \<in> pr_scan_id ` set q) = (ds_current pc = Some i)"
    using core_st [OF c, of i] i by auto
  have "pc_ok pc (M(i \<mapsto> CANCELED)) (fst ` set L) q"
    "ds_uncounted pc (M(i \<mapsto> CANCELED)) = ds_uncounted pc M"
    using c i by (cases "(pc, M, fst ` set L, q)" rule: pc_ok.cases; auto simp: core_ok_def)+
  then show ?thesis
    by - (rule core_update [OF c], use c st i in \<open>auto simp: core_ok_def undropped_change\<close>)
qed

lemma core_pick_skip:
  assumes c: "core_ok M (d # q) rs ps Run_top L" and d: "M (pr_scan_id d) \<noteq> Some PENDING"
  shows "core_ok M q rs (ps - of_bool (M (pr_scan_id d) \<noteq> Some DROPPED)) Run_top L"
proof -
  have "M (pr_scan_id d) = Some DROPPED \<or> M (pr_scan_id d) = Some DONE"
    using core_st [OF c, of "pr_scan_id d"] d
    by (cases "M (pr_scan_id d)"; cases "the (M (pr_scan_id d))") auto
  then show ?thesis
    by - (rule core_moved [OF c, of "pr_scan_id d"], use core_facts [OF c] core_st [OF c, of "pr_scan_id d"] in auto)
qed

lemma core_pick_dispatch:
  assumes c: "core_ok M (d # q) rs ps Run_top L" and d: "M (pr_scan_id d) = Some PENDING"
  shows "core_ok (M(pr_scan_id d \<mapsto> DISPATCHING)) (d # q) rs ps (Run_dispatch d) L"
proof -
  have "pr_scan_id d \<notin> fst ` set L"
    using core_st [OF c, of "pr_scan_id d"] d by simp
  then show ?thesis
    by - (rule core_update [OF c], use c d in \<open>auto simp: core_ok_def undropped_change\<close>)
qed

lemma core_accept:
  assumes c: "core_ok M q rs ps (Run_dispatch d) L"
  shows "core_ok M q rs ps (Run_result d True full) ((pr_scan_id d, r) # L)"
proof -
  have st: "M (pr_scan_id d) = Some DISPATCHING \<or> M (pr_scan_id d) = Some CANCELED"
      "pr_scan_id d \<in> pr_scan_id ` set q" "pr_scan_id d \<notin> fst ` set L"
    using core_st [OF c, of "pr_scan_id d"] c
    by (cases "M (pr_scan_id d)"; cases "the (M (pr_scan_id d))"; simp add: core_ok_def)+
  show ?thesis
    by (rule core_moved [OF c, of "pr_scan_id d"]) (use core_facts [OF c] st in auto)
qed

lemma core_reject:
  "core_ok M q rs ps (Run_dispatch d) L \<Longrightarrow> core_ok M q rs ps (Run_result d False True) L"
  by (simp add: core_ok_def)

text \<open>The second section of \<^verbatim>\<open>run\<close>, by branch.\<close>

lemma core_head:
  "core_ok M q rs ps (Run_result d acc full) L \<Longrightarrow> \<exists>q'. q = d # q'"
  by (cases q; cases acc) (auto simp: core_ok_def)

lemma core_return_canceled:
  assumes c: "core_ok M (d # q) rs ps (Run_result d acc full) L"
    and d: "M (pr_scan_id d) = Some CANCELED"
    and pc: "pc = Run_top \<or> pc = Run_late_cancel k"
  shows "core_ok M q (rs + of_bool acc) (ps - 1) pc L"
  by (rule core_moved [OF c, of "pr_scan_id d"]) (use core_facts [OF c] d pc in \<open>cases acc; auto\<close>)+

lemma core_return_running:
  assumes c: "core_ok M (d # q) rs ps (Run_result d True full) L"
    and d: "M (pr_scan_id d) = Some DISPATCHING"
  shows "core_ok (M(pr_scan_id d \<mapsto> RUNNING)) q (rs + 1) (ps - 1) Run_top L"
  by (rule core_update [OF c]) (use c d in \<open>auto simp: core_ok_def\<close>)

lemma core_return_pending:
  assumes c: "core_ok M (d # q) rs ps (Run_result d False full) L"
    and d: "M (pr_scan_id d) = Some DISPATCHING"
  shows "core_ok (M(pr_scan_id d \<mapsto> PENDING)) (d # q) rs ps Run_top L"
  by (rule core_update [OF c]) (use c d in \<open>auto simp: core_ok_def undropped_change\<close>)

lemma core_return_done:
  assumes c: "core_ok M q rs ps (Run_result d acc full) L"
    and d: "M (pr_scan_id d) = Some DONE"
  shows "core_ok M q rs ps Run_top L"
  by (rule core_moved [OF c, of "pr_scan_id d"])
    (use core_facts [OF c] d core_st [OF c, of "pr_scan_id d"] in \<open>cases acc; auto\<close>)+

text \<open>A scan's end, by the state it finds.\<close>

lemma pc_ok_finish:
  "pc_ok pc M L q \<Longrightarrow> i \<in> L \<Longrightarrow>
   (M i = Some RUNNING \<longrightarrow> ds_current pc \<noteq> Some i \<longrightarrow> pc_ok pc (M(i \<mapsto> DONE)) (L - {i}) q
      \<and> ds_uncounted pc (M(i \<mapsto> DONE)) = ds_uncounted pc M)
   \<and> (M i = Some CANCELED \<longrightarrow> pc_ok pc M (L - {i}) q)
   \<and> (M i = Some DISPATCHING \<longrightarrow> ds_current pc = Some i \<longrightarrow>
        pc_ok pc (M(i \<mapsto> DONE)) (L - {i}) q
        \<and> ds_uncounted pc M \<and> \<not> ds_uncounted pc (M(i \<mapsto> DONE)))"
  by (cases "(pc, M, L, q)" rule: pc_ok.cases) auto

lemma core_finish:
  assumes c: "core_ok M q rs ps pc L" and i: "(i, r) \<in> set L"
  shows "M i = Some RUNNING \<and> core_ok (M(i \<mapsto> DONE)) q (rs - 1) ps pc (remove1 (i, r) L)
    \<or> M i = Some CANCELED \<and> core_ok M q (rs - 1) ps pc (remove1 (i, r) L)
    \<or> M i = Some DISPATCHING \<and> core_ok (M(i \<mapsto> DONE)) q rs ps pc (remove1 (i, r) L)"
proof -
  have L: "distinct (map fst (remove1 (i, r) L))" "fst ` set (remove1 (i, r) L) = fst ` set L - {i}"
      "int (length (remove1 (i, r) L)) = int (length L) - 1"
    using assms by (simp_all add: core_ok_def distinct_fst_remove1 fst_remove1 length_remove1_mem)
  have iL: "i \<in> fst ` set L" using i by force
  note st = core_st [OF c, of i]
  consider "M i = Some RUNNING" "ds_current pc \<noteq> Some i" | "M i = Some CANCELED"
    | "M i = Some DISPATCHING" "ds_current pc = Some i" "i \<in> pr_scan_id ` set q"
    using st iL by (cases "M i"; cases "the (M i)") auto
  then show ?thesis
  proof cases
    case 1
    have "core_ok (M(i \<mapsto> DONE)) q (rs - 1) ps pc (remove1 (i, r) L)"
      by (rule core_update [OF c])
        (use core_facts [OF c] pc_ok_finish [of pc M "fst ` set L" q i] 1 L iL in
          \<open>simp_all add: undropped_change\<close>)
    with 1 show ?thesis by simp
  next
    case 2
    have "core_ok M q (rs - 1) ps pc (remove1 (i, r) L)"
      by (rule core_moved [OF c, of i])
        (use core_facts [OF c] pc_ok_finish [of pc M "fst ` set L" q i] 2 L st iL in
          \<open>simp_all\<close>)
    with 2 show ?thesis by simp
  next
    case 3
    have "core_ok (M(i \<mapsto> DONE)) q rs ps pc (remove1 (i, r) L)"
      by (rule core_update [OF c])
        (use core_facts [OF c] pc_ok_finish [of pc M "fst ` set L" q i] 3 L iL in
          \<open>simp_all add: undropped_change\<close>)
    with 3 show ?thesis by simp
  qed
qed

subsection \<open>Every move keeps the invariant\<close>

lemma ds_inv_gen: "ds_inv s \<Longrightarrow> ds_step (Gen root) s = Some t \<Longrightarrow> ds_inv t"
  by (auto simp: ds_inv_def ds_bound_def ds_core_def ds_stopped_def Scheduler_gen_scan_id_def
      split: if_splits)

lemma ds_inv_enqueue: "ds_inv s \<Longrightarrow> ds_step (Enqueue i root) s = Some t \<Longrightarrow> ds_inv t"
  by (auto simp: ds_inv_def ds_bound_def ds_core_def ds_stopped_def Scheduler_submit_locked_def
      intro: core_enqueue split: if_splits)

lemma ds_inv_cancel: "ds_inv s \<Longrightarrow> ds_step (Cancel i) s = Some t \<Longrightarrow> ds_inv t"
  by (cases "scan_state_of (ds_sched s) i"; cases "the (scan_state_of (ds_sched s) i)")
    (auto simp: ds_inv_def ds_bound_def ds_core_def ds_stopped_def Scheduler_cancel_def
      intro: core_cancel_pending core_cancel_running split: if_splits)

lemma ds_inv_shutdown: "ds_inv s \<Longrightarrow> ds_step Shutdown_scheduler s = Some t \<Longrightarrow> ds_inv t"
proof -
  assume inv: "ds_inv s" and "ds_step Shutdown_scheduler s = Some t"
  then have t: "t = s\<lparr>ds_sched := snd (Scheduler_shutdown (ds_sched s))\<rparr>" by simp
  have "i \<in> pr_scan_id ` set (pending_queue (ds_sched s))"
    if "scan_state_of (ds_sched s) i = Some PENDING" for i
    using inv that core_st [of "scan_state_of (ds_sched s)" "pending_queue (ds_sched s)" _ _ _ _ i]
    by (fastforce simp: ds_inv_def ds_core_def ds_stopped_def split: if_splits)
  then have "ds_stopped (ds_sched t)"
    by (auto simp: t ds_stopped_def scan_state_shutdown split: option.splits)
  with inv show ?thesis by (simp add: ds_inv_def ds_bound_def t)
qed

lemma ds_inv_stop_pool: "ds_inv s \<Longrightarrow> ds_step Stop_pool s = Some t \<Longrightarrow> ds_inv t"
  by (auto simp: ds_inv_def ds_bound_def ds_stopped_def split: if_splits)

lemma ds_inv_pick:
  assumes inv: "ds_inv s" and t: "ds_step Pick s = Some t"
  shows "ds_inv t"
proof (cases "sc_stop_flag (ds_sched s)")
  case True
  with inv t show ?thesis
    by (auto simp: ds_inv_def ds_bound_def ds_stopped_def Scheduler_run_pick_def
        Scheduler_run_waits_def split: if_splits)
next
  case False
  let ?sc = "ds_sched s"
  have top: "ds_run s = Run_top" "\<not> Scheduler_run_waits ?sc"
    using t by (auto simp: Scheduler_run_pick_def split: if_splits)
  then obtain d q where q: "pending_queue ?sc = d # q"
    using False by (auto simp: Scheduler_run_waits_def neq_Nil_conv)
  have lt: "running_scans ?sc < int (MAX_CONCURRENT_SCAN ?sc)"
    using top(2) False inv
    by (auto simp: Scheduler_run_waits_def ds_inv_def ds_bound_def static_cast_int_small)
  have c: "core_ok (scan_state_of ?sc) (d # q) (running_scans ?sc) (pending_scans ?sc) Run_top (ds_live s)"
    and np: "\<not> ds_pool_stopped s"
    using inv False top q by (auto simp: ds_inv_def ds_core_def)
  have len: "running_scans ?sc = int (length (ds_live s))" using core_facts [OF c] by simp
  show ?thesis
  proof (cases "scan_state_of ?sc (pr_scan_id d) = Some PENDING")
    case p: True
    have "t = s\<lparr>ds_sched := sched_set_state (pr_scan_id d) DISPATCHING ?sc, ds_run := Run_dispatch d\<rparr>"
      using t top q False p by (simp add: Scheduler_run_pick_def)
    with inv core_pick_dispatch [OF c p] q np False lt len show ?thesis
      by (simp add: ds_inv_def ds_bound_def ds_core_def)
  next
    case p: False
    have "scan_state_of ?sc (pr_scan_id d) \<noteq> None"
      using core_st [OF c, of "pr_scan_id d"] by (cases "scan_state_of ?sc (pr_scan_id d)") auto
    then have "t = s\<lparr>ds_run := Run_top, ds_sched :=
        (let s1 = sched_metric_pending_sub (sched_pop_front (pr_scan_id d) ?sc) in
         if scan_state_of ?sc (pr_scan_id d) \<noteq> Some DROPPED
         then s1\<lparr>pending_scans := pending_scans s1 - 1\<rparr> else s1)\<rparr>"
      using t top q False p by (auto simp: Scheduler_run_pick_def Let_def split: if_splits)
    with inv core_pick_skip [OF c p] q np False show ?thesis
      by (auto simp: ds_inv_def ds_bound_def ds_core_def top Let_def)
  qed
qed

lemma ds_inv_accept: "ds_inv s \<Longrightarrow> ds_step Accept s = Some t \<Longrightarrow> ds_inv t"
  by (auto simp: ds_inv_def ds_bound_def ds_core_def ds_stopped_def
      intro: core_accept split: run_pc.splits if_splits)

lemma ds_inv_reject: "ds_inv s \<Longrightarrow> ds_step Reject_full s = Some t \<Longrightarrow> ds_inv t"
  by (auto simp: ds_inv_def ds_bound_def ds_core_def ds_stopped_def
      intro: core_reject split: run_pc.splits if_splits)

lemma notify_finished_simps [simp]:
  "pending_queue (Scheduler_notify_scan_finished i sc) = pending_queue sc"
  "pending_scans (Scheduler_notify_scan_finished i sc) = pending_scans sc"
  "sc_stop_flag (Scheduler_notify_scan_finished i sc) = sc_stop_flag sc"
  "root_map (Scheduler_notify_scan_finished i sc) = root_map sc"
  "manager_queue_full (Scheduler_notify_scan_finished i sc) = manager_queue_full sc"
  "MAX_CONCURRENT_SCAN (Scheduler_notify_scan_finished i sc) = MAX_CONCURRENT_SCAN sc"
  by (auto simp: Scheduler_notify_scan_finished_def Let_def split: option.splits)

lemma notify_finished_eq:
  "scan_state_of (Scheduler_notify_scan_finished i sc) =
     (if scan_state_of sc i \<in> {Some RUNNING, Some DISPATCHING}
      then (scan_state_of sc)(i \<mapsto> DONE) else scan_state_of sc)"
  "running_scans (Scheduler_notify_scan_finished i sc) =
     running_scans sc - of_bool (scan_state_of sc i \<in> {Some RUNNING, Some CANCELED})"
  "metric_scan_running (Scheduler_notify_scan_finished i sc) =
     metric_scan_running sc - of_bool (scan_state_of sc i \<in> {Some RUNNING, Some CANCELED})"
  by (auto simp: Scheduler_notify_scan_finished_def Let_def split: option.splits)

lemma ds_inv_refuse: "ds_inv s \<Longrightarrow> ds_step Refuse s = Some t \<Longrightarrow> ds_inv t"
  by (auto simp: ds_inv_def ds_bound_def ds_core_def ds_stopped_def notify_finished_eq
      split: run_pc.splits if_splits)

lemma ds_inv_finish:
  assumes inv: "ds_inv s" and t: "ds_step (Finish i r) s = Some t"
  shows "ds_inv t"
proof -
  have i: "(i, r) \<in> set (ds_live s)" using t by (simp split: if_splits)
  have "ds_bound t" using t inv i by (auto simp: ds_inv_def ds_bound_def length_remove1)
  moreover have "ds_stopped (ds_sched t)" if "ds_stopped (ds_sched s)"
    using t that by (auto simp: ds_stopped_def notify_finished_eq split: if_splits)
  moreover have "ds_core t" if "ds_core s"
  proof -
    from that have c: "core_ok (scan_state_of (ds_sched s)) (pending_queue (ds_sched s))
      (running_scans (ds_sched s)) (pending_scans (ds_sched s)) (ds_run s) (ds_live s)"
      by (simp add: ds_core_def)
    show ?thesis
      using core_finish [OF c i] that t i by (auto simp: ds_core_def notify_finished_eq)
  qed
  ultimately show ?thesis
    using inv t i by (auto simp: ds_inv_def notify_finished_eq split: if_splits)
qed

text \<open>The second section of \<^verbatim>\<open>run\<close>, as one equation per branch.\<close>

lemma run_result_stopped:
  "ds_stopped sc \<Longrightarrow> scan_state_of (snd (Scheduler_run_result d acc full sc)) = scan_state_of sc
    \<and> pending_queue (snd (Scheduler_run_result d acc full sc)) = []"
  by (auto simp: ds_stopped_def Scheduler_run_result_def Let_def split: option.splits)

lemma run_result_frame:
  "sc_stop_flag (snd (Scheduler_run_result d acc full sc)) = sc_stop_flag sc"
  "MAX_CONCURRENT_SCAN (snd (Scheduler_run_result d acc full sc)) = MAX_CONCURRENT_SCAN sc"
  "\<not> ds_dispatching (fst (Scheduler_run_result d acc full sc))"
  "metric_scan_running sc = running_scans sc \<Longrightarrow>
   metric_scan_running (snd (Scheduler_run_result d acc full sc))
     = running_scans (snd (Scheduler_run_result d acc full sc))"
  by (auto simp: Scheduler_run_result_def Let_def split: option.splits)

lemma ds_core_return:
  assumes core: "ds_core s" and run: "ds_run s = Run_result d acc full"
    and r: "Scheduler_run_result d acc full (ds_sched s) = (pc, sc)"
  shows "ds_core (s\<lparr>ds_sched := sc, ds_run := pc\<rparr>)"
proof -
  let ?sc = "ds_sched s" and ?i = "pr_scan_id d"
  obtain q where q: "pending_queue ?sc = d # q"
    using core run core_head by (metis ds_core_def)
  have c: "core_ok (scan_state_of ?sc) (d # q) (running_scans ?sc) (pending_scans ?sc)
      (Run_result d acc full) (ds_live s)"
    using core run q by (simp add: ds_core_def)
  have full: "acc \<or> full" using core_facts [OF c] by (cases acc) auto
  consider "scan_state_of ?sc ?i = Some CANCELED" | "scan_state_of ?sc ?i = Some DISPATCHING"
    | "scan_state_of ?sc ?i = Some DONE"
    using core_st [OF c, of ?i]
    by (cases "scan_state_of ?sc ?i"; cases "the (scan_state_of ?sc ?i)") auto
  then show ?thesis
  proof cases
    case 1
    then have "core_ok (scan_state_of ?sc) q (running_scans ?sc + of_bool acc) (pending_scans ?sc - 1)
      pc (ds_live s)"
      by (intro core_return_canceled [OF c])
        (use r 1 in \<open>auto simp: Scheduler_run_result_def Let_def split: if_splits\<close>)
    with core r 1 q show ?thesis
      by (auto simp: ds_core_def Scheduler_run_result_def Let_def split: if_splits)
  next
    case 2
    show ?thesis
    proof (cases acc)
      case True
      with core r 2 q core_return_running [of "scan_state_of ?sc" d q] c show ?thesis
        by (auto simp: ds_core_def Scheduler_run_result_def Let_def)
    next
      case False
      with core r 2 q core_return_pending [of "scan_state_of ?sc" d q] c full show ?thesis
        by (auto simp: ds_core_def Scheduler_run_result_def Let_def)
    qed
  next
    case 3
    with core r q core_return_done [OF c] show ?thesis
      by (auto simp: ds_core_def Scheduler_run_result_def Let_def)
  qed
qed

lemma ds_inv_return:
  assumes inv: "ds_inv s" and t: "ds_step Return s = Some t"
  shows "ds_inv t"
proof -
  obtain d acc full pc sc where r: "ds_run s = Run_result d acc full"
      "Scheduler_run_result d acc full (ds_sched s) = (pc, sc)"
      "t = s\<lparr>ds_sched := sc, ds_run := pc\<rparr>"
    using t by (auto split: run_pc.splits prod.splits)
  note frame = run_result_frame [where sc = "ds_sched s" and d = d and acc = acc and full = full,
    unfolded r(2) fst_conv snd_conv]
  have "ds_stopped sc" if "ds_stopped (ds_sched s)"
    using run_result_stopped [OF that, of d acc full] that r(2) by (simp add: ds_stopped_def)
  with inv frame r show ?thesis
    using ds_core_return [OF _ r(1,2)] by (auto simp: ds_inv_def ds_bound_def)
qed

lemma ds_inv_step:
  assumes inv: "ds_inv s" and t: "ds_step m s = Some t"
  shows "ds_inv t"
proof (cases m)
  case (Gen r)
  with t show ?thesis using ds_inv_gen [OF inv] by simp
next
  case (Enqueue i r)
  with t show ?thesis using ds_inv_enqueue [OF inv] by simp
next
  case (Cancel i)
  with t show ?thesis using ds_inv_cancel [OF inv, of i t] by simp
next
  case Shutdown_scheduler
  with t show ?thesis using ds_inv_shutdown [OF inv] by simp
next
  case Stop_pool
  with t show ?thesis using ds_inv_stop_pool [OF inv] by simp
next
  case Pick
  with t show ?thesis using ds_inv_pick [OF inv] by simp
next
  case Accept
  with t show ?thesis using ds_inv_accept [OF inv] by simp
next
  case Reject_full
  with t show ?thesis using ds_inv_reject [OF inv] by simp
next
  case Refuse
  with t show ?thesis using ds_inv_refuse [OF inv] by simp
next
  case Return
  with t show ?thesis using ds_inv_return [OF inv] by simp
next
  case (Finish i r)
  with t show ?thesis using ds_inv_finish [OF inv] by simp
next
  case Late_cancel
  with inv t show ?thesis
    by (auto simp: ds_inv_def ds_bound_def ds_core_def core_ok_def ds_stopped_def split: run_pc.splits)
next
  case Job_past
  with inv t show ?thesis
    by (auto simp: ds_inv_def ds_bound_def ds_core_def ds_stopped_def ds_exchange_def split: if_splits)
next
  case Job_end
  with inv t show ?thesis
    by (auto simp: ds_inv_def ds_bound_def ds_core_def ds_stopped_def ds_exchange_def split: if_splits)
next
  case Available
  with inv t show ?thesis
    by (auto simp: ds_inv_def ds_bound_def ds_core_def ds_stopped_def
        Scheduler_notify_dispatch_available_def split: if_splits)
next
  case (Export_done i r)
  with inv t show ?thesis
    by (auto simp: ds_inv_def ds_bound_def ds_core_def ds_stopped_def
        Scheduler_notify_export_done_def split: if_splits)
qed

interpretation dispatch: invariant ds_step ds_inv
  by unfold_locales (rule ds_inv_step)

lemma ds_inv_init:
  assumes "m < 2 ^ 31"
  shows "ds_inv (ds_init (Scheduler_init m n))"
  using assms
  by (simp add: ds_inv_def ds_init_def Scheduler_init_def ds_bound_def ds_core_def core_ok_def)

end
