(* ===== verification/Dispatch_Properties.thy ===== *)
theory Dispatch_Properties
  imports Dispatch_Invariant
begin

section \<open>What the dispatch system guarantees\<close>

subsection \<open>The life of a request\<close>

lemma legal_refl [simp]: "legal_transition a a"
  by (cases a) auto

lemma finished_legal:
  "scan_state_of sc i = Some a \<Longrightarrow>
   \<exists>b. scan_state_of (Scheduler_notify_scan_finished k sc) i = Some b \<and> legal_transition a b"
  by (cases "i = k") (auto simp: notify_finished_eq)

lemma result_legal:
  "scan_state_of sc i = Some a \<Longrightarrow>
   \<exists>b. scan_state_of (snd (Scheduler_run_result d acc full sc)) i = Some b \<and> legal_transition a b"
  by (cases "i = pr_scan_id d")
    (auto simp: Scheduler_run_result_def Let_def split: option.splits)

lemma submit_legal:
  "scan_state_of sc i = Some a \<Longrightarrow>
   \<exists>b. scan_state_of (snd (Scheduler_submit_locked k r sc)) i = Some b \<and> legal_transition a b"
  by (auto simp: Scheduler_submit_locked_def)

lemma cancel_legal:
  "scan_state_of sc i = Some a \<Longrightarrow>
   \<exists>b. scan_state_of (snd (snd (Scheduler_cancel k sc))) i = Some b \<and> legal_transition a b"
  by (cases "i = k"; cases a) (auto simp: Scheduler_cancel_def split: option.splits)

lemma shutdown_legal:
  "scan_state_of sc i = Some a \<Longrightarrow>
   \<exists>b. scan_state_of (snd (Scheduler_shutdown sc)) i = Some b \<and> legal_transition a b"
  by (cases a) (auto simp: scan_state_shutdown)

lemma pick_legal:
  "Scheduler_run_pick sc = Some (pc, sc') \<Longrightarrow> scan_state_of sc i = Some a \<Longrightarrow>
   \<exists>b. scan_state_of sc' i = Some b \<and> legal_transition a b"
  by (auto simp: Scheduler_run_pick_def Let_def split: if_splits)

lemma step_legal:
  assumes "ds_step m s = Some t" and "scan_state_of (ds_sched s) i = Some a"
  shows "\<exists>b. scan_state_of (ds_sched t) i = Some b \<and> legal_transition a b"
  using assms
  by (cases m)
    (auto simp: Scheduler_gen_scan_id_def ds_exchange_def Scheduler_notify_dispatch_available_def
        Scheduler_notify_export_done_def pick_legal submit_legal cancel_legal shutdown_legal
        finished_legal split: if_splits option.splits run_pc.splits prod.splits,
      (metis result_legal snd_conv)+)


text \<open>The moves of a whole run compose the edges; the final states have none to leave by.\<close>

definition final_state :: "request_state \<Rightarrow> bool" where
  "final_state st \<longleftrightarrow> st \<in> {DONE, DROPPED, FAILED, CANCELED}"

lemma final_step:
  assumes "ds_step m s = Some t" "scan_state_of (ds_sched s) i = Some a" "final_state a"
  shows "scan_state_of (ds_sched t) i = Some a"
proof -
  have "legal_transition a b \<Longrightarrow> b = a" for b using assms(3) by (auto simp: final_state_def)
  then show ?thesis using step_legal [OF assms(1,2)] by blast
qed

interpretation final: invariant ds_step "\<lambda>s. scan_state_of (ds_sched s) i = Some a \<and> final_state a"
  for i a
  by unfold_locales (blast intro: final_step)

text \<open>What a client has been told is final stays: once a scan is \<open>DONE\<close>, \<open>DROPPED\<close>, \<open>FAILED\<close>
  or \<open>CANCELED\<close>, no interleaving of the threads changes its state again.\<close>

theorem scheduler_final_states_stay:
  assumes "run ds_step ms s = Some t" and "scan_state_of (ds_sched s) i = Some a"
    and "final_state a"
  shows "Scheduler_get_state [i] (ds_sched t) = [a]"
proof -
  have "scan_state_of (ds_sched t) i = Some a \<and> final_state a"
    using final.run_keeps [OF assms(1)] assms(2,3) by blast
  then show ?thesis by (auto simp: Scheduler_get_state_def final_state_def)
qed

subsection \<open>Concurrency bound and counters\<close>

text \<open>C8: At most \<^verbatim>\<open>max_concurrent_scan\<close> scans are with the manager at any time, whatever the
  interleaving, the cancellations and the scans that end before their dispatch is recorded (a
  configured 0 counts as 1).\<close>

theorem scheduler_concurrency_bound:
  assumes "reach ds_step (ds_init (Scheduler_init m n)) s" and "m < 2 ^ 31"
  shows "length (ds_live s) \<le> MAX_CONCURRENT_SCAN (ds_sched s)"
proof -
  have "ds_inv s" using dispatch.reach_keeps [OF assms(1) ds_inv_init [OF assms(2)]] .
  then show ?thesis by (simp add: ds_inv_def ds_bound_def of_bool_def split: if_splits)
qed


text \<open>A run used by the witnesses: two scans submitted, the first dispatched.\<close>

definition two_scans :: "dispatch_move list" where
  "two_scans = [Gen ''/a'', Enqueue 1 ''/a'', Gen ''/b'', Enqueue 2 ''/b'', Pick, Accept, Return]"

lemma static_cast_int_numeral [simp]:
  "static_cast_int 0 = 0" "static_cast_int (Suc 0) = 1"
  "static_cast_int 2 = 2" "static_cast_int 3 = 3" "static_cast_int 8 = 8"
  by (simp_all add: static_cast_int_small)

lemmas ds_eval = ds_init_def Scheduler_init_def Scheduler_gen_scan_id_def
  Scheduler_check_non_overlap_path_def scheduler_defs Scheduler_run_waits_def
  paths_overlap_def substr_def ds_exchange_def Let_def List.insert_def update_conv'

definition two_scans_state :: dispatch_system where
  "two_scans_state = ds_init (Scheduler_init 2 8)
     \<lparr>ds_sched := (Scheduler_init 2 8)
        \<lparr>running_scans := 1, pending_scans := 1, state_map := [(2, PENDING), (1, RUNNING)],
         root_map := [''/b'', ''/a''], pending_queue := [\<lparr>pr_scan_id = 2, pr_root = ''/b''\<rparr>],
         next_scan_id := 3, metric_scan_running := 1, metric_scan_pending := 1\<rparr>,
      ds_live := [(1, ''/a'')]\<rparr>"

lemma two_scans_run: "run ds_step two_scans (ds_init (Scheduler_init 2 8)) = Some two_scans_state"
  by (simp add: two_scans_def two_scans_state_def ds_eval)

lemma two_scans_reach: "reach ds_step (ds_init (Scheduler_init 2 8)) two_scans_state"
  by (rule run_reach_start [OF two_scans_run])


theorem scheduler_final_states_stay_witness:
  "\<exists>t. run ds_step [Cancel 2, Gen ''/c'', Enqueue 3 ''/c'', Pick, Cancel 2] two_scans_state = Some t
     \<and> Scheduler_get_state [2] (ds_sched t) = [DROPPED]"
proof -
  obtain s where s: "ds_step (Cancel 2) two_scans_state = Some s"
      "scan_state_of (ds_sched s) 2 = Some DROPPED"
    by (simp add: two_scans_state_def Scheduler_cancel_def)
  have "run ds_step [Cancel 2, Gen ''/c'', Enqueue 3 ''/c'', Pick, Cancel 2] two_scans_state \<noteq> None"
    by (simp add: two_scans_state_def ds_eval)
  then obtain t where t: "run ds_step [Gen ''/c'', Enqueue 3 ''/c'', Pick, Cancel 2] s = Some t"
    by (simp only: run.simps(2) s(1) option.simps) (auto simp del: run.simps)
  have "Scheduler_get_state [2] (ds_sched t) = [DROPPED]"
    by (rule scheduler_final_states_stay [OF t s(2)]) (simp add: final_state_def)
  with t show ?thesis by (simp only: run.simps(2) [of _ "Cancel 2" "[Gen ''/c'', Enqueue 3 ''/c'', Pick, Cancel 2]"] s(1) option.simps) blast
qed

theorem scheduler_concurrency_bound_witness:
  "length (ds_live two_scans_state) \<le> MAX_CONCURRENT_SCAN (ds_sched two_scans_state)"
  by (rule scheduler_concurrency_bound [OF two_scans_reach]) simp


subsection \<open>Roots\<close>

text \<open>The scans a new root must not overlap: those waiting, the one being dispatched, those with
  the manager, those being exported.\<close>

fun ds_cur_pair :: "run_pc \<Rightarrow> (u64 \<times> string) list" where
  "ds_cur_pair (Run_dispatch d) = [(pr_scan_id d, pr_root d)]"
| "ds_cur_pair (Run_result d False True) = [(pr_scan_id d, pr_root d)]"
| "ds_cur_pair _ = []"

definition waiting :: "(u64 \<Rightarrow> request_state option) \<Rightarrow> pending_root list \<Rightarrow> (u64 \<times> string) list" where
  "waiting M q = map (\<lambda>d. (pr_scan_id d, pr_root d))
     (filter (\<lambda>d. M (pr_scan_id d) = Some PENDING) q)"

definition ds_active :: "dispatch_system \<Rightarrow> (u64 \<times> string) list" where
  "ds_active s = waiting (scan_state_of (ds_sched s)) (pending_queue (ds_sched s))
     @ ds_cur_pair (ds_run s) @ ds_live s @ ds_exporting s"

lemma waiting_simps [simp]:
  "waiting M [] = []"
  "waiting M (d # q) = (if M (pr_scan_id d) = Some PENDING then [(pr_scan_id d, pr_root d)] else [])
     @ waiting M q"
  "waiting M (p @ q) = waiting M p @ waiting M q"
  by (simp_all add: waiting_def)

lemma waiting_fresh: "i \<notin> pr_scan_id ` set q \<Longrightarrow> waiting (M(i := x)) q = waiting M q"
  unfolding waiting_def by (intro arg_cong [of _ _ "map _"] filter_cong) auto

lemma waiting_change:
  "M i \<noteq> Some PENDING \<Longrightarrow> x \<noteq> Some PENDING \<Longrightarrow> waiting (M(i := x)) q = waiting M q"
  unfolding waiting_def by (intro arg_cong [of _ _ "map _"] filter_cong) auto

lemma waiting_mono:
  "(\<And>j. N j = Some PENDING \<Longrightarrow> M j = Some PENDING) \<Longrightarrow> mset (waiting N q) \<subseteq># mset (waiting M q)"
proof (induction q)
  case (Cons d q)
  then have "mset (waiting N q) \<subseteq># mset (waiting M q)" by blast
  moreover from this have "mset (waiting N q) \<subseteq># add_mset (pr_scan_id d, pr_root d) (mset (waiting M q))"
    by (rule subset_mset.order_trans) simp
  ultimately show ?case using Cons.prems by auto
qed simp

lemma waiting_cancel: "x \<noteq> Some PENDING \<Longrightarrow> mset (waiting (M(i := x)) q) \<subseteq># mset (waiting M q)"
  by (rule waiting_mono) (simp split: if_splits)

text \<open>The table of roots is free of overlaps and holds the roots of all of those scans, each
  root once.\<close>

definition roots_ok :: "dispatch_system \<Rightarrow> bool" where
  "roots_ok s \<longleftrightarrow> distinct (map snd (ds_active s))
     \<and> snd ` set (ds_active s) \<subseteq> set (root_map (ds_sched s))
     \<and> (\<forall>r \<in> set (root_map (ds_sched s)). \<forall>r' \<in> set (root_map (ds_sched s)).
          r \<noteq> r' \<longrightarrow> \<not> paths_overlap r r')"

lemma roots_ok_shrink:
  assumes "roots_ok s" "root_map (ds_sched t) = root_map (ds_sched s)"
    and "mset (ds_active t) \<subseteq># mset (ds_active s)"
  shows "roots_ok t"
proof -
  have "snd ` set (ds_active t) \<subseteq> snd ` set (ds_active s)"
    using set_mset_mono [OF assms(3)] by (simp add: image_mono)
  also have "snd ` set (ds_active s) \<subseteq> set (root_map (ds_sched s))"
    using assms(1) by (simp add: roots_ok_def)
  finally have "snd ` set (ds_active t) \<subseteq> set (root_map (ds_sched s))" .
  moreover have "mset (map snd (ds_active t)) \<subseteq># mset (map snd (ds_active s))"
    using image_mset_subseteq_mono [OF assms(3)] by simp
  then have "distinct (map snd (ds_active t))"
    using assms(1) distinct_submultiset roots_ok_def by blast
  ultimately show ?thesis using assms(1,2) unfolding roots_ok_def by simp
qed

lemma active_frame:
  "scan_state_of (ds_sched t) = scan_state_of (ds_sched s) \<Longrightarrow>
   pending_queue (ds_sched t) = pending_queue (ds_sched s) \<Longrightarrow> ds_run t = ds_run s \<Longrightarrow>
   ds_live t = ds_live s \<Longrightarrow> ds_exporting t = ds_exporting s \<Longrightarrow> ds_active t = ds_active s"
  by (simp add: ds_active_def)

lemma roots_ok_frame:
  "roots_ok s \<Longrightarrow> ds_active t = ds_active s \<Longrightarrow> root_map (ds_sched t) = root_map (ds_sched s) \<Longrightarrow>
   roots_ok t"
  by (simp add: roots_ok_def)

lemma roots_enqueue:
  assumes r: "roots_ok s" and inv: "ds_inv s" and t: "ds_step (Enqueue i root) s = Some t"
  shows "roots_ok t"
proof (cases "fst (Scheduler_submit_locked i root (ds_sched s)) = Ok")
  case False
  then have "snd (Scheduler_submit_locked i root (ds_sched s)) = ds_sched s"
    by (auto simp: Scheduler_submit_locked_def split: if_splits)
  with t show ?thesis
    by (intro roots_ok_frame [OF r] active_frame) (auto split: if_splits)
next
  case True
  let ?sc = "ds_sched s"
  from True have ok: "\<not> sc_stop_flag ?sc" "Scheduler_check_non_overlap_path root ?sc"
      "scan_state_of ?sc i = None"
    by (auto simp: Scheduler_submit_locked_def split: if_splits)
  have c: "core_ok (scan_state_of ?sc) (pending_queue ?sc) (running_scans ?sc) (pending_scans ?sc)
      (ds_run s) (ds_live s)"
    using inv ok(1) by (simp add: ds_inv_def ds_core_def)
  have iq: "i \<notin> pr_scan_id ` set (pending_queue ?sc)"
    using core_st [OF c, of i] ok(3) by simp
  have new: "root \<notin> set (root_map ?sc)" "\<forall>r \<in> set (root_map ?sc). \<not> paths_overlap root r"
    using ok(2) by (auto simp: Scheduler_check_non_overlap_path_def list_ex_iff split: if_splits)
  have active: "mset (ds_active t) = add_mset (i, root) (mset (ds_active s))"
    and map: "root_map (ds_sched t) = root # root_map ?sc"
    using t True ok iq new(1)
    by (auto simp: Scheduler_submit_locked_def ds_active_def waiting_fresh split: if_splits)
  have set: "set (ds_active t) = insert (i, root) (set (ds_active s))"
    using arg_cong [OF active, of set_mset] by simp
  have "mset (map snd (ds_active t)) = mset (root # map snd (ds_active s))"
    using arg_cong [OF active, of "image_mset snd"] by simp
  then have "distinct (map snd (ds_active t)) = distinct (root # map snd (ds_active s))"
    by (rule mset_eq_imp_distinct_iff)
  then have "distinct (map snd (ds_active t))" using r new(1) by (auto simp: roots_ok_def)
  with r new map set show ?thesis
    by (auto simp: roots_ok_def paths_overlap_sym)
qed

lemma roots_export_done:
  assumes r: "roots_ok s" and t: "ds_step (Export_done i root) s = Some t"
  shows "roots_ok t"
proof -
  have i: "(i, root) \<in> set (ds_exporting s)" using t by (simp split: if_splits)
  have active: "mset (ds_active s) = add_mset (i, root) (mset (ds_active t))"
    and map: "root_map (ds_sched t) = removeAll root (root_map (ds_sched s))"
    using t i by (auto simp: ds_active_def Scheduler_notify_export_done_def)
  have "mset (map snd (ds_active s)) = mset (root # map snd (ds_active t))"
    using arg_cong [OF active, of "image_mset snd"] by simp
  then have "distinct (map snd (ds_active s)) = distinct (root # map snd (ds_active t))"
    by (rule mset_eq_imp_distinct_iff)
  with r have d: "root \<notin> snd ` set (ds_active t)" "distinct (map snd (ds_active t))"
    by (auto simp: roots_ok_def)
  have "set (ds_active s) = insert (i, root) (set (ds_active t))"
    using arg_cong [OF active, of set_mset] by simp
  with r map d show ?thesis by (auto simp: roots_ok_def)
qed

lemma finish_mset:
  "x \<in> set xs \<Longrightarrow> mset (remove1 x xs) + mset (x # ys) = mset xs + mset ys"
  by simp

lemma roots_pick:
  assumes r: "roots_ok s" and inv: "ds_inv s" and t: "ds_step Pick s = Some t"
  shows "roots_ok t"
proof (cases "sc_stop_flag (ds_sched s)")
  case True
  with t have "t = s\<lparr>ds_run := Run_exited\<rparr>" "ds_run s = Run_top"
    by (auto simp: Scheduler_run_pick_def Scheduler_run_waits_def split: if_splits)
  then show ?thesis by (intro roots_ok_frame [OF r]) (simp_all add: ds_active_def)
next
  case False
  let ?sc = "ds_sched s"
  have top: "ds_run s = Run_top" "\<not> Scheduler_run_waits ?sc"
    using t by (auto simp: Scheduler_run_pick_def split: if_splits)
  then obtain d q where q: "pending_queue ?sc = d # q"
    using False by (auto simp: Scheduler_run_waits_def neq_Nil_conv)
  have "distinct (map pr_scan_id (d # q))"
    using inv False q by (simp add: ds_inv_def ds_core_def core_ok_def)
  then have d: "waiting ((scan_state_of ?sc)(pr_scan_id d := x)) q = waiting (scan_state_of ?sc) q" for x
    by (intro waiting_fresh) auto
  show ?thesis
  proof (cases "scan_state_of ?sc (pr_scan_id d) = Some PENDING")
    case True
    then have "t = s\<lparr>ds_sched := sched_set_state (pr_scan_id d) DISPATCHING ?sc, ds_run := Run_dispatch d\<rparr>"
      using t top q False by (simp add: Scheduler_run_pick_def)
    then show ?thesis
      by - (rule roots_ok_shrink [OF r], use True top q d in \<open>simp_all add: ds_active_def\<close>)
  next
    case p: False
    then have "t = s\<lparr>ds_run := Run_top, ds_sched :=
        (let s1 = sched_metric_pending_sub (sched_pop_front (pr_scan_id d) ?sc) in
         if scan_state_of ?sc (pr_scan_id d) \<noteq> None \<and> scan_state_of ?sc (pr_scan_id d) \<noteq> Some DROPPED
         then s1\<lparr>pending_scans := pending_scans s1 - 1\<rparr> else s1)\<rparr>"
      using t top q False by (auto simp: Scheduler_run_pick_def Let_def split: if_splits)
    then show ?thesis
      by - (rule roots_ok_frame [OF r], use p top q in \<open>simp_all add: ds_active_def Let_def\<close>)
  qed
qed

lemma roots_return:
  assumes r: "roots_ok s" and inv: "ds_inv s" and t: "ds_step Return s = Some t"
  shows "roots_ok t"
proof -
  let ?sc = "ds_sched s"
  obtain d acc full pc sc where u: "ds_run s = Run_result d acc full"
      "Scheduler_run_result d acc full ?sc = (pc, sc)" "t = s\<lparr>ds_sched := sc, ds_run := pc\<rparr>"
    using t by (auto split: run_pc.splits prod.splits)
  show ?thesis
  proof (cases "sc_stop_flag ?sc")
    case True
    then have "ds_stopped ?sc" using inv by (simp add: ds_inv_def)
    then have "scan_state_of sc = scan_state_of ?sc" "pending_queue sc = []" "pending_queue ?sc = []"
      using run_result_stopped [of ?sc d acc full] u(2) by (auto simp: ds_stopped_def)
    moreover have "ds_cur_pair pc = []" "root_map sc = root_map ?sc"
      using u(2) by (auto simp: Scheduler_run_result_def Let_def split: option.splits if_splits)
    ultimately show ?thesis
      by (intro roots_ok_shrink [OF r]) (simp_all add: ds_active_def u)
  next
    case False
    then have core: "ds_core s" using inv by (simp add: ds_inv_def)
    then obtain q where q: "pending_queue ?sc = d # q" using u(1) core_head by (metis ds_core_def)
    have c: "core_ok (scan_state_of ?sc) (d # q) (running_scans ?sc) (pending_scans ?sc)
        (Run_result d acc full) (ds_live s)"
      using core u(1) q by (simp add: ds_core_def)
    have full: "acc \<or> full" using core_facts [OF c] by (cases acc) auto
    have "waiting ((scan_state_of ?sc)(pr_scan_id d := x)) q = waiting (scan_state_of ?sc) q" for x
      using core_facts [OF c] by (intro waiting_fresh) auto
    with u full q show ?thesis
      by (intro roots_ok_shrink [OF r])
        (auto simp: ds_active_def Scheduler_run_result_def Let_def split: option.splits if_splits)
  qed
qed

lemma roots_step:
  assumes r: "roots_ok s" and inv: "ds_inv s" and t: "ds_step m s = Some t"
  shows "roots_ok t"
proof (cases m)
  case (Gen root)
  with t show ?thesis
    by (intro roots_ok_frame [OF r]) (auto simp: ds_active_def Scheduler_gen_scan_id_def split: if_splits)
next
  case (Enqueue i root)
  with t show ?thesis using roots_enqueue [OF r inv, of i root t] by simp
next
  case (Cancel i)
  with t have "t = s\<lparr>ds_sched := snd (snd (Scheduler_cancel i (ds_sched s)))\<rparr>" by simp
  then show ?thesis
    by - (rule roots_ok_shrink [OF r],
      auto simp: ds_active_def Scheduler_cancel_def waiting_cancel split: option.splits)
next
  case Shutdown_scheduler
  with t have "t = s\<lparr>ds_sched := snd (Scheduler_shutdown (ds_sched s))\<rparr>" by simp
  then show ?thesis
    by - (rule roots_ok_shrink [OF r], simp_all add: ds_active_def)
next
  case Stop_pool
  with t show ?thesis by (intro roots_ok_frame [OF r]) (auto simp: ds_active_def split: if_splits)
next
  case Pick
  with t show ?thesis using roots_pick [OF r inv] by simp
next
  case Accept
  with t show ?thesis
    by (intro roots_ok_shrink [OF r]) (auto simp: ds_active_def split: run_pc.splits if_splits)
next
  case Reject_full
  with t show ?thesis
    by (intro roots_ok_frame [OF r]) (auto simp: ds_active_def split: run_pc.splits if_splits)
next
  case Refuse
  with t show ?thesis
    by (intro roots_ok_shrink [OF r])
      (auto simp: ds_active_def notify_finished_eq waiting_change split: run_pc.splits if_splits)
next
  case Return
  with t show ?thesis using roots_return [OF r inv] by simp
next
  case Late_cancel
  with t show ?thesis
    by (intro roots_ok_frame [OF r]) (auto simp: ds_active_def split: run_pc.splits)
next
  case (Finish i root)
  with t show ?thesis
    by (intro roots_ok_shrink [OF r])
      (auto simp: ds_active_def notify_finished_eq waiting_change split: if_splits)
next
  case Job_past
  with t show ?thesis
    by (intro roots_ok_frame [OF r]) (auto simp: ds_active_def ds_exchange_def split: if_splits)
next
  case Job_end
  with t show ?thesis
    by (intro roots_ok_frame [OF r]) (auto simp: ds_active_def ds_exchange_def split: if_splits)
next
  case Available
  with t show ?thesis
    by (intro roots_ok_frame [OF r])
      (auto simp: ds_active_def Scheduler_notify_dispatch_available_def split: if_splits)
next
  case (Export_done i root)
  with t show ?thesis using roots_export_done [OF r, of i root t] by simp
qed

interpretation dispatch_roots: invariant ds_step "\<lambda>s. ds_inv s \<and> roots_ok s"
  by unfold_locales (blast intro: ds_inv_step roots_step)



end
