(* ===== verification/Dispatch_Faults.thy ===== *)
theory Dispatch_Faults
  imports Dispatch_Properties
begin

section \<open>Where the dispatch system gets stuck\<close>

text \<open>Three reachable situations that the code does not leave again.\<close>

subsection \<open>A rejected dispatch that nobody announces\<close>

text \<open>
  The manager sets \<^verbatim>\<open>dispatch_failed\<close> before \<^verbatim>\<open>start_new_scan\<close> returns, the scheduler sets
  \<^verbatim>\<open>manager_queue_full\<close> after it. If the job that makes room ends in between, its
  \<^verbatim>\<open>notify_dispatch_available\<close> resets a flag that is not yet set, and the scheduler then sets it
  for good. Once no scan is left with the manager, no job is left to end.
\<close>

definition stalled :: "dispatch_system \<Rightarrow> bool" where
  "stalled s \<longleftrightarrow> manager_queue_full (ds_sched s) \<and> \<not> sc_stop_flag (ds_sched s)
     \<and> ds_run s = Run_top \<and> ds_live s = [] \<and> ds_tails s = 0 \<and> ds_notifying s = 0"

lemma submit_locked_frame:
  "manager_queue_full (snd (Scheduler_submit_locked i r sc)) = manager_queue_full sc"
  "sc_stop_flag (snd (Scheduler_submit_locked i r sc)) = sc_stop_flag sc"
  by (auto simp: Scheduler_submit_locked_def)

lemma cancel_frame:
  "manager_queue_full (snd (snd (Scheduler_cancel i sc))) = manager_queue_full sc"
  "sc_stop_flag (snd (snd (Scheduler_cancel i sc))) = sc_stop_flag sc"
  "root_map (snd (snd (Scheduler_cancel i sc))) = root_map sc"
  "pending_queue (snd (snd (Scheduler_cancel i sc))) = pending_queue sc"
  by (auto simp: Scheduler_cancel_def split: option.splits)

text \<open>The moves of everybody but the daemon's shutdown.\<close>

definition live_step :: "dispatch_move \<Rightarrow> dispatch_system \<Rightarrow> dispatch_system option" where
  "live_step m s = (if m = Shutdown_scheduler then None else ds_step m s)"

lemma stalled_step: "stalled s \<Longrightarrow> live_step m s = Some t \<Longrightarrow> stalled t"
  by (cases m)
    (auto simp: stalled_def live_step_def Scheduler_gen_scan_id_def submit_locked_frame cancel_frame
      Scheduler_run_pick_def Scheduler_run_waits_def Scheduler_notify_export_done_def
      split: if_splits)

interpretation stall: invariant live_step stalled
  by unfold_locales (rule stalled_step)

definition stall_run :: "dispatch_move list" where
  "stall_run = [Pick, Reject_full, Job_past, Job_end, Available, Return, Finish 1 ''/a'', Job_end]"

text \<open>C35: The dispatcher can stall for good. With one scan running and a second one queued there
  is a schedule in which the second dispatch is rejected for lack of room, the running scan's
  jobs end before the rejection is recorded, and from then on, until a shutdown, no scan is
  ever dispatched again: the second scan is not started whatever else happens, and every scan
  submitted later waits behind it.\<close>

theorem scheduler_dispatch_can_stall:
  "\<exists>s. run ds_step (two_scans @ stall_run) (ds_init (Scheduler_init 2 8)) = Some s
     \<and> Scheduler_get_state [1, 2] (ds_sched s) = [DONE, PENDING]
     \<and> (\<forall>ms t. run live_step ms s = Some t \<longrightarrow>
          ds_live t = [] \<and> Scheduler_run_waits (ds_sched t) \<and> ds_step Pick t = None)"
proof -
  obtain s where s: "run ds_step stall_run two_scans_state = Some s" "stalled s"
      "Scheduler_get_state [1, 2] (ds_sched s) = [DONE, PENDING]"
    by (simp add: stall_run_def two_scans_state_def ds_eval stalled_def Scheduler_get_state_def)
  have "ds_live t = [] \<and> Scheduler_run_waits (ds_sched t) \<and> ds_step Pick t = None"
    if "run live_step ms s = Some t" for ms t
    using stall.run_keeps [OF that s(2)]
    by (simp add: stalled_def Scheduler_run_waits_def Scheduler_run_pick_def)
  moreover have "run ds_step (two_scans @ stall_run) (ds_init (Scheduler_init 2 8)) = Some s"
    by (simp add: run_append two_scans_run s(1))
  ultimately show ?thesis using s(3) by blast
qed

theorem scheduler_dispatch_can_stall_witness:
  "\<exists>s. run ds_step (two_scans @ stall_run) (ds_init (Scheduler_init 2 8)) = Some s
     \<and> Scheduler_get_state [1, 2] (ds_sched s) = [DONE, PENDING] \<and> ds_step Pick s = None"
proof -
  obtain s where "run ds_step (two_scans @ stall_run) (ds_init (Scheduler_init 2 8)) = Some s"
      "Scheduler_get_state [1, 2] (ds_sched s) = [DONE, PENDING]"
      "\<forall>ms t. run live_step ms s = Some t \<longrightarrow>
          ds_live t = [] \<and> Scheduler_run_waits (ds_sched t) \<and> ds_step Pick t = None"
    using scheduler_dispatch_can_stall by blast
  moreover have "run live_step [] s = Some s" by simp
  ultimately show ?thesis by blast
qed

subsection \<open>Roots that stay blocked\<close>

text \<open>
  Only \<^verbatim>\<open>notify_export_done\<close> takes a root out of \<^verbatim>\<open>root_map\<close>, and only the scans that reach the
  manager's end are exported.
\<close>

definition blocked :: "string \<Rightarrow> dispatch_system \<Rightarrow> bool" where
  "blocked r s \<longleftrightarrow> r \<in> set (root_map (ds_sched s))
     \<and> r \<notin> pr_root ` set (pending_queue (ds_sched s))
     \<and> (case ds_run s of Run_dispatch d \<Rightarrow> pr_root d \<noteq> r | _ \<Rightarrow> True)
     \<and> r \<notin> snd ` set (ds_live s) \<and> r \<notin> snd ` set (ds_exporting s)"

lemma run_result_other:
  "root_map (snd (Scheduler_run_result d acc full sc)) = root_map sc"
  "set (pending_queue (snd (Scheduler_run_result d acc full sc))) \<subseteq> set (pending_queue sc)"
  by (auto simp: Scheduler_run_result_def Let_def split: option.splits if_splits dest: list.set_sel(2))

lemma run_pick_blocked:
  assumes "Scheduler_run_pick sc = Some (pc, sc')" "r \<notin> pr_root ` set (pending_queue sc)"
  shows "root_map sc' = root_map sc \<and> r \<notin> pr_root ` set (pending_queue sc')
    \<and> (case pc of Run_dispatch d \<Rightarrow> pr_root d \<noteq> r | _ \<Rightarrow> True)"
  using assms by (cases "pending_queue sc")
    (auto simp: Scheduler_run_pick_def Scheduler_run_waits_def Let_def split: if_splits)

lemma submit_locked_roots:
  assumes "r \<in> set (root_map sc)" "r \<notin> pr_root ` set (pending_queue sc)"
  shows "r \<in> set (root_map (snd (Scheduler_submit_locked i root sc)))
    \<and> r \<notin> pr_root ` set (pending_queue (snd (Scheduler_submit_locked i root sc)))"
  using assms
  by (auto simp: Scheduler_submit_locked_def Scheduler_check_non_overlap_path_def split: if_splits)

lemma snd_remove1: "snd ` set (remove1 x xs) \<subseteq> snd ` set xs"
  by (rule image_mono) (rule set_remove1_subset)

lemma blocked_frame:
  assumes "blocked r s" and "root_map (ds_sched t) = root_map (ds_sched s)"
    and "set (pending_queue (ds_sched t)) \<subseteq> set (pending_queue (ds_sched s))"
    and "ds_live t = ds_live s" and "ds_exporting t = ds_exporting s"
    and "ds_run t = ds_run s \<or> \<not> ds_dispatching (ds_run t)"
  shows "blocked r t"
  using assms(1,3,6) unfolding blocked_def assms(2,4,5) by (cases "ds_run t") auto

lemma blocked_step:
  assumes b: "blocked r s" and t: "ds_step m s = Some t"
  shows "blocked r t"
proof (cases m)
  case (Enqueue i root)
  with b t show ?thesis
    using submit_locked_roots [of r "ds_sched s" i root] by (auto simp: blocked_def split: if_splits)
next
  case Pick
  with t obtain pc sc where "ds_run s = Run_top" "Scheduler_run_pick (ds_sched s) = Some (pc, sc)"
      "t = s\<lparr>ds_sched := sc, ds_run := pc\<rparr>"
    by (auto split: if_splits option.splits)
  with b show ?thesis using run_pick_blocked [of "ds_sched s" pc sc r] by (simp add: blocked_def)
next
  case Return
  with t obtain d acc full pc sc where "ds_run s = Run_result d acc full"
      "Scheduler_run_result d acc full (ds_sched s) = (pc, sc)" "t = s\<lparr>ds_sched := sc, ds_run := pc\<rparr>"
    by (auto split: run_pc.splits prod.splits)
  moreover from this have "\<not> ds_dispatching pc"
    using run_result_frame(3) [of d acc full "ds_sched s"] by simp
  ultimately show ?thesis
    using b run_result_other [of d acc full "ds_sched s"]
    by (cases pc) (auto simp: blocked_def)
next
  case (Finish i root)
  with t have mem: "(i, root) \<in> set (ds_live s)"
    and t': "t = s\<lparr>ds_sched := Scheduler_notify_scan_finished i (ds_sched s),
        ds_live := remove1 (i, root) (ds_live s),
        ds_exporting := (i, root) # ds_exporting s, ds_tails := Suc (ds_tails s)\<rparr>"
    by (simp_all split: if_splits)
  have "root \<noteq> r" using mem b by (force simp: blocked_def)
  with b t' show ?thesis
    using snd_remove1 [of "(i, root)" "ds_live s"] by (auto simp: blocked_def)
next
  case (Export_done i root)
  with t have mem: "(i, root) \<in> set (ds_exporting s)"
    and t': "t = s\<lparr>ds_sched := Scheduler_notify_export_done root (ds_sched s),
        ds_exporting := remove1 (i, root) (ds_exporting s)\<rparr>"
    by (simp_all split: if_splits)
  have "root \<noteq> r" using mem b by (force simp: blocked_def)
  with b t' show ?thesis
    using snd_remove1 [of "(i, root)" "ds_exporting s"]
    by (auto simp: blocked_def Scheduler_notify_export_done_def)
next
  case Accept
  with t obtain d where d: "ds_run s = Run_dispatch d" "\<not> ds_pool_stopped s"
    by (auto split: run_pc.splits if_splits)
  with Accept t have "t = s\<lparr>ds_run := Run_result d True False, ds_live := (pr_scan_id d, pr_root d) # ds_live s\<rparr>"
    by simp
  with b d show ?thesis by (auto simp: blocked_def)
next
  case Refuse
  with t obtain d where d: "ds_run s = Run_dispatch d" "ds_pool_stopped s"
    by (auto split: run_pc.splits if_splits)
  with Refuse t have "t = s\<lparr>ds_run := Run_result d False False,
      ds_sched := Scheduler_notify_scan_finished (pr_scan_id d) (ds_sched s),
      ds_exporting := (pr_scan_id d, pr_root d) # ds_exporting s, ds_tails := Suc (ds_tails s)\<rparr>"
    by simp
  with b d show ?thesis by (auto simp: blocked_def)
next
  case Reject_full
  with t show ?thesis
    by (intro blocked_frame [OF b]) (auto split: run_pc.splits if_splits)
next
  case Late_cancel
  with t show ?thesis
    by (intro blocked_frame [OF b]) (auto split: run_pc.splits)
next
  case Job_past
  with t show ?thesis
    by (intro blocked_frame [OF b]) (auto simp: ds_exchange_def split: if_splits)
next
  case Job_end
  with t show ?thesis
    by (intro blocked_frame [OF b]) (auto simp: ds_exchange_def split: if_splits)
qed (insert t, (rule blocked_frame [OF b]; auto simp: Scheduler_gen_scan_id_def cancel_frame
    Scheduler_notify_dispatch_available_def split: if_splits)+)

interpretation block: invariant ds_step "blocked r" for r
  by unfold_locales (rule blocked_step)

definition drop_run :: "dispatch_move list" where
  "drop_run = [Cancel 2, Gen ''/c'', Enqueue 3 ''/c'', Pick]"

text \<open>A scan cancelled while it waits blocks its root for good. After a schedule in which
  \<^verbatim>\<open>/b\<close> was submitted and cancelled before its dispatch, every later submission of \<^verbatim>\<open>/b\<close>, of a
  directory in it or above it, is refused, whatever happens in between, although no scan of it
  waits, runs or is exported.\<close>

theorem scheduler_cancelled_root_stays_blocked:
  "\<exists>s. run ds_step (two_scans @ drop_run) (ds_init (Scheduler_init 2 8)) = Some s
     \<and> Scheduler_get_state [2] (ds_sched s) = [DROPPED]
     \<and> (\<forall>ms t p i. run ds_step ms s = Some t \<longrightarrow> paths_overlap p ''/b'' \<longrightarrow>
          fst (Scheduler_submit_locked i p (ds_sched t)) \<in> {ScanShutdown, QueueFull, OverlapConflict}
          \<and> ''/b'' \<notin> snd ` set (ds_live t) \<union> snd ` set (ds_exporting t))"
proof -
  obtain s where s: "run ds_step drop_run two_scans_state = Some s" "blocked ''/b'' s"
      "Scheduler_get_state [2] (ds_sched s) = [DROPPED]"
    by (simp add: drop_run_def two_scans_state_def ds_eval blocked_def Scheduler_get_state_def)
  have "fst (Scheduler_submit_locked i p (ds_sched t)) \<in> {ScanShutdown, QueueFull, OverlapConflict}
      \<and> ''/b'' \<notin> snd ` set (ds_live t) \<union> snd ` set (ds_exporting t)"
    if "run ds_step ms s = Some t" "paths_overlap p ''/b''" for ms t p i
  proof -
    have "blocked ''/b'' t" using block.run_keeps [OF that(1) s(2)] .
    then have "\<not> Scheduler_check_non_overlap_path p (ds_sched t)"
        "''/b'' \<notin> snd ` set (ds_live t) \<union> snd ` set (ds_exporting t)"
      using that(2) by (auto simp: blocked_def Scheduler_check_non_overlap_path_def list_ex_iff)
    then show ?thesis by (simp add: Scheduler_submit_locked_def)
  qed
  moreover have "run ds_step (two_scans @ drop_run) (ds_init (Scheduler_init 2 8)) = Some s"
    by (simp add: run_append two_scans_run s(1))
  ultimately show ?thesis using s(3) by blast
qed

theorem scheduler_cancelled_root_stays_blocked_witness:
  "\<exists>s. run ds_step (two_scans @ drop_run) (ds_init (Scheduler_init 2 8)) = Some s
     \<and> fst (Scheduler_submit_locked 9 ''/b/x'' (ds_sched s)) \<in> {ScanShutdown, QueueFull, OverlapConflict}"
proof -
  obtain s where s: "run ds_step (two_scans @ drop_run) (ds_init (Scheduler_init 2 8)) = Some s"
      "\<forall>ms t p i. run ds_step ms s = Some t \<longrightarrow> paths_overlap p ''/b'' \<longrightarrow>
          fst (Scheduler_submit_locked i p (ds_sched t)) \<in> {ScanShutdown, QueueFull, OverlapConflict}
          \<and> ''/b'' \<notin> snd ` set (ds_live t) \<union> snd ` set (ds_exporting t)"
    using scheduler_cancelled_root_stays_blocked by blast
  have "run ds_step [] s = Some s" and "paths_overlap ''/b/x'' ''/b''"
    by (simp_all add: paths_overlap_def substr_def)
  with s(2) have "fst (Scheduler_submit_locked 9 ''/b/x'' (ds_sched s)) \<in> {ScanShutdown, QueueFull, OverlapConflict}"
    by blast
  with s(1) show ?thesis by blast
qed

subsection \<open>A shutdown during a dispatch\<close>

definition underflown :: "dispatch_system \<Rightarrow> bool" where
  "underflown s \<longleftrightarrow> sc_stop_flag (ds_sched s) \<and> metric_scan_running (ds_sched s) = -1
     \<and> ds_live s = [] \<and> (ds_run s = Run_top \<or> ds_run s = Run_exited)"

lemma underflown_step: "underflown s \<Longrightarrow> ds_step m s = Some t \<Longrightarrow> underflown t"
  by (cases m)
    (auto simp: underflown_def Scheduler_gen_scan_id_def Scheduler_submit_locked_def
      Scheduler_cancel_def Scheduler_run_pick_def Scheduler_run_waits_def ds_exchange_def
      Scheduler_notify_dispatch_available_def Scheduler_notify_export_done_def
      split: if_splits option.splits)

interpretation underflow: invariant ds_step underflown
  by unfold_locales (rule underflown_step)

definition late_shutdown :: "dispatch_move list" where
  "late_shutdown = [Gen ''/a'', Enqueue 1 ''/a'', Pick, Shutdown_scheduler, Stop_pool, Refuse, Return]"

lemma late_shutdown_underflown:
  "\<exists>s. run ds_step late_shutdown (ds_init (Scheduler_init 2 8)) = Some s \<and> underflown s
     \<and> pending_scans (ds_sched s) = -1 \<and> running_scans (ds_sched s) = -1"
  by (simp add: late_shutdown_def ds_eval underflown_def Scheduler_shutdown_def)

text \<open>A shutdown that meets the dispatch thread inside \<^verbatim>\<open>manager.start_new_scan\<close> leaves the
  counters wrong: the refused scan is subtracted although it was never added, so
  \<^verbatim>\<open>scan_running\<close>, which the daemon waits for to become 0 before it closes the HTTP server, is -1
  and no later move changes it.\<close>

theorem scheduler_shutdown_underflow:
  "\<exists>s. run ds_step late_shutdown (ds_init (Scheduler_init 2 8)) = Some s
     \<and> pending_scans (ds_sched s) = -1 \<and> running_scans (ds_sched s) = -1
     \<and> (\<forall>ms t. run ds_step ms s = Some t \<longrightarrow> metric_scan_running (ds_sched t) = -1)"
proof -
  obtain s where s: "run ds_step late_shutdown (ds_init (Scheduler_init 2 8)) = Some s"
      "underflown s" "pending_scans (ds_sched s) = -1" "running_scans (ds_sched s) = -1"
    using late_shutdown_underflown by blast
  have "metric_scan_running (ds_sched t) = -1" if "run ds_step ms s = Some t" for ms t
    using underflow.run_keeps [OF that s(2)] by (simp add: underflown_def)
  with s show ?thesis by blast
qed

theorem scheduler_shutdown_underflow_witness:
  "\<exists>s. run ds_step late_shutdown (ds_init (Scheduler_init 2 8)) = Some s
     \<and> metric_scan_running (ds_sched s) = -1"
proof -
  obtain s where "run ds_step late_shutdown (ds_init (Scheduler_init 2 8)) = Some s"
      "\<forall>ms t. run ds_step ms s = Some t \<longrightarrow> metric_scan_running (ds_sched t) = -1"
    using scheduler_shutdown_underflow by blast
  moreover have "run ds_step [] s = Some s" by simp
  ultimately show ?thesis by blast
qed

end
