(* ===== verification/Multi_Scanner.thy ===== *)
theory Multi_Scanner
  imports Common_Types
begin

section \<open>MultiScanner::scan\_one\_node (src/scan\_system/multi\_scanner.cpp)\<close>

text \<open>
  What the scanner does with one path: it records one \<^verbatim>\<open>FileEvent\<close> and returns the children to
  scan. The file system is reached by \<^verbatim>\<open>lstat\<close>, \<^verbatim>\<open>opendir\<close> and \<^verbatim>\<open>readdir\<close>; it is a parameter of
  the model that gives for a path what these calls answer: an \<^verbatim>\<open>errno\<close> or the status; an \<^verbatim>\<open>errno\<close>
  if the directory cannot be opened; the names in the order \<^verbatim>\<open>readdir\<close> returns them, with the
  \<^verbatim>\<open>errno\<close> of a first \<^verbatim>\<open>readdir\<close> that returns nothing. (The code takes a failure of a later
  \<^verbatim>\<open>readdir\<close> for the end of the directory; so the list of names is what it gets to see.)
\<close>

record stat_buff =
  S_ISLNK :: bool
  S_ISDIR :: bool
  st_mtime :: i64
  st_blocks :: u64

record file_system =
  fs_lstat :: "string \<Rightarrow> int + stat_buff"
  fs_opendir :: "string \<Rightarrow> int option"
  fs_readdir :: "string \<Rightarrow> int \<times> string list"

text \<open>\<^verbatim>\<open>ScanData\<close>: the context is the one of the scan, reached by its id.\<close>

record scan_data =
  sd_scan_id :: u64
  sd_path :: string

definition scan_event :: "scan_data \<Rightarrow> i64 \<Rightarrow> u64 \<Rightarrow> int \<Rightarrow> node_type \<Rightarrow> file_event" where
  "scan_event d mtime sz err t =
     \<lparr>fe_scan_id = sd_scan_id d, fe_modtime = mtime, fe_size = sz, fe_err = err,
      fe_path = sd_path d, fe_node_type = t, fe_end_signal = Sentinel_init\<rparr>"

text \<open>The loop over the directory, which skips the two dot entries.\<close>

fun scan_children :: "scan_data \<Rightarrow> string list \<Rightarrow> scan_data list" where
  "scan_children d [] = []"
| "scan_children d (name # names) =
     (if name = ''.'' \<or> name = ''..'' then scan_children d names
      else \<lparr>sd_scan_id = sd_scan_id d, sd_path = sd_path d @ ''/'' @ name\<rparr> # scan_children d names)"

definition MultiScanner_scan_one_node ::
    "file_system \<Rightarrow> scan_data \<Rightarrow> file_event \<times> scan_data list" where
  "MultiScanner_scan_one_node fs d =
     (case fs_lstat fs (sd_path d) of
        Inl errno \<Rightarrow> (scan_event d 0 0 errno UNKNOWN, [])
      | Inr st \<Rightarrow>
          (let event = scan_event d (st_mtime st) (st_blocks st * 512) in
           if S_ISLNK st then (event 0 LINK, [])
           else if \<not> S_ISDIR st then (event 0 FILE, [])
           else case fs_opendir fs (sd_path d) of
              Some errno \<Rightarrow> (event errno DIR, [])
            | None \<Rightarrow>
                (case fs_readdir fs (sd_path d) of
                   (errno, []) \<Rightarrow> (event errno DIR, [])
                 | (errno, names) \<Rightarrow> (event 0 DIR, scan_children d names))))"

definition node_event :: "file_system \<Rightarrow> scan_data \<Rightarrow> file_event" where
  "node_event fs d = fst (MultiScanner_scan_one_node fs d)"

definition node_children :: "file_system \<Rightarrow> scan_data \<Rightarrow> scan_data list" where
  "node_children fs d = snd (MultiScanner_scan_one_node fs d)"

lemma scan_event_simps [simp]:
  "fe_scan_id (scan_event d m sz e t) = sd_scan_id d"
  "fe_path (scan_event d m sz e t) = sd_path d"
  "fe_end_signal (scan_event d m sz e t) = Sentinel_init"
  by (simp_all add: scan_event_def)

lemma node_event_simps [simp]:
  "fe_scan_id (node_event fs d) = sd_scan_id d"
  "fe_path (node_event fs d) = sd_path d"
  "\<not> is_sentinel (fe_end_signal (node_event fs d))"
  by (auto simp: node_event_def MultiScanner_scan_one_node_def Let_def Sentinel_init_def
      split: sum.splits option.splits prod.splits list.splits)

lemma scan_children_set:
  "c \<in> set (scan_children d names) \<longleftrightarrow>
   (\<exists>name \<in> set names. name \<noteq> ''.'' \<and> name \<noteq> ''..'' \<and>
      c = \<lparr>sd_scan_id = sd_scan_id d, sd_path = sd_path d @ ''/'' @ name\<rparr>)"
  by (induction names) auto

lemma node_children_id: "c \<in> set (node_children fs d) \<Longrightarrow> sd_scan_id c = sd_scan_id d"
  by (auto simp: node_children_def MultiScanner_scan_one_node_def Let_def scan_children_set
      split: sum.splits option.splits prod.splits list.splits if_splits)

text \<open>The scanner descends into a path only if it is a directory that is not a symbolic link and
  could be opened and read; the children are its entries but the dot entries, each with the
  directory's path, a slash and its name.\<close>

theorem scan_one_node_children:
  "c \<in> set (snd (MultiScanner_scan_one_node fs d)) \<longleftrightarrow>
   (\<exists>st name. fs_lstat fs (sd_path d) = Inr st \<and> S_ISDIR st \<and> \<not> S_ISLNK st
      \<and> fs_opendir fs (sd_path d) = None \<and> name \<in> set (snd (fs_readdir fs (sd_path d)))
      \<and> name \<noteq> ''.'' \<and> name \<noteq> ''..''
      \<and> c = \<lparr>sd_scan_id = sd_scan_id d, sd_path = sd_path d @ ''/'' @ name\<rparr>)"
  by (auto simp: MultiScanner_scan_one_node_def Let_def scan_children_set
      split: sum.splits option.splits prod.splits list.splits)

subsection \<open>The tree under a path\<close>

text \<open>
  The specification of a scan: the events of all nodes of the tree that \<^verbatim>\<open>scan_one_node\<close> spans,
  to depth \<open>n\<close>; \<open>depth_ok\<close> says that \<open>n\<close> is deep enough.
\<close>

fun tree_events :: "file_system \<Rightarrow> nat \<Rightarrow> scan_data \<Rightarrow> file_event multiset" where
  "tree_events fs 0 d = {#}"
| "tree_events fs (Suc n) d =
     add_mset (node_event fs d) (sum_list (map (tree_events fs n) (node_children fs d)))"

fun depth_ok :: "file_system \<Rightarrow> nat \<Rightarrow> scan_data \<Rightarrow> bool" where
  "depth_ok fs 0 d = False"
| "depth_ok fs (Suc n) d = list_all (depth_ok fs n) (node_children fs d)"

lemma depth_ok_Suc: "depth_ok fs n d \<Longrightarrow> depth_ok fs (Suc n) d"
proof (induction n arbitrary: d)
  case (Suc n)
  then show ?case by (auto simp: list_all_iff)
qed simp

lemma depth_ok_children: "depth_ok fs n d \<Longrightarrow> c \<in> set (node_children fs d) \<Longrightarrow> depth_ok fs n c"
proof (cases n)
  case (Suc k)
  assume "depth_ok fs n d" "c \<in> set (node_children fs d)"
  with Suc have "depth_ok fs k c" by (simp add: list_all_iff)
  with Suc show ?thesis using depth_ok_Suc by blast
qed simp

lemma tree_events_Suc: "depth_ok fs n d \<Longrightarrow> tree_events fs (Suc n) d = tree_events fs n d"
proof (induction n arbitrary: d)
  case (Suc n)
  then have "map (tree_events fs (Suc n)) (node_children fs d)
      = map (tree_events fs n) (node_children fs d)"
    by (auto simp: list_all_iff simp del: tree_events.simps(2))
  then show ?case by (simp only: tree_events.simps(2) [of fs "Suc n"] tree_events.simps(2) [of fs n])
qed simp

text \<open>With one sufficient depth the tree unfolds at every node.\<close>

lemma tree_events_unfold:
  "depth_ok fs n d \<Longrightarrow> tree_events fs n d =
     add_mset (node_event fs d) (sum_list (map (tree_events fs n) (node_children fs d)))"
  using tree_events_Suc [of fs n d] by simp

end
