(* ===== verification/Manager.thy ===== *)
theory Manager
  imports Multi_Scanner Job_Queue Transitions
begin

section \<open>Manager and its workers (src/scan\_system/manager.cpp, multi\_scanner.cpp)\<close>

text \<open>
  The scan system as one state: the job queue of the thread pool, the contexts of the scans
  (cancellation flag and number of unfinished jobs), the registry, and one stack of activations
  per worker thread. \<^verbatim>\<open>worker_job\<close> calls itself when the queue is full, so a thread is a stack;
  its top element says where the innermost call is:

  \<^item> \<open>Begin d\<close>: entered with the job \<open>d\<close>;
  \<^item> \<open>Loop d cs\<close>: in the loop, the children \<open>cs\<close> still to be handed out (from the last);
  \<^item> \<open>Submitting d cs c\<close>: in \<^verbatim>\<open>task_on_job_submit\<close> for \<open>c\<close>, past the reservation test;
  \<^item> \<open>Ending d\<close>: at the final \<^verbatim>\<open>task_on_job_finish\<close>;
  \<^item> \<open>Closing\<close>, \<open>Signalling\<close>, \<open>Recording\<close>: in that function for the last job of a scan, before the
    scheduler's callback, before the registry is read and the sentinel pushed, before
    \<^verbatim>\<open>insert_scan_task\<close>;
  \<^item> \<open>Tail\<close>: at the end of that function.

  Each step is one atomic operation or critical section. \<open>mg_results\<close> lists what
  \<^verbatim>\<open>record_result\<close> and the sentinels pushed to the export queue, \<open>mg_rows\<close> what
  \<^verbatim>\<open>insert_scan_task\<close> got, \<open>mg_finished\<close> and \<open>mg_available\<close> the scheduler callbacks. An id gets
  one context: \<^verbatim>\<open>Scheduler\<close> draws ids from a counter and starts none twice.
\<close>

record scan_context =
  canceled :: bool
  unfinished_jobs :: int

record scan_task =
  root_path :: string
  start_time :: u64

datatype frame =
    Begin scan_data
  | Loop scan_data "scan_data list"
  | Submitting scan_data "scan_data list" scan_data
  | Ending scan_data
  | Closing scan_data
  | Signalling scan_data bool u64
  | Recording scan_task_row
  | Tail

record manager =
  mg_max_concurrent_scan :: nat
  mg_queue_max_size :: nat
  mg_queue :: "scan_data job_queue"
  mg_ctx :: "u64 \<Rightarrow> scan_context option"
  mg_registry :: "(u64 \<times> scan_task) list"
  mg_threads :: "frame list list"
  mg_dispatch_failed :: bool
  mg_unfinished_metric :: int
  mg_results :: "file_event list"
  mg_rows :: "scan_task_row list"
  mg_finished :: "u64 list"
  mg_available :: nat

definition Manager_init :: "nat \<Rightarrow> nat \<Rightarrow> nat \<Rightarrow> queue_metrics \<Rightarrow> manager" where
  "Manager_init max_concurrent_scan queue_max_size num_threads metrics =
     \<lparr>mg_max_concurrent_scan = max_concurrent_scan, mg_queue_max_size = queue_max_size,
      mg_queue = JobQueue_init Lifo metrics queue_max_size,
      mg_ctx = Map.empty, mg_registry = [], mg_threads = replicate num_threads [],
      mg_dispatch_failed = False, mg_unfinished_metric = 0, mg_results = [], mg_rows = [],
      mg_finished = [], mg_available = 0\<rparr>"

subsection \<open>Contexts\<close>

definition ctx_canceled :: "u64 \<Rightarrow> manager \<Rightarrow> bool" where
  "ctx_canceled i s = (case mg_ctx s i of Some c \<Rightarrow> canceled c | None \<Rightarrow> False)"

definition ctx_unfinished :: "u64 \<Rightarrow> manager \<Rightarrow> int" where
  "ctx_unfinished i s = (case mg_ctx s i of Some c \<Rightarrow> unfinished_jobs c | None \<Rightarrow> 0)"

definition ctx_add :: "u64 \<Rightarrow> int \<Rightarrow> manager \<Rightarrow> manager" where
  "ctx_add i n s = s\<lparr>mg_ctx := (mg_ctx s)(i := map_option
     (\<lambda>c. c\<lparr>unfinished_jobs := unfinished_jobs c + n\<rparr>) (mg_ctx s i))\<rparr>"

definition set_thread :: "nat \<Rightarrow> frame list \<Rightarrow> manager \<Rightarrow> manager" where
  "set_thread k fr s = s\<lparr>mg_threads := (mg_threads s)[k := fr]\<rparr>"

subsection \<open>Submitting and finishing jobs\<close>

text \<open>The first half of \<^verbatim>\<open>task_on_job_submit\<close>: the slots kept free for the roots of other scans.\<close>

definition Manager_enough_slots :: "manager \<Rightarrow> bool" where
  "Manager_enough_slots s =
     (let reserved = (if 1 < mg_max_concurrent_scan s then mg_max_concurrent_scan s - 1 else 0);
          used_slots = JobQueue_jobs_in_queue (mg_queue s);
          free_slots = (if used_slots < mg_queue_max_size s
                        then mg_queue_max_size s - used_slots else 0)
      in reserved < free_slots)"

definition Manager_pool_submit :: "scan_data \<Rightarrow> manager \<Rightarrow> submit_result \<times> manager" where
  "Manager_pool_submit d s =
     (case JobQueue_try_push d (mg_queue s) of (r, q, _) \<Rightarrow> (r, s\<lparr>mg_queue := q\<rparr>))"

definition sentinel_event :: "u64 \<Rightarrow> string \<Rightarrow> bool \<Rightarrow> file_event" where
  "sentinel_event i root c =
     \<lparr>fe_scan_id = i, fe_modtime = 0, fe_size = 0, fe_err = 0, fe_path = root,
      fe_node_type = UNKNOWN, fe_end_signal = \<lparr>is_sentinel = True, is_canceled = c\<rparr>\<rparr>"

text \<open>The locked section of \<^verbatim>\<open>task_on_job_finish\<close> and the push of the sentinel after it: the row for
  \<^verbatim>\<open>insert_scan_task\<close>, if the scan was registered.\<close>

definition Manager_unregister ::
    "u64 \<Rightarrow> bool \<Rightarrow> u64 \<Rightarrow> manager \<Rightarrow> scan_task_row option \<times> manager" where
  "Manager_unregister i sentinel_canceled scan_finish_time s =
     (case map_of (mg_registry s) i of
        None \<Rightarrow> (None, s)
      | Some task \<Rightarrow>
          (let s1 = s\<lparr>mg_registry := AList.delete i (mg_registry s)\<rparr> in
           if i = 0 then (None, s1)
           else (Some \<lparr>st_scan_id = i, st_start_time = start_time task,
                      st_finish_time = scan_finish_time, st_submit_root = root_path task,
                      st_end_state = (if ctx_canceled i s then CANCELED else DONE)\<rparr>,
                 s1\<lparr>mg_results := mg_results s1
                      @ [sentinel_event i (root_path task) sentinel_canceled]\<rparr>)))"

text \<open>The end of \<^verbatim>\<open>task_on_job_finish\<close>.\<close>

definition Manager_job_tail :: "manager \<Rightarrow> manager" where
  "Manager_job_tail s =
     s\<lparr>mg_available := (if mg_dispatch_failed s then Suc (mg_available s) else mg_available s),
       mg_dispatch_failed := False,
       mg_unfinished_metric := mg_unfinished_metric s - 1\<rparr>"

subsection \<open>The worker threads\<close>

definition Manager_frame_step ::
    "file_system \<Rightarrow> u64 \<Rightarrow> frame \<Rightarrow> manager \<Rightarrow> frame list \<times> manager" where
  "Manager_frame_step fs now f s =
     (case f of
        Begin d \<Rightarrow>
          (if ctx_canceled (sd_scan_id d) s then ([Ending d], s)
           else (case MultiScanner_scan_one_node fs d of (event, childrens) \<Rightarrow>
             ([Loop d childrens], s\<lparr>mg_results := mg_results s @ [event]\<rparr>)))
      | Loop d childrens \<Rightarrow>
          (if childrens = [] then ([Ending d], s)
           else let c = last childrens; cs = butlast childrens in
             if ctx_canceled (sd_scan_id c) s then ([Ending d], s)
             else (let s1 = (ctx_add (sd_scan_id c) 1 s)
                              \<lparr>mg_unfinished_metric := mg_unfinished_metric s + 1\<rparr>
                   in (if Manager_enough_slots s1 then [Submitting d cs c]
                       else [Begin c, Loop d cs], s1)))
      | Submitting d cs c \<Rightarrow>
          (case Manager_pool_submit c s of (r, s1) \<Rightarrow>
             (case r of
                Pushed \<Rightarrow> ([Loop d cs], s1)
              | Full \<Rightarrow> ([Begin c, Loop d cs], s1)
              | Shutdown \<Rightarrow>
                  ([Ending d], Manager_job_tail (ctx_add (sd_scan_id c) (-1) s1))))
      | Ending d \<Rightarrow>
          ([if ctx_unfinished (sd_scan_id d) s = 1 then Closing d else Tail],
           ctx_add (sd_scan_id d) (-1) s)
      | Closing d \<Rightarrow>
          ([Signalling d (ctx_canceled (sd_scan_id d) s) now],
           s\<lparr>mg_finished := mg_finished s @ [sd_scan_id d]\<rparr>)
      | Signalling d sc finish_time \<Rightarrow>
          (case Manager_unregister (sd_scan_id d) sc finish_time s of
             (None, s1) \<Rightarrow> ([Tail], s1)
           | (Some row, s1) \<Rightarrow> ([Recording row], s1))
      | Recording row \<Rightarrow> ([Tail], s\<lparr>mg_rows := mg_rows s @ [row]\<rparr>)
      | Tail \<Rightarrow> ([], Manager_job_tail s))"

text \<open>A thread with an empty stack is in \<^verbatim>\<open>pop\<close>.\<close>

definition Manager_work ::
    "file_system \<Rightarrow> nat \<Rightarrow> u64 \<Rightarrow> manager \<Rightarrow> manager option" where
  "Manager_work fs k now s =
     (if k < length (mg_threads s) then
        (case mg_threads s ! k of
           [] \<Rightarrow>
             (case JobQueue_pop (mg_queue s) of
                Some (Some d, q, _) \<Rightarrow> Some (set_thread k [Begin d] (s\<lparr>mg_queue := q\<rparr>))
              | _ \<Rightarrow> None)
         | f # fr \<Rightarrow>
             (case Manager_frame_step fs now f s of (new, s1) \<Rightarrow>
                Some (set_thread k (new @ fr) s1)))
      else None)"

subsection \<open>Starting, cancelling, stopping\<close>

text \<open>
  \<^verbatim>\<open>start_new_scan\<close>, with its result and \<^verbatim>\<open>queue_full\<close>. If the pool is stopped, the root job is
  also the last one and \<^verbatim>\<open>task_on_job_finish\<close> does all of its work here.
\<close>

definition Manager_start_new_scan ::
    "u64 \<Rightarrow> string \<Rightarrow> u64 \<Rightarrow> manager \<Rightarrow> (bool \<times> bool) \<times> manager" where
  "Manager_start_new_scan i root now s =
     (if map_of (mg_registry s) i \<noteq> None then ((False, False), s)
      else
        let s1 = s\<lparr>mg_registry := (i, \<lparr>root_path = root, start_time = now\<rparr>) # mg_registry s,
                   mg_ctx := (mg_ctx s)(i \<mapsto> \<lparr>canceled = False, unfinished_jobs = 1\<rparr>),
                   mg_unfinished_metric := mg_unfinished_metric s + 1\<rparr>
        in (case Manager_pool_submit \<lparr>sd_scan_id = i, sd_path = root\<rparr> s1 of (r, s2) \<Rightarrow>
              (case r of
                 Pushed \<Rightarrow> ((True, False), s2)
               | Full \<Rightarrow>
                   ((False, True),
                    s2\<lparr>mg_ctx := (mg_ctx s2)(i := None),
                       mg_unfinished_metric := mg_unfinished_metric s2 - 1,
                       mg_dispatch_failed := True,
                       mg_registry := AList.delete i (mg_registry s2)\<rparr>)
               | Shutdown \<Rightarrow>
                   (let s3 = (ctx_add i (-1) s2)\<lparr>mg_finished := mg_finished s2 @ [i]\<rparr>
                    in case Manager_unregister i False now s3 of (row, s4) \<Rightarrow>
                      ((False, False),
                       Manager_job_tail
                         (s4\<lparr>mg_rows := mg_rows s4 @ (case row of None \<Rightarrow> [] | Some r \<Rightarrow> [r])\<rparr>))))))"

definition Manager_cancel_scan :: "u64 \<Rightarrow> manager \<Rightarrow> bool \<times> manager" where
  "Manager_cancel_scan i s =
     (if map_of (mg_registry s) i = None then (False, s)
      else (True, s\<lparr>mg_ctx := (mg_ctx s)(i := map_option (\<lambda>c. c\<lparr>canceled := True\<rparr>) (mg_ctx s i))\<rparr>))"

definition Manager_shutdown_pool :: "manager \<Rightarrow> manager" where
  "Manager_shutdown_pool s = s\<lparr>mg_queue := fst (JobQueue_shutdown (mg_queue s))\<rparr>"

text \<open>The predicate of \<^verbatim>\<open>wait_to_finish\<close>, and \<^verbatim>\<open>clean_up\<close>.\<close>

definition Manager_wait_done :: "u64 \<Rightarrow> manager \<Rightarrow> bool" where
  "Manager_wait_done i s \<longleftrightarrow> map_of (mg_registry s) i = None \<or> ctx_unfinished i s = 0"

definition Manager_clean_up :: "u64 \<Rightarrow> manager \<Rightarrow> bool \<times> manager" where
  "Manager_clean_up i s =
     (if map_of (mg_registry s) i \<noteq> None \<and> ctx_unfinished i s = 0
      then (True, s\<lparr>mg_registry := AList.delete i (mg_registry s)\<rparr>) else (False, s))"

subsection \<open>Interleavings\<close>

datatype manager_move =
    Start_scan u64 string u64
  | Cancel_scan u64
  | Shutdown_pool
  | Work nat u64

fun manager_step :: "file_system \<Rightarrow> manager_move \<Rightarrow> manager \<Rightarrow> manager option" where
  "manager_step fs (Start_scan i root now) s =
     (if mg_ctx s i = None then Some (snd (Manager_start_new_scan i root now s)) else None)"
| "manager_step fs (Cancel_scan i) s = Some (snd (Manager_cancel_scan i s))"
| "manager_step fs Shutdown_pool s = Some (Manager_shutdown_pool s)"
| "manager_step fs (Work k now) s = Manager_work fs k now s"

lemmas manager_defs = Manager_frame_step_def Manager_work_def Manager_start_new_scan_def
  Manager_cancel_scan_def Manager_shutdown_pool_def Manager_unregister_def Manager_job_tail_def
  Manager_pool_submit_def

end
