(* ===== verification/Manager_Invariant.thy ===== *)
theory Manager_Invariant
  imports Manager
begin

section \<open>What the scan system keeps\<close>

subsection \<open>Sums over the activations of all threads\<close>

definition thread_sum :: "(frame \<Rightarrow> 'a::comm_monoid_add) \<Rightarrow> manager \<Rightarrow> 'a" where
  "thread_sum w s = sum_list (map (\<lambda>fr. sum_list (map w fr)) (mg_threads s))"

lemma thread_sum_cong: "mg_threads s = mg_threads t \<Longrightarrow> thread_sum w s = thread_sum w t"
  by (simp add: thread_sum_def)

lemma thread_sum_replace:
  fixes w :: "frame \<Rightarrow> 'a::cancel_comm_monoid_add"
  assumes "k < length (mg_threads s)" "mg_threads s ! k = old @ fr" "mg_threads t = mg_threads s"
  shows "thread_sum w (set_thread k (new @ fr) t) + sum_list (map w old)
    = thread_sum w s + sum_list (map w new)"
proof -
  have "thread_sum w (set_thread k (new @ fr) t) + sum_list (map w (old @ fr))
      = thread_sum w s + sum_list (map w (new @ fr))"
    using sum_list_map_update [OF assms(1), of "\<lambda>fr. sum_list (map w fr)" "new @ fr"] assms(2,3)
    by (simp add: thread_sum_def set_thread_def)
  then have "(thread_sum w (set_thread k (new @ fr) t) + sum_list (map w old)) + sum_list (map w fr)
      = (thread_sum w s + sum_list (map w new)) + sum_list (map w fr)"
    by (simp add: ac_simps)
  then show ?thesis by (rule add_right_imp_eq)
qed

lemma set_thread_simps [simp]:
  "mg_queue (set_thread k fr s) = mg_queue s" "mg_ctx (set_thread k fr s) = mg_ctx s"
  "mg_registry (set_thread k fr s) = mg_registry s" "mg_results (set_thread k fr s) = mg_results s"
  "mg_rows (set_thread k fr s) = mg_rows s" "mg_finished (set_thread k fr s) = mg_finished s"
  "mg_unfinished_metric (set_thread k fr s) = mg_unfinished_metric s"
  "mg_threads (set_thread k fr s) = (mg_threads s)[k := fr]"
  "ctx_canceled i (set_thread k fr s) = ctx_canceled i s"
  "ctx_unfinished i (set_thread k fr s) = ctx_unfinished i s"
  by (simp_all add: set_thread_def ctx_canceled_def ctx_unfinished_def)

subsection \<open>Jobs, closings, records of one scan\<close>

fun frame_jobs :: "u64 \<Rightarrow> frame \<Rightarrow> int" where
  "frame_jobs i (Begin d) = of_bool (sd_scan_id d = i)"
| "frame_jobs i (Loop d cs) = of_bool (sd_scan_id d = i)"
| "frame_jobs i (Submitting d cs c) = of_bool (sd_scan_id d = i) + of_bool (sd_scan_id c = i)"
| "frame_jobs i (Ending d) = of_bool (sd_scan_id d = i)"
| "frame_jobs i _ = 0"

fun frame_closing :: "u64 \<Rightarrow> frame \<Rightarrow> int" where
  "frame_closing i (Closing d) = of_bool (sd_scan_id d = i)"
| "frame_closing i (Signalling d c now) = of_bool (sd_scan_id d = i)"
| "frame_closing i _ = 0"

text \<open>All jobs of a call are jobs of one scan.\<close>

fun frame_ok :: "frame \<Rightarrow> bool" where
  "frame_ok (Loop d cs) = list_all (\<lambda>c. sd_scan_id c = sd_scan_id d) cs"
| "frame_ok (Submitting d cs c) = list_all (\<lambda>c. sd_scan_id c = sd_scan_id d) (c # cs)"
| "frame_ok _ = True"

definition outstanding :: "u64 \<Rightarrow> manager \<Rightarrow> int" where
  "outstanding i s = cnt (\<lambda>d. sd_scan_id d = i) (jq_container (mg_queue s))
     + thread_sum (frame_jobs i) s"

definition closing :: "u64 \<Rightarrow> manager \<Rightarrow> int" where
  "closing i s = thread_sum (frame_closing i) s"

definition results_of :: "u64 \<Rightarrow> manager \<Rightarrow> file_event list" where
  "results_of i s = filter (\<lambda>e. fe_scan_id e = i) (mg_results s)"

definition node_events :: "file_event list \<Rightarrow> bool" where
  "node_events es \<longleftrightarrow> (\<forall>e \<in> set es. \<not> is_sentinel (fe_end_signal e))"

text \<open>The phases of a scan: unknown; jobs outstanding; the last job closing it; closed, the sentinel
  being its last record.\<close>

definition closed_results :: "u64 \<Rightarrow> file_event list \<Rightarrow> bool" where
  "closed_results i rs \<longleftrightarrow> (if i = 0 then node_events rs
     else \<exists>es root c. rs = es @ [sentinel_event i root c] \<and> node_events es)"

definition phase_ok ::
    "u64 \<Rightarrow> scan_context option \<Rightarrow> int \<Rightarrow> int \<Rightarrow> bool \<Rightarrow> file_event list \<Rightarrow> bool" where
  "phase_ok i ctx jobs closings registered rs \<longleftrightarrow>
     (case ctx of
        None \<Rightarrow> jobs = 0 \<and> closings = 0 \<and> \<not> registered \<and> rs = []
      | Some c \<Rightarrow> unfinished_jobs c = jobs \<and>
          (if 0 < jobs then closings = 0 \<and> registered \<and> node_events rs
           else jobs = 0 \<and>
             (closings = 1 \<and> registered \<and> node_events rs
              \<or> closings = 0 \<and> \<not> registered \<and> closed_results i rs)))"

definition scan_ok :: "u64 \<Rightarrow> manager \<Rightarrow> bool" where
  "scan_ok i s \<longleftrightarrow> phase_ok i (mg_ctx s i) (outstanding i s) (closing i s)
     (map_of (mg_registry s) i \<noteq> None) (results_of i s)"

definition frames_ok :: "manager \<Rightarrow> bool" where
  "frames_ok s \<longleftrightarrow> (\<forall>fr \<in> set (mg_threads s). \<forall>f \<in> set fr. frame_ok f)"

definition manager_inv :: "manager \<Rightarrow> bool" where
  "manager_inv s \<longleftrightarrow> frames_ok s \<and> (\<forall>i. scan_ok i s)"

lemma frame_jobs_nonneg [simp]: "0 \<le> frame_jobs i f"
  by (cases f) auto

lemma frame_closing_nonneg [simp]: "0 \<le> frame_closing i f"
  by (cases f) auto

lemma thread_sum_nonneg: "(\<And>f. 0 \<le> (w f :: int)) \<Longrightarrow> 0 \<le> thread_sum w s"
  unfolding thread_sum_def by (intro sum_list_nonneg) (auto intro!: sum_list_nonneg)

lemma thread_sum_ge:
  fixes w :: "frame \<Rightarrow> int"
  assumes "k < length (mg_threads s)" "mg_threads s ! k = f # fr" "\<And>f. 0 \<le> w f"
  shows "w f \<le> thread_sum w s"
proof -
  have "thread_sum w (set_thread k ([] @ fr) s) + sum_list (map w [f]) = thread_sum w s + sum_list (map w [])"
    by (rule thread_sum_replace) (use assms in simp_all)
  then show ?thesis using thread_sum_nonneg [of w "set_thread k fr s", OF assms(3)] by simp
qed

lemma outstanding_nonneg: "0 \<le> outstanding i s"
  using thread_sum_nonneg [of "frame_jobs i"] by (simp add: outstanding_def)

lemma closing_nonneg: "0 \<le> closing i s"
  using thread_sum_nonneg [of "frame_closing i"] by (simp add: closing_def)

lemma node_events_simps [simp]:
  "node_events []" "node_events (es @ fs) = (node_events es \<and> node_events fs)"
  "node_events (e # es) = (\<not> is_sentinel (fe_end_signal e) \<and> node_events es)"
  by (auto simp: node_events_def)

subsection \<open>One step of one activation\<close>

text \<open>How a step of the top activation changes the sums: the difference between the new
  activations and the old one.\<close>

lemma work_frame:
  assumes "k < length (mg_threads s)" "mg_threads s ! k = f # fr"
    and "Manager_frame_step fs now f s = (new, s1)" "mg_threads s1 = mg_threads s"
  shows "thread_sum w (set_thread k (new @ fr) s1) + (w f :: int) = thread_sum w s + sum_list (map w new)"
  using thread_sum_replace [of k s "[f]" fr s1 w new] assms by simp

lemma frame_step_threads: "Manager_frame_step fs now f s = (new, s1) \<Longrightarrow> mg_threads s1 = mg_threads s"
  by (cases f)
    (auto simp: Manager_frame_step_def Manager_unregister_def Manager_job_tail_def ctx_add_def
      Manager_pool_submit_def Let_def split: if_splits prod.splits option.splits submit_result.splits)

lemma unfinished_eq: "mg_ctx s i = Some c \<Longrightarrow> ctx_unfinished i s = unfinished_jobs c"
  by (simp add: ctx_unfinished_def)

lemma ctx_add_simps [simp]:
  "mg_queue (ctx_add i n s) = mg_queue s" "mg_registry (ctx_add i n s) = mg_registry s"
  "mg_results (ctx_add i n s) = mg_results s" "mg_threads (ctx_add i n s) = mg_threads s"
  "mg_ctx (ctx_add i n s) j = (if j = i then map_option
     (\<lambda>c. c\<lparr>unfinished_jobs := unfinished_jobs c + n\<rparr>) (mg_ctx s i) else mg_ctx s j)"
  "ctx_canceled j (ctx_add i n s) = ctx_canceled j s"
  by (auto simp: ctx_add_def ctx_canceled_def split: option.splits)

lemma job_tail_simps [simp]:
  "mg_queue (Manager_job_tail s) = mg_queue s" "mg_ctx (Manager_job_tail s) = mg_ctx s"
  "mg_registry (Manager_job_tail s) = mg_registry s" "mg_results (Manager_job_tail s) = mg_results s"
  "mg_threads (Manager_job_tail s) = mg_threads s"
  by (simp_all add: Manager_job_tail_def)

text \<open>Phases and their changes.\<close>

lemma phase_jobs_add:
  "phase_ok i ctx n 0 r rs \<Longrightarrow> 0 < n \<Longrightarrow> 0 < n + m \<Longrightarrow>
   phase_ok i (map_option (\<lambda>c. c\<lparr>unfinished_jobs := unfinished_jobs c + m\<rparr>) ctx) (n + m) 0 r rs"
  by (auto simp: phase_ok_def split: option.splits)

lemma phase_jobs_pos: "phase_ok i ctx n cl r rs \<Longrightarrow> 0 < n \<Longrightarrow> cl = 0 \<and> r \<and> node_events rs \<and> ctx \<noteq> None"
  by (auto simp: phase_ok_def split: option.splits)

lemma phase_closing_pos:
  "phase_ok i ctx n cl r rs \<Longrightarrow> 0 < cl \<Longrightarrow> n = 0 \<and> cl = 1 \<and> r \<and> node_events rs \<and> ctx \<noteq> None"
  by (auto simp: phase_ok_def split: option.splits if_splits)

lemma phase_record:
  "phase_ok i ctx n cl r rs \<Longrightarrow> 0 < n \<Longrightarrow> \<not> is_sentinel (fe_end_signal e) \<Longrightarrow>
   phase_ok i ctx n cl r (rs @ [e])"
  by (auto simp: phase_ok_def split: option.splits)

lemma phase_last_job:
  "phase_ok i ctx 1 cl r rs \<Longrightarrow>
   phase_ok i (map_option (\<lambda>c. c\<lparr>unfinished_jobs := unfinished_jobs c + -1\<rparr>) ctx) 0 1 r rs"
  by (auto simp: phase_ok_def split: option.splits)

lemma phase_close:
  "phase_ok i ctx 0 1 True rs \<Longrightarrow>
   phase_ok i ctx 0 0 False (if i = 0 then rs else rs @ [sentinel_event i root c])"
  by (auto simp: phase_ok_def closed_results_def split: option.splits)

lemma thread_sum_threads: "mg_threads t = mg_threads s \<Longrightarrow> thread_sum w t = thread_sum w s"
  by (simp add: thread_sum_def)

lemma results_of_append [simp]:
  "results_of i (s\<lparr>mg_results := es @ [e]\<rparr>) =
     filter (\<lambda>e. fe_scan_id e = i) es @ (if fe_scan_id e = i then [e] else [])"
  by (simp add: results_of_def)

text \<open>The common shape of the cases: what the step does to each ingredient of \<^const>\<open>scan_ok\<close>.\<close>

lemma scan_ok_work:
  assumes k: "k < length (mg_threads s)" "mg_threads s ! k = f # fr"
    and st: "Manager_frame_step fs now f s = (new, s1)"
    and ph: "\<And>n cl. outstanding i s = n \<Longrightarrow> closing i s = cl \<Longrightarrow> frame_jobs i f \<le> n \<Longrightarrow>
       frame_closing i f \<le> cl \<Longrightarrow>
       phase_ok i (mg_ctx s i) n cl (map_of (mg_registry s) i \<noteq> None) (results_of i s) \<Longrightarrow>
       phase_ok i (mg_ctx s1 i)
         (n + cnt (\<lambda>d. sd_scan_id d = i) (jq_container (mg_queue s1))
            - cnt (\<lambda>d. sd_scan_id d = i) (jq_container (mg_queue s))
            + sum_list (map (frame_jobs i) new) - frame_jobs i f)
         (cl + sum_list (map (frame_closing i) new) - frame_closing i f)
         (map_of (mg_registry s1) i \<noteq> None) (results_of i s1)"
    and ok: "scan_ok i s"
  shows "scan_ok i (set_thread k (new @ fr) s1)"
proof -
  note t = frame_step_threads [OF st]
  have j: "thread_sum (frame_jobs i) (set_thread k (new @ fr) s1)
      = thread_sum (frame_jobs i) s + sum_list (map (frame_jobs i) new) - frame_jobs i f"
    using work_frame [OF k st t, of "frame_jobs i"] by simp
  have c: "thread_sum (frame_closing i) (set_thread k (new @ fr) s1)
      = thread_sum (frame_closing i) s + sum_list (map (frame_closing i) new) - frame_closing i f"
    using work_frame [OF k st t, of "frame_closing i"] by simp
  have "frame_jobs i f \<le> outstanding i s" "frame_closing i f \<le> closing i s"
    using thread_sum_ge [OF k, of "frame_jobs i"] thread_sum_ge [OF k, of "frame_closing i"]
    by (simp_all add: outstanding_def closing_def add_increasing)
  from ph [OF refl refl this] ok show ?thesis
    by (simp add: scan_ok_def outstanding_def closing_def j c results_of_def algebra_simps)
qed

text \<open>The steps, by the call's place.\<close>

lemma begin_step:
  "Manager_frame_step fs now (Begin d) s =
     (if ctx_canceled (sd_scan_id d) s then ([Ending d], s)
      else ([Loop d (node_children fs d)], s\<lparr>mg_results := mg_results s @ [node_event fs d]\<rparr>))"
  by (simp add: Manager_frame_step_def node_event_def node_children_def split_beta)

lemma scan_ok_begin:
  assumes "k < length (mg_threads s)" "mg_threads s ! k = Begin d # fr"
    and "Manager_frame_step fs now (Begin d) s = (new, s1)" "scan_ok i s"
  shows "scan_ok i (set_thread k (new @ fr) s1)"
  using assms(3)
  by (intro scan_ok_work [OF assms(1-3) _ assms(4)])
    (auto simp: begin_step results_of_def split: if_splits intro!: phase_record)

lemma scan_ok_loop:
  assumes "k < length (mg_threads s)" "mg_threads s ! k = Loop d cs # fr"
    and "Manager_frame_step fs now (Loop d cs) s = (new, s1)" "scan_ok i s"
    and fo: "frame_ok (Loop d cs)"
  shows "scan_ok i (set_thread k (new @ fr) s1)"
proof (cases cs rule: rev_cases)
  case Nil
  with assms(3) show ?thesis
    by (intro scan_ok_work [OF assms(1-3) _ assms(4)]) (auto simp: Manager_frame_step_def)
next
  case (snoc cs' c)
  have c: "sd_scan_id c = sd_scan_id d" using fo snoc by simp
  show ?thesis
  proof (intro scan_ok_work [OF assms(1-3) _ assms(4)])
    fix n cl
    assume ph: "phase_ok i (mg_ctx s i) n cl (map_of (mg_registry s) i \<noteq> None) (results_of i s)"
      and n: "frame_jobs i (Loop d cs) \<le> n"
    have add: "phase_ok i (map_option (\<lambda>c. c\<lparr>unfinished_jobs := unfinished_jobs c + 1\<rparr>) (mg_ctx s i))
        (1 + n) 0 (map_of (mg_registry s) i \<noteq> None) (results_of i s)" if "sd_scan_id d = i"
      using phase_jobs_add [of i _ n _ _ 1] phase_jobs_pos [OF ph] ph n that
      by (simp add: add.commute)
    show "phase_ok i (mg_ctx s1 i)
         (n + cnt (\<lambda>d. sd_scan_id d = i) (jq_container (mg_queue s1))
            - cnt (\<lambda>d. sd_scan_id d = i) (jq_container (mg_queue s))
            + sum_list (map (frame_jobs i) new) - frame_jobs i (Loop d cs))
         (cl + sum_list (map (frame_closing i) new) - frame_closing i (Loop d cs))
         (map_of (mg_registry s1) i \<noteq> None) (results_of i s1)"
      using assms(3) snoc c ph add phase_jobs_pos [OF ph] n
      by (auto simp: Manager_frame_step_def Let_def results_of_def split: if_splits)
  qed
qed

lemma scan_ok_submitting:
  assumes "k < length (mg_threads s)" "mg_threads s ! k = Submitting d cs c # fr"
    and "Manager_frame_step fs now (Submitting d cs c) s = (new, s1)" "scan_ok i s"
    and fo: "frame_ok (Submitting d cs c)"
  shows "scan_ok i (set_thread k (new @ fr) s1)"
proof -
  have c: "sd_scan_id c = sd_scan_id d" using fo by simp
  show ?thesis
  proof (intro scan_ok_work [OF assms(1-3) _ assms(4)])
    fix n cl
    assume ph: "phase_ok i (mg_ctx s i) n cl (map_of (mg_registry s) i \<noteq> None) (results_of i s)"
      and n: "frame_jobs i (Submitting d cs c) \<le> n"
    have sub: "phase_ok i (map_option (\<lambda>c. c\<lparr>unfinished_jobs := unfinished_jobs c + -1\<rparr>) (mg_ctx s i))
        (n + -1) 0 (map_of (mg_registry s) i \<noteq> None) (results_of i s)" if "sd_scan_id d = i"
      using phase_jobs_add [of i _ n _ _ "-1"] phase_jobs_pos [OF ph] ph n c that by simp
    show "phase_ok i (mg_ctx s1 i)
         (n + cnt (\<lambda>d. sd_scan_id d = i) (jq_container (mg_queue s1))
            - cnt (\<lambda>d. sd_scan_id d = i) (jq_container (mg_queue s))
            + sum_list (map (frame_jobs i) new) - frame_jobs i (Submitting d cs c))
         (cl + sum_list (map (frame_closing i) new) - frame_closing i (Submitting d cs c))
         (map_of (mg_registry s1) i \<noteq> None) (results_of i s1)"
      using assms(3) c ph sub phase_jobs_pos [OF ph] n
      by (auto simp: Manager_frame_step_def Manager_pool_submit_def JobQueue_try_push_def
          jq_rejected_def jq_accepted_def results_of_def split: if_splits)
  qed
qed

lemma scan_ok_ending:
  assumes "k < length (mg_threads s)" "mg_threads s ! k = Ending d # fr"
    and "Manager_frame_step fs now (Ending d) s = (new, s1)" "scan_ok i s"
  shows "scan_ok i (set_thread k (new @ fr) s1)"
proof (intro scan_ok_work [OF assms(1-3) _ assms(4)])
  fix n cl
  assume ph: "phase_ok i (mg_ctx s i) n cl (map_of (mg_registry s) i \<noteq> None) (results_of i s)"
    and n: "frame_jobs i (Ending d) \<le> n"
  have u: "ctx_unfinished i s = n" if "sd_scan_id d = i"
    using ph n that by (auto simp: phase_ok_def ctx_unfinished_def split: option.splits)
  have sub: "phase_ok i (map_option (\<lambda>c. c\<lparr>unfinished_jobs := unfinished_jobs c + -1\<rparr>) (mg_ctx s i))
      (n + -1) 0 (map_of (mg_registry s) i \<noteq> None) (results_of i s)" if "sd_scan_id d = i" "n \<noteq> 1"
    using phase_jobs_add [of i _ n _ _ "-1"] phase_jobs_pos [OF ph] ph n that by simp
  show "phase_ok i (mg_ctx s1 i)
       (n + cnt (\<lambda>d. sd_scan_id d = i) (jq_container (mg_queue s1))
          - cnt (\<lambda>d. sd_scan_id d = i) (jq_container (mg_queue s))
          + sum_list (map (frame_jobs i) new) - frame_jobs i (Ending d))
       (cl + sum_list (map (frame_closing i) new) - frame_closing i (Ending d))
       (map_of (mg_registry s1) i \<noteq> None) (results_of i s1)"
    using assms(3) ph sub phase_last_job [of i "mg_ctx s i" cl] phase_jobs_pos [OF ph] n u
    by (auto simp: Manager_frame_step_def results_of_def split: if_splits)
qed

lemma scan_ok_signalling:
  assumes "k < length (mg_threads s)" "mg_threads s ! k = Signalling d sc fin # fr"
    and "Manager_frame_step fs now (Signalling d sc fin) s = (new, s1)" "scan_ok i s"
  shows "scan_ok i (set_thread k (new @ fr) s1)"
proof (intro scan_ok_work [OF assms(1-3) _ assms(4)])
  fix n cl
  assume ph: "phase_ok i (mg_ctx s i) n cl (map_of (mg_registry s) i \<noteq> None) (results_of i s)"
    and cl: "frame_closing i (Signalling d sc fin) \<le> cl"
  have close: "n = 0" "cl = 1" "map_of (mg_registry s) i \<noteq> None"
      "\<And>root c. phase_ok i (mg_ctx s i) 0 0 False
        (if i = 0 then results_of i s else results_of i s @ [sentinel_event i root c])"
    if "sd_scan_id d = i"
    using phase_closing_pos [OF ph] cl that ph phase_close [of i "mg_ctx s i" "results_of i s"]
    by (auto simp del: not_None_eq)
  show "phase_ok i (mg_ctx s1 i)
       (n + cnt (\<lambda>d. sd_scan_id d = i) (jq_container (mg_queue s1))
          - cnt (\<lambda>d. sd_scan_id d = i) (jq_container (mg_queue s))
          + sum_list (map (frame_jobs i) new) - frame_jobs i (Signalling d sc fin))
       (cl + sum_list (map (frame_closing i) new) - frame_closing i (Signalling d sc fin))
       (map_of (mg_registry s1) i \<noteq> None) (results_of i s1)"
  proof (cases "sd_scan_id d = i")
    case True
    with close(3) obtain task where "map_of (mg_registry s) i = Some task" by auto
    with True assms(3) close(1,2) close(4) [of "root_path task" sc] show ?thesis
      by (auto simp: Manager_frame_step_def Manager_unregister_def Let_def results_of_def
          sentinel_event_def delete_conv' split: if_splits)
  next
    case False
    with assms(3) ph show ?thesis
      by (auto simp: Manager_frame_step_def Manager_unregister_def Let_def results_of_def
          sentinel_event_def delete_conv' split: if_splits option.splits)
  qed
qed

lemma scan_ok_frame:
  assumes k: "k < length (mg_threads s)" "mg_threads s ! k = f # fr"
    and st: "Manager_frame_step fs now f s = (new, s1)" and ok: "scan_ok i s" and fo: "frame_ok f"
  shows "scan_ok i (set_thread k (new @ fr) s1)"
proof (cases f)
  case (Begin d)
  with assms show ?thesis using scan_ok_begin [of k s d fr fs now new s1 i] by simp
next
  case (Loop d cs)
  with assms show ?thesis using scan_ok_loop [of k s d cs fr fs now new s1 i] by simp
next
  case (Submitting d cs c)
  with assms show ?thesis using scan_ok_submitting [of k s d cs c fr fs now new s1 i] by simp
next
  case (Ending d)
  with assms show ?thesis using scan_ok_ending [of k s d fr fs now new s1 i] by simp
next
  case (Signalling d sc fin)
  with assms show ?thesis using scan_ok_signalling [of k s d sc fin fr fs now new s1 i] by simp
qed (rule scan_ok_work [OF k st _ ok]; use st in \<open>auto simp: Manager_frame_step_def results_of_def\<close>)+

lemma frames_ok_frame:
  assumes "frames_ok s" "mg_threads s ! k = f # fr" "k < length (mg_threads s)"
    and "Manager_frame_step fs now f s = (new, s1)"
  shows "frames_ok (set_thread k (new @ fr) s1)"
proof -
  have f: "frame_ok f" "\<forall>g \<in> set fr. frame_ok g"
    using assms(1-3) nth_mem [OF assms(3)] by (force simp: frames_ok_def)+
  have "\<forall>g \<in> set new. frame_ok g"
    using f(1) assms(4)
    by (cases f)
      (auto simp: Manager_frame_step_def Let_def list_all_iff Manager_pool_submit_def split_beta
        node_children_def [symmetric] node_children_id split: if_splits option.splits submit_result.splits
        intro: last_in_set, (metis in_set_butlastD)+)
  with f frame_step_threads [OF assms(4)] assms(1) show ?thesis
    by (auto simp: frames_ok_def dest!: set_update_subset_insert [THEN subsetD])
qed

subsection \<open>The moves\<close>

lemma scan_ok_frame_eq:
  "scan_ok i s \<Longrightarrow> mg_queue t = mg_queue s \<Longrightarrow> mg_ctx t i = mg_ctx s i \<Longrightarrow>
   mg_registry t = mg_registry s \<Longrightarrow> mg_threads t = mg_threads s \<Longrightarrow> mg_results t = mg_results s \<Longrightarrow>
   scan_ok i t"
  by (simp add: scan_ok_def outstanding_def closing_def results_of_def thread_sum_def)

lemma closed_single: "closed_results i [sentinel_event i root c] \<longleftrightarrow> i \<noteq> 0"
  by (auto simp: closed_results_def sentinel_event_def)

lemma closed_Nil: "closed_results i [] \<longleftrightarrow> i = 0"
  by (simp add: closed_results_def)

lemma sentinel_event_id: "fe_scan_id (sentinel_event i root c) = i"
  by (simp add: sentinel_event_def)

lemma phase_ok_cancel:
  "phase_ok i (map_option (\<lambda>c. c\<lparr>canceled := b\<rparr>) ctx) n cl r rs = phase_ok i ctx n cl r rs"
  by (cases ctx) (simp_all add: phase_ok_def)

lemma manager_inv_cancel:
  assumes "manager_inv s"
  shows "manager_inv (snd (Manager_cancel_scan i s))"
proof -
  have "scan_ok j (snd (Manager_cancel_scan i s))" for j
  proof (cases "map_of (mg_registry s) i = None")
    case True
    with assms show ?thesis by (simp add: manager_inv_def Manager_cancel_scan_def)
  next
    case False
    have "scan_ok j s" using assms by (simp add: manager_inv_def)
    with False show ?thesis
      by (cases "j = i") (auto simp: scan_ok_def outstanding_def closing_def
        results_of_def thread_sum_def Manager_cancel_scan_def phase_ok_cancel)
  qed
  with assms show ?thesis by (auto simp: manager_inv_def frames_ok_def Manager_cancel_scan_def)
qed

lemma manager_inv_shutdown: "manager_inv s \<Longrightarrow> manager_inv (Manager_shutdown_pool s)"
  by (simp add: manager_inv_def scan_ok_def outstanding_def closing_def results_of_def
      thread_sum_def Manager_shutdown_pool_def frames_ok_def JobQueue_shutdown_def)

lemma cnt_pop:
  assumes "JobQueue_pop q = Some (Some d, q', g)"
  shows "cnt P (jq_container q) = cnt P (jq_container q') + of_bool (P d)"
proof (cases "jq_policy q")
  case Fifo
  with assms show ?thesis
    by (cases "jq_container q") (auto simp: JobQueue_pop_def jq_taken_def split: if_splits)
next
  case Lifo
  with assms show ?thesis
    by (cases "jq_container q" rule: rev_cases)
      (auto simp: JobQueue_pop_def jq_taken_def split: if_splits)
qed

lemma manager_inv_pop:
  assumes inv: "manager_inv s" and k: "k < length (mg_threads s)" "mg_threads s ! k = []"
    and pop: "JobQueue_pop (mg_queue s) = Some (Some d, q, g)"
  shows "manager_inv (set_thread k [Begin d] (s\<lparr>mg_queue := q\<rparr>))"
proof -
  have "thread_sum w (set_thread k [Begin d] (s\<lparr>mg_queue := q\<rparr>)) = thread_sum w s + w (Begin d)"
    for w :: "frame \<Rightarrow> int"
    using thread_sum_replace [of k s "[]" "[]" "s\<lparr>mg_queue := q\<rparr>" w "[Begin d]"] k by simp
  then have "outstanding i (set_thread k [Begin d] (s\<lparr>mg_queue := q\<rparr>)) = outstanding i s"
      "closing i (set_thread k [Begin d] (s\<lparr>mg_queue := q\<rparr>)) = closing i s" for i
    using cnt_pop [OF pop, of "\<lambda>d. sd_scan_id d = i"] by (simp_all add: outstanding_def closing_def)
  then have "scan_ok i (set_thread k [Begin d] (s\<lparr>mg_queue := q\<rparr>))" for i
    using inv by (simp add: manager_inv_def scan_ok_def results_of_def)
  moreover have "frames_ok (set_thread k [Begin d] (s\<lparr>mg_queue := q\<rparr>))"
    using inv by (auto simp: manager_inv_def frames_ok_def dest!: set_update_subset_insert [THEN subsetD])
  ultimately show ?thesis by (simp add: manager_inv_def)
qed

lemma try_push_cases:
  assumes "JobQueue_try_push x q = (r, q', g)"
  obtains "r = Shutdown" "jq_stop_flag q" "jq_container q' = jq_container q" "jq_stop_flag q'"
  | "r = Full" "\<not> jq_stop_flag q" "jq_container q' = jq_container q" "\<not> jq_stop_flag q'"
  | "r = Pushed" "\<not> jq_stop_flag q" "jq_container q' = jq_container q @ [x]" "\<not> jq_stop_flag q'"
  using assms
  by (auto simp: JobQueue_try_push_def jq_rejected_def jq_accepted_def split: if_splits)

text \<open>What starting a scan does, by the pool's answer.\<close>

lemma start_cases:
  fixes i root now s
  defines "t \<equiv> snd (Manager_start_new_scan i root now s)"
  assumes "map_of (mg_registry s) i = None"
  obtains (pushed) "fst (Manager_start_new_scan i root now s) = (True, False)"
      "jq_container (mg_queue t) = jq_container (mg_queue s) @ [\<lparr>sd_scan_id = i, sd_path = root\<rparr>]"
      "\<not> jq_stop_flag (mg_queue t)" "mg_threads t = mg_threads s" "mg_results t = mg_results s"
      "mg_ctx t = (mg_ctx s)(i \<mapsto> \<lparr>canceled = False, unfinished_jobs = 1\<rparr>)"
      "mg_registry t = (i, \<lparr>root_path = root, start_time = now\<rparr>) # mg_registry s"
      "mg_unfinished_metric t = mg_unfinished_metric s + 1" "mg_finished t = mg_finished s"
  | (full) "fst (Manager_start_new_scan i root now s) = (False, True)"
      "jq_container (mg_queue t) = jq_container (mg_queue s)" "\<not> jq_stop_flag (mg_queue t)"
      "mg_threads t = mg_threads s" "mg_results t = mg_results s" "mg_ctx t = (mg_ctx s)(i := None)"
      "mg_registry t = AList.delete i (mg_registry s)"
      "mg_unfinished_metric t = mg_unfinished_metric s" "mg_finished t = mg_finished s"
  | (stopped) "fst (Manager_start_new_scan i root now s) = (False, False)"
      "jq_container (mg_queue t) = jq_container (mg_queue s)" "jq_stop_flag (mg_queue t)"
      "mg_threads t = mg_threads s"
      "mg_results t = mg_results s @ (if i = 0 then [] else [sentinel_event i root False])"
      "mg_ctx t = (mg_ctx s)(i \<mapsto> \<lparr>canceled = False, unfinished_jobs = 0\<rparr>)"
      "mg_registry t = AList.delete i (mg_registry s)"
      "mg_unfinished_metric t = mg_unfinished_metric s" "mg_finished t = mg_finished s @ [i]"
proof -
  obtain r q g where push:
    "JobQueue_try_push \<lparr>sd_scan_id = i, sd_path = root\<rparr> (mg_queue s) = (r, q, g)"
    by (metis prod_cases3)
  note defs = Manager_start_new_scan_def Manager_pool_submit_def Let_def Manager_unregister_def
    Manager_job_tail_def ctx_add_def
  show thesis
  proof (cases rule: try_push_cases [OF push])
    case 1
    then show ?thesis using assms(2) push
      by (intro stopped) (auto simp: t_def defs)
  next
    case 2
    then show ?thesis using assms(2) push by (intro full) (auto simp: t_def defs)
  next
    case 3
    then show ?thesis using assms(2) push by (intro pushed) (auto simp: t_def defs)
  qed
qed

lemma manager_inv_start:
  assumes inv: "manager_inv s" and fresh: "mg_ctx s i = None"
  shows "manager_inv (snd (Manager_start_new_scan i root now s))" (is "manager_inv ?t")
proof -
  have ok: "scan_ok j s" for j using inv by (simp add: manager_inv_def)
  have i: "outstanding i s = 0" "closing i s = 0" "map_of (mg_registry s) i = None" "results_of i s = []"
    using ok [of i] fresh by (auto simp: scan_ok_def phase_ok_def)
  have th: "mg_threads ?t = mg_threads s"
    by (cases rule: start_cases [OF i(3), of root now]) auto
  note sum = thread_sum_threads [OF th]
  have "scan_ok j ?t" if "j \<noteq> i" for j
    using ok [of j] that
    by (cases rule: start_cases [OF i(3), of root now])
      (simp_all add: scan_ok_def outstanding_def closing_def results_of_def sum delete_conv'
        sentinel_event_def)
  moreover have "scan_ok i ?t"
    using i by (cases rule: start_cases [OF i(3), of root now])
      (simp_all add: scan_ok_def outstanding_def closing_def results_of_def sum delete_conv'
        phase_ok_def closed_single closed_Nil sentinel_event_id)
  moreover have "frames_ok ?t" using inv th by (simp add: manager_inv_def frames_ok_def)
  ultimately show ?thesis unfolding manager_inv_def by metis
qed

lemma manager_inv_step:
  assumes inv: "manager_inv s" and t: "manager_step fs m s = Some t"
  shows "manager_inv t"
proof (cases m)
  case (Start_scan i root now)
  with assms manager_inv_start show ?thesis by (auto split: if_splits)
next
  case (Cancel_scan i)
  with assms manager_inv_cancel show ?thesis by auto
next
  case Shutdown_pool
  with assms manager_inv_shutdown show ?thesis by auto
next
  case (Work k now)
  with t have w: "Manager_work fs k now s = Some t" by simp
  then have k: "k < length (mg_threads s)" by (simp add: Manager_work_def split: if_splits)
  show ?thesis
  proof (cases "mg_threads s ! k")
    case Nil
    with w k obtain d q g where "JobQueue_pop (mg_queue s) = Some (Some d, q, g)"
        "t = set_thread k [Begin d] (s\<lparr>mg_queue := q\<rparr>)"
      by (auto simp: Manager_work_def split: option.splits prod.splits)
    with manager_inv_pop [OF inv k Nil] show ?thesis by simp
  next
    case (Cons f fr)
    obtain new s1 where st: "Manager_frame_step fs now f s = (new, s1)" by (cases "Manager_frame_step fs now f s")
    with Cons w k have "t = set_thread k (new @ fr) s1" by (simp add: Manager_work_def)
    moreover have "frame_ok f"
      using inv Cons nth_mem [OF k] by (force simp: manager_inv_def frames_ok_def)
    ultimately show ?thesis
      using scan_ok_frame [OF k Cons st] frames_ok_frame [OF _ Cons k st] inv
      by (simp add: manager_inv_def)
  qed
qed

interpretation manager: invariant "manager_step fs" manager_inv for fs
  by unfold_locales (rule manager_inv_step)

lemma manager_inv_init: "manager_inv (Manager_init m q n metrics)"
  by (simp add: manager_inv_def frames_ok_def Manager_init_def scan_ok_def phase_ok_def
      outstanding_def closing_def results_of_def thread_sum_def JobQueue_init_def map_replicate
      sum_list_replicate)

end
