(* ===== verification/Manager_Tree.thy ===== *)
theory Manager_Tree
  imports Manager_Invariant
begin

section \<open>What a scan records: the tree under its root\<close>

subsection \<open>Recorded, outstanding and lost nodes\<close>

text \<open>The nodes that a pending activation of scan \<open>i\<close> will still record.\<close>

fun frame_work :: "file_system \<Rightarrow> nat \<Rightarrow> u64 \<Rightarrow> frame \<Rightarrow> file_event multiset" where
  "frame_work fs n i (Begin d) = (if sd_scan_id d = i then tree_events fs n d else {#})"
| "frame_work fs n i (Loop d cs) =
     (if sd_scan_id d = i then sum_list (map (tree_events fs n) cs) else {#})"
| "frame_work fs n i (Submitting d cs c) =
     (if sd_scan_id d = i then sum_list (map (tree_events fs n) cs) + tree_events fs n c else {#})"
| "frame_work fs n i _ = {#}"

fun frame_depth :: "file_system \<Rightarrow> nat \<Rightarrow> u64 \<Rightarrow> frame \<Rightarrow> bool" where
  "frame_depth fs n i (Begin d) = (sd_scan_id d = i \<longrightarrow> depth_ok fs n d)"
| "frame_depth fs n i (Loop d cs) = (sd_scan_id d = i \<longrightarrow> list_all (depth_ok fs n) cs)"
| "frame_depth fs n i (Submitting d cs c) = (sd_scan_id d = i \<longrightarrow> list_all (depth_ok fs n) (c # cs))"
| "frame_depth fs n i _ = True"

definition queue_work :: "file_system \<Rightarrow> nat \<Rightarrow> u64 \<Rightarrow> scan_data list \<Rightarrow> file_event multiset" where
  "queue_work fs n i q = sum_list (map (\<lambda>d. if sd_scan_id d = i then tree_events fs n d else {#}) q)"

definition work :: "file_system \<Rightarrow> nat \<Rightarrow> u64 \<Rightarrow> manager \<Rightarrow> file_event multiset" where
  "work fs n i s = queue_work fs n i (jq_container (mg_queue s)) + thread_sum (frame_work fs n i) s"

definition recorded :: "u64 \<Rightarrow> manager \<Rightarrow> file_event multiset" where
  "recorded i s = mset (filter (\<lambda>e. \<not> is_sentinel (fe_end_signal e)) (results_of i s))"

definition depths_ok :: "file_system \<Rightarrow> nat \<Rightarrow> u64 \<Rightarrow> manager \<Rightarrow> bool" where
  "depths_ok fs n i s \<longleftrightarrow>
     (\<forall>d \<in> set (jq_container (mg_queue s)). sd_scan_id d = i \<longrightarrow> depth_ok fs n d)
     \<and> (\<forall>fr \<in> set (mg_threads s). \<forall>f \<in> set fr. frame_depth fs n i f)"

text \<open>Until it is cancelled or the pool is stopped, a scan loses no node.\<close>

definition track :: "file_system \<Rightarrow> nat \<Rightarrow> u64 \<Rightarrow> file_event multiset \<Rightarrow> manager \<Rightarrow> bool" where
  "track fs n i tree s \<longleftrightarrow> depths_ok fs n i s \<and> mg_ctx s i \<noteq> None \<and>
     (\<exists>lost. recorded i s + work fs n i s + lost = tree
        \<and> (\<not> ctx_canceled i s \<and> \<not> jq_stop_flag (mg_queue s) \<longrightarrow> lost = {#}))"

lemma trackI:
  "depths_ok fs n i s \<Longrightarrow> mg_ctx s i \<noteq> None \<Longrightarrow> recorded i s + work fs n i s + lost = tree \<Longrightarrow>
   (\<not> ctx_canceled i s \<Longrightarrow> \<not> jq_stop_flag (mg_queue s) \<Longrightarrow> lost = {#}) \<Longrightarrow> track fs n i tree s"
  unfolding track_def by blast

lemma queue_work_simps [simp]:
  "queue_work fs n i [] = {#}"
  "queue_work fs n i (d # q) =
     (if sd_scan_id d = i then tree_events fs n d else {#}) + queue_work fs n i q"
  "queue_work fs n i (p @ q) = queue_work fs n i p + queue_work fs n i q"
  by (simp_all add: queue_work_def)

lemma pop_container:
  assumes "JobQueue_pop q = Some (Some d, q', g)"
  shows "mset (jq_container q) = add_mset d (mset (jq_container q'))"
    "queue_work fs n i (jq_container q) = queue_work fs n i (jq_container q')
       + (if sd_scan_id d = i then tree_events fs n d else {#})"
    "jq_stop_flag q' = jq_stop_flag q"
proof -
  have "(\<exists>a. jq_container q = d # a \<and> jq_container q' = a)
      \<or> (\<exists>a. jq_container q = a @ [d] \<and> jq_container q' = a)"
  proof (cases "jq_policy q")
    case Fifo
    with assms show ?thesis
      by (cases "jq_container q") (auto simp: JobQueue_pop_def jq_taken_def split: if_splits)
  next
    case Lifo
    with assms show ?thesis
      by (cases "jq_container q" rule: rev_cases)
        (auto simp: JobQueue_pop_def jq_taken_def split: if_splits)
  qed
  then show "mset (jq_container q) = add_mset d (mset (jq_container q'))"
    "queue_work fs n i (jq_container q) = queue_work fs n i (jq_container q')
       + (if sd_scan_id d = i then tree_events fs n d else {#})"
    by (auto simp: ac_simps)
  show "jq_stop_flag q' = jq_stop_flag q"
    using assms by (auto simp: JobQueue_pop_def jq_taken_def split: if_splits queue_type.splits)
qed

subsection \<open>One step of one activation\<close>

text \<open>What a step records (\<open>rec\<close>), hands to the queue (\<open>que\<close>) and gives up (\<open>lost\<close>) together with
  the new activations makes up the work of the old activation.\<close>

lemma track_work:
  assumes k: "k < length (mg_threads s)" "mg_threads s ! k = f # fr"
    and st: "Manager_frame_step fs now f s = (new, s1)" and tr: "track fs n i tree s"
    and recd: "recorded i s1 = recorded i s + rec"
    and que: "queue_work fs n i (jq_container (mg_queue s1)) =
       queue_work fs n i (jq_container (mg_queue s)) + que"
    and bal: "frame_work fs n i f = rec + que + sum_list (map (frame_work fs n i) new) + lost"
    and lost: "ctx_canceled i s \<or> jq_stop_flag (mg_queue s) \<or> lost = {#}"
    and ctx: "(mg_ctx s1 i = None) = (mg_ctx s i = None)" "ctx_canceled i s1 = ctx_canceled i s"
    and stop: "jq_stop_flag (mg_queue s1) = jq_stop_flag (mg_queue s)"
    and dep: "\<forall>f \<in> set new. frame_depth fs n i f"
      "\<forall>d \<in> set (jq_container (mg_queue s1)). sd_scan_id d = i \<longrightarrow> depth_ok fs n d"
  shows "track fs n i tree (set_thread k (new @ fr) s1)"
proof -
  let ?t = "set_thread k (new @ fr) s1"
  note th = frame_step_threads [OF st]
  obtain l where l: "recorded i s + work fs n i s + l = tree"
      "\<not> ctx_canceled i s \<and> \<not> jq_stop_flag (mg_queue s) \<longrightarrow> l = {#}"
    using tr by (auto simp: track_def)
  have d: "depths_ok fs n i s" and c: "mg_ctx s i \<noteq> None" using tr by (simp_all add: track_def)
  have "\<forall>g \<in> set fr. frame_depth fs n i g"
    using d k nth_mem [OF k(1)] by (force simp: depths_ok_def)
  then have dt: "depths_ok fs n i ?t"
    using d dep th by (auto simp: depths_ok_def dest!: set_update_subset_insert [THEN subsetD])
  have "thread_sum (frame_work fs n i) ?t + frame_work fs n i f
      = thread_sum (frame_work fs n i) s + sum_list (map (frame_work fs n i) new)"
    using thread_sum_replace [of k s "[f]" fr s1 "frame_work fs n i" new] k th by simp
  then have Y: "thread_sum (frame_work fs n i) s = thread_sum (frame_work fs n i) ?t + rec + que + lost"
    unfolding bal by (simp add: ac_simps)
  have rt: "recorded i ?t = recorded i s + rec" using recd by (simp add: recorded_def results_of_def)
  have wt: "work fs n i ?t = queue_work fs n i (jq_container (mg_queue s)) + que
      + thread_sum (frame_work fs n i) ?t" by (simp add: work_def que)
  have "recorded i ?t + work fs n i ?t + (l + lost) = tree"
    unfolding l(1) [symmetric] rt wt unfolding work_def Y by (simp add: ac_simps)
  moreover have "mg_ctx ?t i \<noteq> None" using c ctx(1) by simp
  ultimately show ?thesis
    using l(2) lost ctx(2) stop dt by (intro trackI [where lost = "l + lost"]) auto
qed

lemma ctx_canceled_frame [simp]:
  "ctx_canceled i (s\<lparr>mg_results := x1\<rparr>) = ctx_canceled i s"
  "ctx_canceled i (s\<lparr>mg_queue := x2\<rparr>) = ctx_canceled i s"
  "ctx_canceled i (s\<lparr>mg_finished := x3\<rparr>) = ctx_canceled i s"
  "ctx_canceled i (s\<lparr>mg_rows := x4\<rparr>) = ctx_canceled i s"
  "ctx_canceled i (s\<lparr>mg_unfinished_metric := x5\<rparr>) = ctx_canceled i s"
  "ctx_canceled i (s\<lparr>mg_registry := x6\<rparr>) = ctx_canceled i s"
  "ctx_canceled i (Manager_job_tail s) = ctx_canceled i s"
  by (simp_all add: ctx_canceled_def)

lemma recorded_frame [simp]:
  "recorded i (s\<lparr>mg_queue := x2\<rparr>) = recorded i s"
  "recorded i (s\<lparr>mg_finished := x3\<rparr>) = recorded i s"
  "recorded i (s\<lparr>mg_rows := x4\<rparr>) = recorded i s"
  "recorded i (s\<lparr>mg_unfinished_metric := x5\<rparr>) = recorded i s"
  "recorded i (s\<lparr>mg_registry := x6\<rparr>) = recorded i s"
  "recorded i (ctx_add j m s) = recorded i s"
  "recorded i (Manager_job_tail s) = recorded i s"
  by (simp_all add: recorded_def results_of_def)

lemma recorded_append [simp]:
  "recorded i (s\<lparr>mg_results := mg_results s @ [e]\<rparr>) = recorded i s
     + (if fe_scan_id e = i \<and> \<not> is_sentinel (fe_end_signal e) then {#e#} else {#})"
  by (simp add: recorded_def results_of_def)

lemma recorded_cong: "mg_results t = mg_results s \<Longrightarrow> recorded i t = recorded i s"
  by (simp add: recorded_def results_of_def)

lemma track_queue: "track fs n i tree s \<Longrightarrow>
  \<forall>d \<in> set (jq_container (mg_queue s)). sd_scan_id d = i \<longrightarrow> depth_ok fs n d"
  by (simp add: track_def depths_ok_def)

lemma track_frame: "track fs n i tree s \<Longrightarrow> k < length (mg_threads s) \<Longrightarrow> mg_threads s ! k = f # fr \<Longrightarrow>
  frame_depth fs n i f"
  using nth_mem [of k "mg_threads s"] by (force simp: track_def depths_ok_def)

lemma track_begin:
  assumes k: "k < length (mg_threads s)" "mg_threads s ! k = Begin d # fr"
    and st: "Manager_frame_step fs now (Begin d) s = (new, s1)" and tr: "track fs n i tree s"
  shows "track fs n i tree (set_thread k (new @ fr) s1)"
proof (cases "ctx_canceled (sd_scan_id d) s")
  case True
  with st have "new = [Ending d]" "s1 = s" by (simp_all add: begin_step)
  then show ?thesis
    using track_queue [OF tr] True
    by (intro track_work [OF k st tr, of "{#}" "{#}" "if sd_scan_id d = i then tree_events fs n d else {#}"])
      auto
next
  case False
  with st have new: "new = [Loop d (node_children fs d)]"
    "s1 = s\<lparr>mg_results := mg_results s @ [node_event fs d]\<rparr>" by (simp_all add: begin_step)
  have dep: "sd_scan_id d = i \<longrightarrow> depth_ok fs n d" using track_frame [OF tr k] by simp
  show ?thesis
    using track_queue [OF tr] new dep depth_ok_children [of fs n d]
    by (intro track_work [OF k st tr, of "if sd_scan_id d = i then {#node_event fs d#} else {#}" "{#}" "{#}"])
      (auto simp: list_all_iff tree_events_unfold ctx_canceled_def)
qed

lemma track_loop:
  assumes k: "k < length (mg_threads s)" "mg_threads s ! k = Loop d cs # fr"
    and st: "Manager_frame_step fs now (Loop d cs) s = (new, s1)" and tr: "track fs n i tree s"
    and fo: "frame_ok (Loop d cs)"
  shows "track fs n i tree (set_thread k (new @ fr) s1)"
proof (cases cs rule: rev_cases)
  case Nil
  with st have "new = [Ending d]" "s1 = s" by (simp_all add: Manager_frame_step_def)
  then show ?thesis
    using track_queue [OF tr] Nil by (intro track_work [OF k st tr, of "{#}" "{#}" "{#}"]) auto
next
  case (snoc cs' c)
  have c: "sd_scan_id c = sd_scan_id d" using fo snoc by simp
  have dep: "sd_scan_id d = i \<longrightarrow> depth_ok fs n c \<and> list_all (depth_ok fs n) cs'"
    using track_frame [OF tr k] snoc by simp
  show ?thesis
  proof (cases "ctx_canceled (sd_scan_id d) s")
    case True
    with st snoc c have "new = [Ending d]" "s1 = s" by (simp_all add: Manager_frame_step_def)
    then show ?thesis
      using track_queue [OF tr] True
      by (intro track_work [OF k st tr, of "{#}" "{#}" "frame_work fs n i (Loop d cs)"]) auto
  next
    case False
    with st snoc c have new: "new = [Submitting d cs' c] \<or> new = [Begin c, Loop d cs']"
      "mg_queue s1 = mg_queue s" "recorded i s1 = recorded i s"
      "(mg_ctx s1 i = None) = (mg_ctx s i = None)" "ctx_canceled i s1 = ctx_canceled i s"
      by (auto simp: Manager_frame_step_def Let_def split: if_splits)
    show ?thesis
      by (rule track_work [OF k st tr, of "{#}" "{#}" "{#}"])
        (use new dep snoc c track_queue [OF tr] in \<open>auto simp: ac_simps\<close>)
  qed
qed

lemma track_submitting:
  assumes k: "k < length (mg_threads s)" "mg_threads s ! k = Submitting d cs c # fr"
    and st: "Manager_frame_step fs now (Submitting d cs c) s = (new, s1)" and tr: "track fs n i tree s"
    and fo: "frame_ok (Submitting d cs c)"
  shows "track fs n i tree (set_thread k (new @ fr) s1)"
proof -
  have c: "sd_scan_id c = sd_scan_id d" using fo by simp
  have dep: "sd_scan_id d = i \<longrightarrow> depth_ok fs n c \<and> list_all (depth_ok fs n) cs"
    using track_frame [OF tr k] by simp
  obtain r q g where push: "JobQueue_try_push c (mg_queue s) = (r, q, g)" by (metis prod_cases3)
  note defs = Manager_frame_step_def Manager_pool_submit_def
  show ?thesis
  proof (cases rule: try_push_cases [OF push])
    case 1
    with st push have new: "new = [Ending d]"
      "s1 = Manager_job_tail (ctx_add (sd_scan_id c) (-1) (s\<lparr>mg_queue := q\<rparr>))"
      by (simp_all add: defs)
    show ?thesis
      by (rule track_work [OF k st tr, of "{#}" "{#}" "frame_work fs n i (Submitting d cs c)"])
        (use new 1 track_queue [OF tr] in auto)
  next
    case 2
    with st push have new: "new = [Begin c, Loop d cs]" "s1 = s\<lparr>mg_queue := q\<rparr>"
      by (simp_all add: defs)
    show ?thesis
      by (rule track_work [OF k st tr, of "{#}" "{#}" "{#}"])
        (use new 2 c dep track_queue [OF tr] in \<open>auto simp: ac_simps\<close>)
  next
    case 3
    with st push have new: "new = [Loop d cs]" "s1 = s\<lparr>mg_queue := q\<rparr>"
      by (simp_all add: defs)
    show ?thesis
      by (rule track_work [OF k st tr, of "{#}" "queue_work fs n i [c]" "{#}"])
        (use new 3 c dep track_queue [OF tr] in \<open>auto simp: ac_simps\<close>)
  qed
qed

lemma track_signalling:
  assumes k: "k < length (mg_threads s)" "mg_threads s ! k = Signalling d sc fin # fr"
    and st: "Manager_frame_step fs now (Signalling d sc fin) s = (new, s1)" and tr: "track fs n i tree s"
  shows "track fs n i tree (set_thread k (new @ fr) s1)"
proof (rule track_work [OF k st tr, of "{#}" "{#}" "{#}"])
  show "recorded i s1 = recorded i s + {#}"
    using st by (auto simp: Manager_frame_step_def Manager_unregister_def Let_def recorded_def
        results_of_def sentinel_event_def split: if_splits option.splits)
qed (use st track_queue [OF tr] in \<open>auto simp: Manager_frame_step_def Manager_unregister_def Let_def
      split: if_splits option.splits\<close>)

lemma track_frame_step:
  assumes k: "k < length (mg_threads s)" "mg_threads s ! k = f # fr"
    and st: "Manager_frame_step fs now f s = (new, s1)" and tr: "track fs n i tree s"
    and fo: "frame_ok f"
  shows "track fs n i tree (set_thread k (new @ fr) s1)"
proof (cases f)
  case (Begin d)
  with assms show ?thesis using track_begin [of k s d fr fs now new s1] by simp
next
  case (Loop d cs)
  with assms show ?thesis using track_loop [of k s d cs fr fs now new s1] by simp
next
  case (Submitting d cs c)
  with assms show ?thesis using track_submitting [of k s d cs c fr fs now new s1] by simp
next
  case (Signalling d sc fin)
  with assms show ?thesis using track_signalling [of k s d sc fin fr fs now new s1] by simp
qed (rule track_work [OF k st tr, of "{#}" "{#}" "{#}"];
    use st track_queue [OF tr] in \<open>auto simp: Manager_frame_step_def split: if_splits\<close>)+

subsection \<open>The moves\<close>

lemma track_pop:
  assumes tr: "track fs n i tree s" and k: "k < length (mg_threads s)" "mg_threads s ! k = []"
    and pop: "JobQueue_pop (mg_queue s) = Some (Some d, q, g)"
  shows "track fs n i tree (set_thread k [Begin d] (s\<lparr>mg_queue := q\<rparr>))" (is "track _ _ _ _ ?t")
proof -
  have "thread_sum (frame_work fs n i) ?t = thread_sum (frame_work fs n i) s + frame_work fs n i (Begin d)"
    using thread_sum_replace [of k s "[]" "[]" "s\<lparr>mg_queue := q\<rparr>" "frame_work fs n i" "[Begin d]"] k
    by simp
  then have "work fs n i ?t = work fs n i s"
    using pop_container(2) [OF pop, of fs n i] by (simp add: work_def ac_simps)
  moreover have "set (jq_container (mg_queue s)) = insert d (set (jq_container q))"
    using arg_cong [OF pop_container(1) [OF pop], of set_mset] by simp
  then have "depths_ok fs n i ?t"
    using tr by (auto simp: track_def depths_ok_def dest!: set_update_subset_insert [THEN subsetD])
  moreover have "recorded i ?t = recorded i s" by (simp add: recorded_def results_of_def)
  moreover have "ctx_canceled i ?t = ctx_canceled i s" by (simp add: ctx_canceled_def)
  ultimately show ?thesis
    using tr pop_container(3) [OF pop] by (simp add: track_def)
qed

lemma start_stop:
  "jq_stop_flag (mg_queue (snd (Manager_start_new_scan i root now s))) = jq_stop_flag (mg_queue s)"
proof -
  obtain r q g where push:
    "JobQueue_try_push \<lparr>sd_scan_id = i, sd_path = root\<rparr> (mg_queue s) = (r, q, g)"
    by (metis prod_cases3)
  then show ?thesis
    by (cases rule: try_push_cases [OF push])
      (auto simp: Manager_start_new_scan_def Manager_pool_submit_def Let_def Manager_unregister_def
        Manager_job_tail_def ctx_add_def)
qed

lemma track_start_other:
  assumes inv: "manager_inv s" and tr: "track fs n i tree s" and fresh: "mg_ctx s j = None"
  shows "track fs n i tree (snd (Manager_start_new_scan j root now s))" (is "track _ _ _ _ ?t")
proof -
  have ij: "i \<noteq> j" using tr fresh by (auto simp: track_def)
  have "scan_ok j s" using inv by (simp add: manager_inv_def)
  then have r: "map_of (mg_registry s) j = None" using fresh by (simp add: scan_ok_def phase_ok_def)
  have th: "mg_threads ?t = mg_threads s" and ctx: "mg_ctx ?t i = mg_ctx s i"
    and rs: "recorded i ?t = recorded i s"
    using ij by (cases rule: start_cases [OF r, of root now];
      simp add: recorded_def results_of_def sentinel_event_def)+
  have q: "queue_work fs n i (jq_container (mg_queue ?t)) = queue_work fs n i (jq_container (mg_queue s))"
    "\<forall>d \<in> set (jq_container (mg_queue ?t)). sd_scan_id d = i \<longrightarrow> d \<in> set (jq_container (mg_queue s))"
    using ij by (cases rule: start_cases [OF r, of root now]; simp)+
  have "depths_ok fs n i ?t" using tr th q(2) unfolding track_def depths_ok_def by metis
  moreover have "work fs n i ?t = work fs n i s"
    using q(1) thread_sum_threads [OF th] by (simp add: work_def)
  moreover have "ctx_canceled i ?t = ctx_canceled i s" using ctx by (simp add: ctx_canceled_def)
  ultimately show ?thesis using tr ctx rs start_stop by (simp add: track_def)
qed

lemma sum_zero_mem:
  fixes w :: "'a \<Rightarrow> int"
  assumes "\<And>x. x \<in> set xs \<Longrightarrow> 0 \<le> w x" "sum_list (map w xs) = 0" "x \<in> set xs"
  shows "w x = 0"
proof -
  have "\<forall>y \<in> set (map w xs). y = 0"
    using assms(1,2) sum_list_nonneg_eq_0_iff [of "map w xs"] by auto
  then show ?thesis using assms(3) by simp
qed

lemma sum_list_all_zero:
  fixes w :: "'a \<Rightarrow> 'b::comm_monoid_add"
  shows "(\<And>x. x \<in> set xs \<Longrightarrow> w x = 0) \<Longrightarrow> sum_list (map w xs) = 0"
  by (induction xs) simp_all

lemma frame_idle: "frame_jobs i f = 0 \<Longrightarrow> frame_work fs n i f = {#} \<and> frame_depth fs n i f"
  by (cases f) (auto simp: of_bool_def split: if_splits)

lemma track_start:
  assumes inv: "manager_inv s" and fresh: "mg_ctx s i = None"
    and acc: "fst (Manager_start_new_scan i root now s) = (True, False)"
    and dep: "depth_ok fs n \<lparr>sd_scan_id = i, sd_path = root\<rparr>"
  shows "track fs n i (tree_events fs n \<lparr>sd_scan_id = i, sd_path = root\<rparr>)
    (snd (Manager_start_new_scan i root now s))"
proof -
  have ok: "scan_ok i s" and fo: "frames_ok s" using inv by (simp_all add: manager_inv_def)
  then have r: "map_of (mg_registry s) i = None" "outstanding i s = 0" "results_of i s = []"
    using fresh by (simp_all add: scan_ok_def phase_ok_def)
  have "0 \<le> thread_sum (frame_jobs i) s" by (rule thread_sum_nonneg) simp
  with r(2) have z: "cnt (\<lambda>d. sd_scan_id d = i) (jq_container (mg_queue s)) = 0"
      "thread_sum (frame_jobs i) s = 0"
    by (simp_all add: outstanding_def add_nonneg_eq_0_iff)
  have idle: "frame_jobs i f = 0" if fr: "fr \<in> set (mg_threads s)" "f \<in> set fr" for f fr
  proof -
    have "sum_list (map (frame_jobs i) fr) = 0"
      using z(2) fr(1) unfolding thread_sum_def
      by (intro sum_zero_mem [of "mg_threads s" "\<lambda>fr. sum_list (map (frame_jobs i) fr)"])
        (auto intro!: sum_list_nonneg)
    with fr(2) show ?thesis by (intro sum_zero_mem [of fr "frame_jobs i"]) auto
  qed
  have q0: "queue_work fs n i (jq_container (mg_queue s)) = {#}"
    using z(1) unfolding queue_work_def cnt_zero_iff by (intro sum_list_all_zero) (simp only: if_False)
  have "frame_work fs n i f = {#}" "frame_depth fs n i f"
    if "fr \<in> set (mg_threads s)" "f \<in> set fr" for f fr
    using frame_idle [OF idle [OF that]] by simp_all
  then have t0: "thread_sum (frame_work fs n i) s = {#}"
    and d0: "\<forall>fr \<in> set (mg_threads s). \<forall>f \<in> set fr. frame_depth fs n i f"
    unfolding thread_sum_def by (simp_all add: sum_list_all_zero)
  show ?thesis
  proof (cases rule: start_cases [OF r(1), of root now])
    case 1
    let ?t = "snd (Manager_start_new_scan i root now s)"
    have "\<forall>d \<in> set (jq_container (mg_queue ?t)). sd_scan_id d = i \<longrightarrow> depth_ok fs n d"
      using 1(2) z(1) dep by (auto simp: cnt_zero_iff)
    then have "depths_ok fs n i ?t" using d0 1(4) by (simp add: depths_ok_def)
    moreover have "recorded i ?t + work fs n i ?t + {#} = tree_events fs n \<lparr>sd_scan_id = i, sd_path = root\<rparr>"
      using 1(2,5) r(3) q0 t0 thread_sum_threads [OF 1(4), of "frame_work fs n i"]
      by (simp add: recorded_def work_def results_of_def)
    ultimately show ?thesis using 1(6) by (intro trackI) auto
  qed (use acc in simp_all)
qed

lemma track_step:
  assumes inv: "manager_inv s" and tr: "track fs n i tree s" and t: "manager_step fs m s = Some t"
  shows "track fs n i tree t"
proof (cases m)
  case (Start_scan j root now)
  with t track_start_other [OF inv tr] show ?thesis by (auto split: if_splits)
next
  case (Cancel_scan j)
  then have "t = snd (Manager_cancel_scan j s)" using t by simp
  then show ?thesis
    using tr by (auto simp: Manager_cancel_scan_def track_def depths_ok_def work_def recorded_def
        results_of_def thread_sum_def ctx_canceled_def split: option.splits)
next
  case Shutdown_pool
  then have "t = Manager_shutdown_pool s" using t by simp
  then show ?thesis
    using tr by (auto simp: Manager_shutdown_pool_def JobQueue_shutdown_def track_def depths_ok_def
        work_def recorded_def results_of_def thread_sum_def)
next
  case (Work k now)
  with t have w: "Manager_work fs k now s = Some t" by simp
  then have k: "k < length (mg_threads s)" by (simp add: Manager_work_def split: if_splits)
  show ?thesis
  proof (cases "mg_threads s ! k")
    case Nil
    with w k obtain d q g where "JobQueue_pop (mg_queue s) = Some (Some d, q, g)"
        "t = set_thread k [Begin d] (s\<lparr>mg_queue := q\<rparr>)"
      by (auto simp: Manager_work_def split: option.splits prod.splits)
    with track_pop [OF tr k Nil] show ?thesis by simp
  next
    case (Cons f fr)
    obtain new s1 where st: "Manager_frame_step fs now f s = (new, s1)" by (cases "Manager_frame_step fs now f s")
    with Cons w k have "t = set_thread k (new @ fr) s1" by (simp add: Manager_work_def)
    moreover have "frame_ok f"
      using inv Cons nth_mem [OF k] by (force simp: manager_inv_def frames_ok_def)
    ultimately show ?thesis using track_frame_step [OF k Cons st tr] by simp
  qed
qed

interpretation tracked: invariant "manager_step fs" "\<lambda>s. manager_inv s \<and> track fs n i tree s"
  for fs n i tree
  by unfold_locales (blast intro: manager_inv_step track_step)

end
