(* ===== verification/Manager_Properties.thy ===== *)
theory Manager_Properties
  imports Manager_Tree
begin

section \<open>What the scan system guarantees\<close>

subsection \<open>The root of a scan\<close>

definition root_ok :: "u64 \<Rightarrow> string \<Rightarrow> manager \<Rightarrow> bool" where
  "root_ok i root s \<longleftrightarrow> mg_ctx s i \<noteq> None
     \<and> (\<forall>task. map_of (mg_registry s) i = Some task \<longrightarrow> root_path task = root)
     \<and> (\<forall>e \<in> set (results_of i s). is_sentinel (fe_end_signal e) \<longrightarrow> fe_path e = root)"

lemma root_ok_frame_step:
  assumes "root_ok i root s" "Manager_frame_step fs now f s = (new, s1)"
  shows "root_ok i root (set_thread k fr s1)"
proof -
  have "(mg_ctx s1 i = None) = (mg_ctx s i = None)"
    using assms(2) by (cases f) (auto simp: Manager_frame_step_def Manager_pool_submit_def
        Manager_unregister_def Let_def split: if_splits prod.splits submit_result.splits option.splits)
  moreover have "map_of (mg_registry s1) i = None \<or> map_of (mg_registry s1) i = map_of (mg_registry s) i"
    using assms(2) by (cases f) (auto simp: Manager_frame_step_def Manager_pool_submit_def
        Manager_unregister_def Let_def delete_conv' split: if_splits prod.splits submit_result.splits option.splits)
  moreover have "\<forall>e \<in> set (mg_results s1). e \<in> set (mg_results s) \<or> \<not> is_sentinel (fe_end_signal e)
      \<or> (\<exists>j task c. map_of (mg_registry s) j = Some task \<and> e = sentinel_event j (root_path task) c)"
  proof (cases f)
    case (Begin d)
    with assms(2) show ?thesis by (auto simp: begin_step split: if_splits)
  qed (use assms(2) in \<open>auto simp: Manager_frame_step_def Manager_pool_submit_def
        Manager_unregister_def Let_def split: if_splits prod.splits submit_result.splits option.splits\<close>)
  ultimately show ?thesis
    using assms(1) by (fastforce simp: root_ok_def results_of_def sentinel_event_def)
qed

lemma root_ok_step:
  assumes inv: "manager_inv s" and ro: "root_ok i root s" and t: "manager_step fs m s = Some t"
  shows "root_ok i root t"
proof (cases m)
  case (Start_scan j r now)
  with t have fresh: "mg_ctx s j = None" and t': "t = snd (Manager_start_new_scan j r now s)"
    by (auto split: if_splits)
  have ij: "i \<noteq> j" using ro fresh by (auto simp: root_ok_def)
  have "scan_ok j s" using inv by (simp add: manager_inv_def)
  then have n: "map_of (mg_registry s) j = None" using fresh by (simp add: scan_ok_def phase_ok_def)
  show ?thesis
    by (cases rule: start_cases [OF n, of r now])
      (use ro ij t' in \<open>simp_all add: root_ok_def results_of_def delete_conv' sentinel_event_id\<close>)
next
  case (Cancel_scan j)
  with t have "t = snd (Manager_cancel_scan j s)" by simp
  then have "(mg_ctx t i = None) = (mg_ctx s i = None)" "mg_registry t = mg_registry s"
      "mg_results t = mg_results s"
    by (auto simp: Manager_cancel_scan_def)
  with ro show ?thesis by (simp add: root_ok_def results_of_def)
next
  case Shutdown_pool
  with t ro show ?thesis by (auto simp: root_ok_def results_of_def Manager_shutdown_pool_def)
next
  case (Work k now)
  with t have w: "Manager_work fs k now s = Some t" by simp
  then have k: "k < length (mg_threads s)" by (simp add: Manager_work_def split: if_splits)
  show ?thesis
  proof (cases "mg_threads s ! k")
    case Nil
    with w k obtain d q g where
        "t = set_thread k [Begin d] (s\<lparr>mg_queue := q\<rparr>)"
      by (auto simp: Manager_work_def split: option.splits prod.splits)
    with ro show ?thesis by (simp add: root_ok_def results_of_def)
  next
    case (Cons f fr)
    obtain new s1 where "Manager_frame_step fs now f s = (new, s1)"
      by (cases "Manager_frame_step fs now f s")
    with root_ok_frame_step [OF ro this] Cons w k show ?thesis by (auto simp: Manager_work_def)
  qed
qed

interpretation rooted: invariant "manager_step fs"
  "\<lambda>s. manager_inv s \<and> track fs n i tree s \<and> root_ok i root s" for fs n i tree root
  by unfold_locales (blast intro: manager_inv_step track_step root_ok_step)

lemma root_ok_start:
  assumes "manager_inv s" "mg_ctx s i = None"
    "fst (Manager_start_new_scan i root now s) = (True, False)"
  shows "root_ok i root (snd (Manager_start_new_scan i root now s))"
proof -
  have "scan_ok i s" using assms(1) by (simp add: manager_inv_def)
  then have n: "map_of (mg_registry s) i = None" "results_of i s = []"
    using assms(2) by (simp_all add: scan_ok_def phase_ok_def)
  show ?thesis
    by (cases rule: start_cases [OF n(1), of root now])
      (use n assms(3) in \<open>simp_all add: root_ok_def results_of_def\<close>)
qed

subsection \<open>A scan from its start to its sentinel\<close>

definition scan_job :: "u64 \<Rightarrow> string \<Rightarrow> scan_data" where
  "scan_job i root = \<lparr>sd_scan_id = i, sd_path = root\<rparr>"

lemma closed_is:
  assumes inv: "manager_inv t" and o: "outstanding i t = 0" "closing i t = 0" and i: "i \<noteq> 0"
    and ro: "root_ok i root t"
  shows "\<exists>es c. results_of i t = es @ [sentinel_event i root c] \<and> node_events es \<and> recorded i t = mset es"
proof -
  have "scan_ok i t" using inv by (simp add: manager_inv_def)
  then have "closed_results i (results_of i t)"
    using o ro by (auto simp: scan_ok_def phase_ok_def root_ok_def split: option.splits)
  then obtain es r c where es: "results_of i t = es @ [sentinel_event i r c]" "node_events es"
    using i by (auto simp: closed_results_def)
  moreover have "r = root" using ro es(1) by (auto simp: root_ok_def sentinel_event_def)
  moreover have "recorded i t = mset es"
    using es by (auto simp: recorded_def node_events_def sentinel_event_def filter_id_conv)
  ultimately show ?thesis by blast
qed

lemma no_jobs_no_work:
  assumes "outstanding i s = 0"
  shows "work fs n i s = {#}"
proof -
  have "0 \<le> thread_sum (frame_jobs i) s" by (rule thread_sum_nonneg) simp
  with assms have z: "cnt (\<lambda>d. sd_scan_id d = i) (jq_container (mg_queue s)) = 0"
      "thread_sum (frame_jobs i) s = 0"
    by (simp_all add: outstanding_def add_nonneg_eq_0_iff)
  have "frame_jobs i f = 0" if fr: "fr \<in> set (mg_threads s)" "f \<in> set fr" for f fr
  proof -
    have "sum_list (map (frame_jobs i) fr) = 0"
      using z(2) fr(1) unfolding thread_sum_def
      by (intro sum_zero_mem [of "mg_threads s" "\<lambda>fr. sum_list (map (frame_jobs i) fr)"])
        (auto intro!: sum_list_nonneg)
    with fr(2) show ?thesis by (intro sum_zero_mem [of fr "frame_jobs i"]) auto
  qed
  then have "thread_sum (frame_work fs n i) s = {#}"
    unfolding thread_sum_def by (intro sum_list_all_zero) (simp add: frame_idle)
  moreover have "queue_work fs n i (jq_container (mg_queue s)) = {#}"
    using z(1) unfolding queue_work_def cnt_zero_iff by (intro sum_list_all_zero) (simp only: if_False)
  ultimately show ?thesis by (simp add: work_def)
qed

lemma scan_complete:
  assumes "reach (manager_step fs) (Manager_init m q k metrics) s"
    and "mg_ctx s i = None" and "Manager_start_new_scan i root now s = ((True, False), s1)"
    and "depth_ok fs n (scan_job i root)" and "run (manager_step fs) ms s1 = Some t" and "i \<noteq> 0"
  shows "if outstanding i t = 0 \<and> closing i t = 0
    then \<exists>es c. results_of i t = es @ [sentinel_event i root c] \<and> node_events es
           \<and> mset es \<subseteq># tree_events fs n (scan_job i root)
           \<and> (\<not> ctx_canceled i t \<and> \<not> jq_stop_flag (mg_queue t) \<longrightarrow>
                mset es = tree_events fs n (scan_job i root))
    else node_events (results_of i t)"
proof -
  have inv: "manager_inv s" using manager.reach_keeps [OF assms(1) manager_inv_init] .
  let ?tree = "tree_events fs n (scan_job i root)"
  have acc: "fst (Manager_start_new_scan i root now s) = (True, False)"
    and s1: "snd (Manager_start_new_scan i root now s) = s1" using assms(3) by simp_all
  have "manager_inv s1 \<and> track fs n i ?tree s1 \<and> root_ok i root s1"
    using manager_inv_start [OF inv assms(2), of root now]
      track_start [OF inv assms(2) acc] assms(4) root_ok_start [OF inv assms(2) acc] s1
    by (simp add: scan_job_def)
  then have t: "manager_inv t" "track fs n i ?tree t" "root_ok i root t"
    using rooted.run_keeps [OF assms(5), of n i ?tree root] by blast+
  show ?thesis
  proof (cases "outstanding i t = 0 \<and> closing i t = 0")
    case True
    then obtain es c where es: "results_of i t = es @ [sentinel_event i root c]" "node_events es"
        "recorded i t = mset es"
      using closed_is [OF t(1) _ _ assms(6) t(3)] by blast
    obtain lost where l: "mset es + lost = ?tree"
        "\<not> ctx_canceled i t \<and> \<not> jq_stop_flag (mg_queue t) \<longrightarrow> lost = {#}"
      using t(2) no_jobs_no_work [of i t fs n] True es(3) by (auto simp: track_def)
    have "mset es \<subseteq># ?tree" unfolding l(1) [symmetric] by simp
    with es l True show ?thesis by auto
  next
    case False
    have "scan_ok i t" using t(1) by (simp add: manager_inv_def)
    moreover have "mg_ctx t i \<noteq> None" using t(3) by (simp add: root_ok_def)
    ultimately have "node_events (results_of i t)"
      using False outstanding_nonneg [of i t] by (auto simp: scan_ok_def phase_ok_def split: if_splits)
    then show ?thesis unfolding if_not_P [OF False] .
  qed
qed


text \<open>A directory with one file, scanned by one thread.\<close>

definition demo_fs :: file_system where
  "demo_fs = \<lparr>fs_lstat = (\<lambda>p. if p = ''/r'' then Inr \<lparr>S_ISLNK = False, S_ISDIR = True, st_mtime = 7, st_blocks = 8\<rparr>
       else if p = ''/r/a'' then Inr \<lparr>S_ISLNK = False, S_ISDIR = False, st_mtime = 9, st_blocks = 1\<rparr>
       else Inl 2),
     fs_opendir = (\<lambda>p. None), fs_readdir = (\<lambda>p. (0, [''.'', ''..'', ''a'']))\<rparr>"

definition demo_start :: manager where
  "demo_start = Manager_init 1 8 1 zero_metrics"

definition demo_moves :: "nat \<Rightarrow> manager_move list" where
  "demo_moves n = replicate n (Work 0 50)"

lemma demo_depth: "depth_ok demo_fs 2 (scan_job 1 ''/r'')"
  by (simp add: numeral_2_eq_2 scan_job_def node_children_def MultiScanner_scan_one_node_def
      demo_fs_def)

lemmas demo_eval = demo_start_def Manager_init_def Manager_start_new_scan_def Manager_pool_submit_def
  JobQueue_init_def jq_op_defs zero_metrics_def Let_def

lemma demo_accepted:
  "fst (Manager_start_new_scan 1 ''/r'' 40 demo_start) = (True, False)"
  "mg_ctx demo_start 1 = None"
  by (simp_all add: demo_eval)

lemmas demo_step_eval = demo_eval manager_defs begin_step node_children_def node_event_def
  MultiScanner_scan_one_node_def demo_fs_def ctx_canceled_def ctx_unfinished_def ctx_add_def
  set_thread_def Manager_enough_slots_def JobQueue_jobs_in_queue_def scan_event_def

lemma demo_run:
  "\<exists>t. run (manager_step demo_fs) (demo_moves 15)
      (snd (Manager_start_new_scan 1 ''/r'' 40 demo_start)) = Some t
     \<and> mg_threads t = [[]] \<and> jq_container (mg_queue t) = [] \<and> \<not> jq_stop_flag (mg_queue t)
     \<and> \<not> ctx_canceled 1 t \<and> length (mg_results t) = 3"
  by (simp add: demo_moves_def numeral_eq_Suc demo_step_eval)


subsection \<open>The cancellation is read twice\<close>

definition race_moves :: "manager_move list" where
  "race_moves = demo_moves 12 @ [Cancel_scan 1, Work 0 50, Work 0 50]"

text \<open>The end of a scan reads the cancellation flag twice, and a cancellation between the two
  reads splits them: the sentinel, which decides whether the exporter deletes the rows the scan
  did not see, says that the scan was not cancelled, while the task row says that it was.\<close>

theorem manager_cancel_race:
  "\<exists>t. run (manager_step demo_fs) race_moves
      (snd (Manager_start_new_scan 1 ''/r'' 40 demo_start)) = Some t
     \<and> sentinel_event 1 ''/r'' False \<in> set (mg_results t)
     \<and> map st_end_state (mg_rows t) = [CANCELED]"
  by (simp add: race_moves_def demo_moves_def numeral_eq_Suc demo_step_eval)

end
