(* ===== verification/Manager_Drain.thy ===== *)
theory Manager_Drain
  imports Manager_Properties
begin

section \<open>Draining the scan system\<close>

subsection \<open>The metric of unfinished jobs\<close>

fun frame_units :: "frame \<Rightarrow> int" where
  "frame_units (Submitting d cs c) = 2"
| "frame_units _ = 1"

definition metric_ok :: "manager \<Rightarrow> bool" where
  "metric_ok s \<longleftrightarrow> mg_unfinished_metric s =
     int (length (jq_container (mg_queue s))) + thread_sum frame_units s"

lemma ctx_add_metric [simp]: "mg_unfinished_metric (ctx_add i n s) = mg_unfinished_metric s"
  by (simp add: ctx_add_def)

lemma job_tail_metric [simp]: "mg_unfinished_metric (Manager_job_tail s) = mg_unfinished_metric s - 1"
  by (simp add: Manager_job_tail_def)

lemma metric_frame_step:
  assumes "Manager_frame_step fs now f s = (new, s1)"
  shows "mg_unfinished_metric s1 - int (length (jq_container (mg_queue s1)))
    = mg_unfinished_metric s - int (length (jq_container (mg_queue s)))
      + sum_list (map frame_units new) - frame_units f"
proof (cases f)
  case (Submitting d cs c)
  obtain r q g where push: "JobQueue_try_push c (mg_queue s) = (r, q, g)" by (metis prod_cases3)
  then show ?thesis
    using assms Submitting
    by (cases rule: try_push_cases [OF push]) (auto simp: Manager_frame_step_def Manager_pool_submit_def)
qed (use assms in \<open>auto simp: Manager_frame_step_def Manager_unregister_def Let_def
      split: if_splits option.splits prod.splits\<close>)

lemma metric_step:
  assumes inv: "manager_inv s" and ok: "metric_ok s" and t: "manager_step fs m s = Some t"
  shows "metric_ok t"
proof (cases m)
  case (Start_scan j r now)
  with t have fresh: "mg_ctx s j = None" and t': "t = snd (Manager_start_new_scan j r now s)"
    by (auto split: if_splits)
  have "scan_ok j s" using inv by (simp add: manager_inv_def)
  then have n: "map_of (mg_registry s) j = None" using fresh by (simp add: scan_ok_def phase_ok_def)
  show ?thesis
    by (cases rule: start_cases [OF n, of r now])
      (use ok t' in \<open>simp_all add: metric_ok_def thread_sum_def\<close>)
next
  case (Cancel_scan j)
  with t ok show ?thesis by (auto simp: metric_ok_def Manager_cancel_scan_def thread_sum_def)
next
  case Shutdown_pool
  with t ok show ?thesis
    by (auto simp: metric_ok_def Manager_shutdown_pool_def thread_sum_def JobQueue_shutdown_def)
next
  case (Work k now)
  with t have w: "Manager_work fs k now s = Some t" by simp
  then have k: "k < length (mg_threads s)" by (simp add: Manager_work_def split: if_splits)
  show ?thesis
  proof (cases "mg_threads s ! k")
    case Nil
    with w k obtain d q g where pop: "JobQueue_pop (mg_queue s) = Some (Some d, q, g)"
        and t': "t = set_thread k [Begin d] (s\<lparr>mg_queue := q\<rparr>)"
      by (auto simp: Manager_work_def split: option.splits prod.splits)
    have "length (jq_container (mg_queue s)) = Suc (length (jq_container q))"
      using arg_cong [OF pop_container(1) [OF pop], of size] by simp
    moreover have "thread_sum frame_units t = thread_sum frame_units s + 1"
      using thread_sum_replace [of k s "[]" "[]" "s\<lparr>mg_queue := q\<rparr>" frame_units "[Begin d]"] k Nil t'
      by simp
    ultimately show ?thesis using ok t' by (simp add: metric_ok_def)
  next
    case (Cons f fr)
    obtain new s1 where st: "Manager_frame_step fs now f s = (new, s1)"
      by (cases "Manager_frame_step fs now f s")
    with Cons w k have t': "t = set_thread k (new @ fr) s1" by (simp add: Manager_work_def)
    have "thread_sum frame_units t + frame_units f = thread_sum frame_units s + sum_list (map frame_units new)"
      unfolding t' by (rule work_frame [OF k Cons st frame_step_threads [OF st]])
    with metric_frame_step [OF st] ok t' show ?thesis by (simp add: metric_ok_def)
  qed
qed

interpretation metered: invariant "manager_step fs" "\<lambda>s. manager_inv s \<and> metric_ok s" for fs
  by unfold_locales (blast intro: manager_inv_step metric_step)

lemma frame_units_pos: "1 \<le> frame_units f"
  by (cases f) auto

text \<open>The metric the daemon waits for is right: \<^verbatim>\<open>scan_jobs_unfinished\<close> is never negative, and it
  is 0 just when no job is queued and no worker thread is inside a job, whatever was submitted,
  rejected, refused, run on the caller's stack or cancelled.\<close>

theorem manager_metric_drained:
  assumes "reach (manager_step fs) (Manager_init m q k metrics) s"
  shows "0 \<le> mg_unfinished_metric s \<and>
    (mg_unfinished_metric s = 0 \<longleftrightarrow>
       jq_container (mg_queue s) = [] \<and> (\<forall>stack \<in> set (mg_threads s). stack = []))"
proof -
  have "metric_ok (Manager_init m q k metrics)"
    by (simp add: metric_ok_def Manager_init_def JobQueue_init_def thread_sum_def map_replicate
        sum_list_replicate)
  then have ok: "metric_ok s"
    using metered.reach_keeps [OF assms] manager_inv_init by blast
  have nn: "0 \<le> frame_units f" for f using frame_units_pos [of f] by linarith
  have ts: "0 \<le> thread_sum frame_units s" by (rule thread_sum_nonneg) (rule nn)
  have "thread_sum frame_units s = 0 \<longleftrightarrow> (\<forall>stack \<in> set (mg_threads s). stack = [])"
  proof
    assume z: "thread_sum frame_units s = 0"
    show "\<forall>stack \<in> set (mg_threads s). stack = []"
    proof
      fix fr assume fr: "fr \<in> set (mg_threads s)"
      have "sum_list (map frame_units fr) = 0"
        using z fr nn unfolding thread_sum_def
        by (intro sum_zero_mem [of "mg_threads s" "\<lambda>fr. sum_list (map frame_units fr)"])
          (auto intro!: sum_list_nonneg)
      then show "fr = []"
        using sum_list_nonneg [of "map frame_units (tl fr)"] nn frame_units_pos [of "hd fr"]
        by (cases fr) auto
    qed
  qed (auto simp: thread_sum_def intro!: sum_list_all_zero)
  with ok ts show ?thesis by (auto simp: metric_ok_def)
qed

theorem manager_metric_drained_witness:
  "mg_unfinished_metric demo_start = 0 \<and> jq_container (mg_queue demo_start) = []"
  using manager_metric_drained [of demo_fs 1 8 1 zero_metrics demo_start]
  by (simp add: demo_start_def reach_start) (simp add: Manager_init_def)

subsection \<open>Termination\<close>

text \<open>The number of steps a job still takes, in a file system of depth at most \<open>n\<close>.\<close>

fun tree_steps :: "file_system \<Rightarrow> nat \<Rightarrow> scan_data \<Rightarrow> nat" where
  "tree_steps fs 0 d = 0"
| "tree_steps fs (Suc n) d = 7 + sum_list (map (\<lambda>c. tree_steps fs n c + 3) (node_children fs d))"

lemma tree_steps_Suc: "depth_ok fs n d \<Longrightarrow> tree_steps fs (Suc n) d = tree_steps fs n d"
proof (induction n arbitrary: d)
  case (Suc n)
  then have "map (\<lambda>c. tree_steps fs (Suc n) c + 3) (node_children fs d)
      = map (\<lambda>c. tree_steps fs n c + 3) (node_children fs d)"
    by (auto simp: list_all_iff simp del: tree_steps.simps(2))
  then show ?case by (simp only: tree_steps.simps(2) [of fs "Suc n"] tree_steps.simps(2) [of fs n])
qed simp

lemma tree_steps_unfold:
  "depth_ok fs n d \<Longrightarrow> tree_steps fs n d =
     7 + sum_list (map (\<lambda>c. tree_steps fs n c + 3) (node_children fs d))"
  using tree_steps_Suc [of fs n d] by simp

fun frame_steps :: "file_system \<Rightarrow> nat \<Rightarrow> frame \<Rightarrow> nat" where
  "frame_steps fs n (Begin d) = tree_steps fs n d"
| "frame_steps fs n (Loop d cs) = 6 + sum_list (map (\<lambda>c. tree_steps fs n c + 3) cs)"
| "frame_steps fs n (Submitting d cs c) =
     6 + sum_list (map (\<lambda>c. tree_steps fs n c + 3) cs) + (tree_steps fs n c + 2)"
| "frame_steps fs n (Ending d) = 5"
| "frame_steps fs n (Closing d) = 4"
| "frame_steps fs n (Signalling d c now) = 3"
| "frame_steps fs n (Recording row) = 2"
| "frame_steps fs n Tail = 1"

definition steps_left :: "file_system \<Rightarrow> nat \<Rightarrow> manager \<Rightarrow> nat" where
  "steps_left fs n s = sum_list (map (\<lambda>d. tree_steps fs n d + 1) (jq_container (mg_queue s)))
     + thread_sum (frame_steps fs n) s"

lemma frame_step_decreases:
  assumes "\<And>d. depth_ok fs n d" and st: "Manager_frame_step fs now f s = (new, s1)"
  shows "sum_list (map (\<lambda>d. tree_steps fs n d + 1) (jq_container (mg_queue s1)))
      + sum_list (map (frame_steps fs n) new)
    < sum_list (map (\<lambda>d. tree_steps fs n d + 1) (jq_container (mg_queue s))) + frame_steps fs n f"
proof (cases f)
  case (Begin d)
  with st tree_steps_unfold [OF assms(1), of d] show ?thesis
    by (auto simp: begin_step split: if_splits)
next
  case (Loop d cs)
  with st show ?thesis
    by (cases cs rule: rev_cases) (auto simp: Manager_frame_step_def Let_def split: if_splits)
next
  case (Submitting d cs c)
  obtain r q g where push: "JobQueue_try_push c (mg_queue s) = (r, q, g)" by (metis prod_cases3)
  then show ?thesis
    using st Submitting
    by (cases rule: try_push_cases [OF push]) (auto simp: Manager_frame_step_def Manager_pool_submit_def)
qed (use st in \<open>auto simp: Manager_frame_step_def Manager_unregister_def Let_def
      split: if_splits option.splits prod.splits\<close>)

definition worker_step :: "file_system \<Rightarrow> nat \<times> u64 \<Rightarrow> manager \<Rightarrow> manager option" where
  "worker_step fs m s = Manager_work fs (fst m) (snd m) s"

lemma worker_step_decreases:
  assumes dep: "\<And>d. depth_ok fs n d" and t: "worker_step fs m s = Some t"
  shows "steps_left fs n t < steps_left fs n s"
proof -
  obtain k now where m: "m = (k, now)" by (cases m)
  with t have w: "Manager_work fs k now s = Some t" by (simp add: worker_step_def)
  then have k: "k < length (mg_threads s)" by (simp add: Manager_work_def split: if_splits)
  show ?thesis
  proof (cases "mg_threads s ! k")
    case Nil
    with w k obtain d q g where pop: "JobQueue_pop (mg_queue s) = Some (Some d, q, g)"
        and t': "t = set_thread k [Begin d] (s\<lparr>mg_queue := q\<rparr>)"
      by (auto simp: Manager_work_def split: option.splits prod.splits)
    have "sum_mset (image_mset (\<lambda>d. tree_steps fs n d + 1) (mset (jq_container (mg_queue s))))
        = tree_steps fs n d + 1
          + sum_mset (image_mset (\<lambda>d. tree_steps fs n d + 1) (mset (jq_container q)))"
      unfolding pop_container(1) [OF pop] by simp
    then have "sum_list (map (\<lambda>d. tree_steps fs n d + 1) (jq_container (mg_queue s)))
        = tree_steps fs n d + 1 + sum_list (map (\<lambda>d. tree_steps fs n d + 1) (jq_container q))"
      by (simp flip: sum_mset_sum_list mset_map)
    moreover have "thread_sum (frame_steps fs n) t = thread_sum (frame_steps fs n) s + tree_steps fs n d"
      using thread_sum_replace [of k s "[]" "[]" "s\<lparr>mg_queue := q\<rparr>" "frame_steps fs n" "[Begin d]"]
        k Nil t' by simp
    ultimately show ?thesis using t' by (simp add: steps_left_def)
  next
    case (Cons f fr)
    obtain new s1 where st: "Manager_frame_step fs now f s = (new, s1)"
      by (cases "Manager_frame_step fs now f s")
    with Cons w k have t': "t = set_thread k (new @ fr) s1" by (simp add: Manager_work_def)
    have "thread_sum (frame_steps fs n) t + frame_steps fs n f
        = thread_sum (frame_steps fs n) s + sum_list (map (frame_steps fs n) new)"
      unfolding t' using thread_sum_replace [of k s "[f]" fr s1 "frame_steps fs n" new] k Cons
        frame_step_threads [OF st] by simp
    with frame_step_decreases [OF dep st] t' show ?thesis by (simp add: steps_left_def)
  qed
qed

lemma bounded_variant:
  assumes "\<And>d. depth_ok fs n d"
  shows "variant (worker_step fs) (\<lambda>s. True) (steps_left fs n)"
  by unfold_locales (simp_all add: worker_step_decreases [OF assms])

lemma idle_end:
  assumes "\<forall>m. worker_step fs m t = None" "mg_threads t \<noteq> []"
  shows "jq_container (mg_queue t) = [] \<and> (\<forall>stack \<in> set (mg_threads t). stack = [])"
proof -
  have idle: "mg_threads t ! k = []" if k: "k < length (mg_threads t)" for k
    using assms(1) [rule_format, of "(k, 0)"] k
    by (cases "mg_threads t ! k") (auto simp: worker_step_def Manager_work_def split: prod.splits)
  moreover have "jq_container (mg_queue t) = []"
  proof (rule ccontr)
    assume ne: "jq_container (mg_queue t) \<noteq> []"
    then obtain d q g where "JobQueue_pop (mg_queue t) = Some (Some d, q, g)"
      by (cases "jq_policy (mg_queue t)") (auto simp: JobQueue_pop_def)
    with assms(1) [rule_format, of "(0, 0)"] assms(2) idle [of 0] show False
      by (auto simp: worker_step_def Manager_work_def)
  qed
  ultimately show ?thesis by (metis in_set_conv_nth)
qed

text \<open>C17: The workers finish. In a file system of bounded depth (\<^verbatim>\<open>lstat\<close> fails beyond \<^verbatim>\<open>PATH_MAX\<close>) the
  workers alone take, from any state, at most \<^const>\<open>steps_left\<close> steps in whatever order, and some
  schedule brings them to a state in which the queue is empty and every worker is idle; any
  state in which no worker can move is such a state. So no job waits for another: the
  recursion on a full queue rules the deadlock out.\<close>

theorem manager_workers_terminate:
  assumes "\<And>d. depth_ok fs n d" and "mg_threads s \<noteq> []"
  shows "(\<forall>ms t. run (worker_step fs) ms s = Some t \<longrightarrow> length ms \<le> steps_left fs n s)
    \<and> (\<exists>ms t. run (worker_step fs) ms s = Some t \<and> jq_container (mg_queue t) = []
         \<and> (\<forall>stack \<in> set (mg_threads t). stack = []))"
proof -
  note v = bounded_variant [of fs n, OF assms(1)]
  have "length ms \<le> steps_left fs n s" if "run (worker_step fs) ms s = Some t" for ms t
    using variant.run_bounded [OF v that] by simp
  moreover obtain ms t where t: "run (worker_step fs) ms s = Some t" "\<forall>m. worker_step fs m t = None"
    using variant.run_to_end [OF v, of s] by blast
  have len: "length (mg_threads t') = length (mg_threads s')" if "run (worker_step fs) ms s' = Some t'"
    for ms s' t'
    using that
  proof (induction ms arbitrary: s')
    case (Cons m ms)
    then obtain u where u: "worker_step fs m s' = Some u" "run (worker_step fs) ms u = Some t'"
      by (auto split: option.splits)
    have "length (mg_threads u) = length (mg_threads s')"
      using u(1) frame_step_threads
      by (auto simp: worker_step_def Manager_work_def set_thread_def
          split: if_splits list.splits option.splits prod.splits)
    with Cons.IH [OF u(2)] show ?case by simp
  qed simp
  have "mg_threads t \<noteq> []" using len [OF t(1)] assms(2) by auto
  with t idle_end [OF t(2)] show ?thesis using calculation by blast
qed

lemma flat_depth: "depth_ok \<lparr>fs_lstat = (\<lambda>p. Inl 2), fs_opendir = (\<lambda>p. None), fs_readdir = (\<lambda>p. (0, []))\<rparr> 1 d"
  by (simp add: node_children_def MultiScanner_scan_one_node_def)

theorem manager_workers_terminate_witness:
  "\<exists>fs ms t. run (worker_step fs) ms demo_start = Some t
     \<and> (\<forall>stack \<in> set (mg_threads t). stack = [])"
proof -
  have "mg_threads demo_start \<noteq> []" by (simp add: demo_start_def Manager_init_def)
  from manager_workers_terminate [OF flat_depth this] show ?thesis by blast
qed

end
