(* ===== verification/Index_DB.thy ===== *)
theory Index_DB
  imports Formater
begin

section \<open>The index database (src/export\_system/db\_wrapper)\<close>

text \<open>
  The four tables, as lists of rows, and the SQL statements that \<^verbatim>\<open>IndexWriter\<close>, \<^verbatim>\<open>ScanTable\<close>,
  \<^verbatim>\<open>ScanDiff\<close> and \<^verbatim>\<open>IndexReader\<close> prepare and run, each as a function on the tables. The order of
  a list is the order in which SQLite happens to return rows; no result rests on it. An
  \<^verbatim>\<open>INSERT\<close> that hits a primary key fails and changes nothing (the code logs it and goes on).
  SQLite's \<^verbatim>\<open>GLOB\<close> and \<^verbatim>\<open>LIKE\<close> are parameters (\<open>glob pattern text\<close>), and so is the text of an
  error code. Numbers bound with \<^verbatim>\<open>bind_int64\<close> are compared as signed numbers.
\<close>

record history_row =
  hr_last_scan_id :: u64
  hr_path :: string
  hr_node_type :: node_type
  hr_mtime :: i64
  hr_msize :: u64
  hr_state :: event_state
  hr_err_msg :: string
  hr_extension :: string

record current_row =
  cr_scan_id :: u64
  cr_path :: string
  cr_node_type :: node_type
  cr_mtime :: i64
  cr_msize :: u64
  cr_state :: event_state
  cr_err_msg :: string
  cr_extension :: string

record task_entry =
  te_row :: scan_task_row
  te_dir_count :: "int option"
  te_file_count :: "int option"
  te_link_count :: "int option"
  te_total_size :: "int option"

record diff_row =
  dr_scan_id :: u64
  dr_path :: string
  dr_state :: scan_state
  dr_old_size :: u64

record index_db =
  index_history :: "history_row list"
  index_current :: "current_row list"
  scan_task_table :: "task_entry list"
  scan_diff_table :: "diff_row list"

definition empty_db :: index_db where
  "empty_db = \<lparr>index_history = [], index_current = [], scan_task_table = [], scan_diff_table = []\<rparr>"

subsection \<open>Running a write statement\<close>

datatype sqlite_rc = SQLITE_DONE | SQLITE_BUSY | SQLITE_LOCKED | SQLITE_OTHER

text \<open>\<^verbatim>\<open>step_write_done\<close> of \<^verbatim>\<open>index_writer.cpp\<close> and its copy in \<^verbatim>\<open>scan_diff.cpp\<close>: \<open>rcs\<close> are the answers
  of the successive \<^verbatim>\<open>sqlite3_step\<close> calls, \<open>k\<close> the calls the loop may still make. The result and
  the number of calls made.\<close>

fun step_write_loop :: "(nat \<Rightarrow> sqlite_rc) \<Rightarrow> nat \<Rightarrow> nat \<Rightarrow> bool \<times> nat" where
  "step_write_loop rcs i 0 = (False, i)"
| "step_write_loop rcs i (Suc k) =
     (if rcs i = SQLITE_DONE then (True, Suc i)
      else if rcs i = SQLITE_BUSY \<or> rcs i = SQLITE_LOCKED then step_write_loop rcs (Suc i) k
      else (False, Suc i))"

definition step_write_done :: "(nat \<Rightarrow> sqlite_rc) \<Rightarrow> nat \<Rightarrow> bool \<times> nat" where
  "step_write_done rcs max_retries = step_write_loop rcs 0 (Suc max_retries)"

lemma step_write_loop_spec:
  "fst (step_write_loop rcs i k) \<longleftrightarrow>
     (\<exists>j < k. rcs (i + j) = SQLITE_DONE \<and> (\<forall>l < j. rcs (i + l) \<in> {SQLITE_BUSY, SQLITE_LOCKED}))"
proof (induction k arbitrary: i)
  case 0
  then show ?case by simp
next
  case (Suc k)
  consider "rcs i = SQLITE_DONE" | "rcs i = SQLITE_BUSY \<or> rcs i = SQLITE_LOCKED" | "rcs i = SQLITE_OTHER"
    by (cases "rcs i") auto
  then show ?case
  proof cases
    case 1
    then show ?thesis by (auto intro!: exI [of _ 0])
  next
    case 2
    have "(\<exists>j < Suc k. rcs (i + j) = SQLITE_DONE \<and> (\<forall>l < j. rcs (i + l) \<in> {SQLITE_BUSY, SQLITE_LOCKED}))
      \<longleftrightarrow> (\<exists>j < k. rcs (Suc i + j) = SQLITE_DONE
            \<and> (\<forall>l < j. rcs (Suc i + l) \<in> {SQLITE_BUSY, SQLITE_LOCKED}))" (is "?A \<longleftrightarrow> ?B")
    proof
      assume ?A
      then obtain j where j: "j < Suc k" "rcs (i + j) = SQLITE_DONE"
          "\<forall>l < j. rcs (i + l) \<in> {SQLITE_BUSY, SQLITE_LOCKED}" by blast
      then obtain j' where "j = Suc j'" using 2 by (cases j) auto
      with j show ?B by (intro exI [of _ j']) auto
    next
      assume ?B
      then obtain j where j: "j < k" "rcs (Suc i + j) = SQLITE_DONE"
          "\<forall>l < j. rcs (Suc i + l) \<in> {SQLITE_BUSY, SQLITE_LOCKED}" by blast
      with 2 show ?A
        by (intro exI [of _ "Suc j"]) (auto simp: less_Suc_eq_0_disj)
    qed
    with 2 Suc.IH [of "Suc i"] show ?thesis by auto
  next
    case 3
    then show ?thesis by (auto simp: less_Suc_eq_0_disj)
  qed
qed

lemma step_write_loop_calls: "snd (step_write_loop rcs i k) \<le> i + k"
proof (induction k arbitrary: i)
  case (Suc k)
  show ?case using Suc.IH [of "Suc i"] by simp
qed simp

text \<open>A write succeeds just when \<^verbatim>\<open>sqlite3_step\<close> reports \<^verbatim>\<open>SQLITE_DONE\<close> within the first attempt
  and \<^verbatim>\<open>max_retries\<close> repetitions and every attempt before it found the database busy or locked;
  any other code ends the loop. At most \<^verbatim>\<open>max_retries\<close> + 1 attempts are made.\<close>

theorem step_write_done_retries:
  "(fst (step_write_done rcs r) \<longleftrightarrow>
      (\<exists>j \<le> r. rcs j = SQLITE_DONE \<and> (\<forall>l < j. rcs l \<in> {SQLITE_BUSY, SQLITE_LOCKED})))
   \<and> snd (step_write_done rcs r) \<le> r + 1"
  using step_write_loop_spec [of rcs 0 "Suc r"] step_write_loop_calls [of rcs 0 "Suc r"]
  by (auto simp: step_write_done_def less_Suc_eq_le)

theorem step_write_done_retries_witness:
  "fst (step_write_done (\<lambda>j. if j < 2 then SQLITE_BUSY else SQLITE_DONE) 3)"
proof -
  let ?rcs = "\<lambda>j :: nat. if j < 2 then SQLITE_BUSY else SQLITE_DONE"
  have "\<exists>j \<le> 3. ?rcs j = SQLITE_DONE \<and> (\<forall>l < j. ?rcs l \<in> {SQLITE_BUSY, SQLITE_LOCKED})"
    by (intro exI [of _ 2]) simp
  then show ?thesis using step_write_done_retries [of ?rcs 3] by blast
qed

subsection \<open>IndexWriter\<close>

text \<open>\<^verbatim>\<open>get_extension\<close>: what follows the last dot of the whole path.\<close>

fun after_last_dot :: "string \<Rightarrow> string option" where
  "after_last_dot [] = None"
| "after_last_dot (c # s) =
     (case after_last_dot s of
        Some e \<Rightarrow> Some e
      | None \<Rightarrow> if c = CHR ''.'' then Some s else None)"

definition IndexWriter_get_extension :: "string \<Rightarrow> string" where
  "IndexWriter_get_extension path = (case after_last_dot path of None \<Rightarrow> [] | Some e \<Rightarrow> e)"

definition insert_history :: "history_row \<Rightarrow> history_row list \<Rightarrow> history_row list" where
  "insert_history r h =
     (if list_ex (\<lambda>x. hr_path x = hr_path r \<and> hr_last_scan_id x = hr_last_scan_id r) h then h
      else h @ [r])"

definition replace_current :: "current_row \<Rightarrow> current_row list \<Rightarrow> current_row list" where
  "replace_current r c = filter (\<lambda>x. cr_path x \<noteq> cr_path r) c @ [r]"

definition current_at :: "current_row list \<Rightarrow> string \<Rightarrow> current_row option" where
  "current_at c p = List.find (\<lambda>x. cr_path x = p) c"

text \<open>The rows that \<^verbatim>\<open>upsert\<close> writes for an event; \<open>message\<close> is \<^verbatim>\<open>error_code::message\<close>.\<close>

definition event_current :: "(int \<Rightarrow> string) \<Rightarrow> file_event \<Rightarrow> current_row" where
  "event_current message e =
     \<lparr>cr_scan_id = fe_scan_id e, cr_path = fe_path e, cr_node_type = fe_node_type e,
      cr_mtime = fe_modtime e, cr_msize = fe_size e,
      cr_state = (if fe_err e = 0 then Alive else Error),
      cr_err_msg = (if fe_err e = 0 then [] else message (fe_err e)),
      cr_extension = IndexWriter_get_extension (fe_path e)\<rparr>"

definition event_history :: "(int \<Rightarrow> string) \<Rightarrow> file_event \<Rightarrow> history_row" where
  "event_history message e =
     \<lparr>hr_last_scan_id = fe_scan_id e, hr_path = fe_path e, hr_node_type = fe_node_type e,
      hr_mtime = fe_modtime e, hr_msize = fe_size e,
      hr_state = (if fe_err e = 0 then Alive else Error),
      hr_err_msg = (if fe_err e = 0 then [] else message (fe_err e)),
      hr_extension = IndexWriter_get_extension (fe_path e)\<rparr>"

definition IndexWriter_upsert :: "(int \<Rightarrow> string) \<Rightarrow> file_event \<Rightarrow> index_db \<Rightarrow> index_db" where
  "IndexWriter_upsert message row db =
     (let latest = (case current_at (index_current db) (fe_path row) of
                      Some c \<Rightarrow> (cr_mtime c, cr_msize c) | None \<Rightarrow> (- 1, - 1));
          db1 = db\<lparr>index_current := replace_current (event_current message row) (index_current db)\<rparr>
      in if fe_modtime row = fst latest \<and> fe_size row = snd latest then db1
         else db1\<lparr>index_history := insert_history (event_history message row) (index_history db)\<rparr>)"

text \<open>\<^verbatim>\<open>mark_deleted\<close>: an \<^verbatim>\<open>INSERT ... SELECT\<close> that fails as a whole on a key conflict, then the
  \<^verbatim>\<open>DELETE\<close>.\<close>

definition unseen_under :: "(string \<Rightarrow> string \<Rightarrow> bool) \<Rightarrow> delete_task \<Rightarrow> current_row \<Rightarrow> bool" where
  "unseen_under glob info r \<longleftrightarrow>
     glob (dt_submit_root info @ ''/*'') (cr_path r) \<and> cr_scan_id r \<noteq> dt_scan_id info"

definition deleted_row :: "delete_task \<Rightarrow> current_row \<Rightarrow> history_row" where
  "deleted_row info r =
     \<lparr>hr_last_scan_id = dt_scan_id info, hr_path = cr_path r, hr_node_type = cr_node_type r,
      hr_mtime = cr_mtime r, hr_msize = cr_msize r,
      hr_state = (if dt_canceled info then Event_Canceled else Deleted),
      hr_err_msg = [], hr_extension = cr_extension r\<rparr>"

definition history_key :: "history_row \<Rightarrow> string \<times> u64" where
  "history_key r = (hr_path r, hr_last_scan_id r)"

definition IndexWriter_mark_deleted ::
    "(string \<Rightarrow> string \<Rightarrow> bool) \<Rightarrow> delete_task \<Rightarrow> index_db \<Rightarrow> index_db" where
  "IndexWriter_mark_deleted glob info db =
     (let rows = map (deleted_row info) (filter (unseen_under glob info) (index_current db));
          h = (if distinct (map history_key (index_history db @ rows))
               then index_history db @ rows else index_history db)
      in db\<lparr>index_history := h,
            index_current := (if dt_canceled info then index_current db
              else filter (\<lambda>r. \<not> unseen_under glob info r) (index_current db))\<rparr>)"

subsection \<open>ScanDiff, IndexReader: the difference to the scans before\<close>

fun event_to_scan_state :: "event_state \<Rightarrow> scan_state" where
  "event_to_scan_state Alive = New"
| "event_to_scan_state Error = Scan_Error"
| "event_to_scan_state Deleted = Scan_Deleted"
| "event_to_scan_state Event_Canceled = Scan_Canceled"

lemma event_to_scan_state_code: "scan_state_code (event_to_scan_state st) = event_state_code st"
  by (cases st) simp_all

definition ScanDiff_stmt_upsert :: "diff_row \<Rightarrow> index_db \<Rightarrow> index_db" where
  "ScanDiff_stmt_upsert row db =
     (if list_ex (\<lambda>d. dr_scan_id d = dr_scan_id row \<and> dr_path d = dr_path row) (scan_diff_table db) then db
      else db\<lparr>scan_diff_table := scan_diff_table db @ [row]\<rparr>)"

declare ScanDiff_stmt_upsert_def [simp]

definition ScanDiff_upsert :: "u64 \<Rightarrow> string \<Rightarrow> scan_state \<Rightarrow> u64 \<Rightarrow> index_db \<Rightarrow> index_db" where
  "ScanDiff_upsert i path diff_state old_size =
     ScanDiff_stmt_upsert \<lparr>dr_scan_id = i, dr_path = path, dr_state = diff_state, dr_old_size = old_size\<rparr>"

text \<open>\<^verbatim>\<open>ORDER BY last_scan_id DESC LIMIT 1\<close>.\<close>

fun latest_row :: "history_row list \<Rightarrow> history_row option" where
  "latest_row [] = None"
| "latest_row (r # rs) =
     (case latest_row rs of
        None \<Rightarrow> Some r
      | Some m \<Rightarrow> if sint (hr_last_scan_id m) < sint (hr_last_scan_id r) then Some r else Some m)"

definition previous_row :: "u64 \<Rightarrow> string \<Rightarrow> history_row list \<Rightarrow> history_row option" where
  "previous_row i path h = latest_row
     (filter (\<lambda>p. hr_path p = path \<and> sint (hr_last_scan_id p) < sint i
                \<and> hr_state p \<noteq> Event_Canceled) h)"

definition diff_state_of :: "event_state \<Rightarrow> history_row option \<Rightarrow> scan_state" where
  "diff_state_of st prev =
     (if event_to_scan_state st = New
      then (case prev of
              None \<Rightarrow> New
            | Some p \<Rightarrow> if event_to_scan_state (hr_state p) = Scan_Deleted then New else Changed)
      else event_to_scan_state st)"

definition IndexReader_find_scan_diff_and_upsert_scandiff :: "u64 \<Rightarrow> index_db \<Rightarrow> index_db" where
  "IndexReader_find_scan_diff_and_upsert_scandiff i db =
     foldl (\<lambda>db r. let prev = previous_row i (hr_path r) (index_history db) in
              ScanDiff_upsert i (hr_path r) (diff_state_of (hr_state r) prev)
                (case prev of None \<Rightarrow> 0 | Some p \<Rightarrow> hr_msize p) db)
       db (filter (\<lambda>r. hr_last_scan_id r = i) (index_history db))"

text \<open>\<^verbatim>\<open>get_scan_diff_count\<close>, and \<^verbatim>\<open>get_scan_diff_detail\<close> with the rows it passes to its callback.\<close>

definition ScanDiff_stmt_get_count :: "u64 \<Rightarrow> scan_state \<Rightarrow> index_db \<Rightarrow> nat" where
  "ScanDiff_stmt_get_count i st db = length (filter (\<lambda>d. dr_scan_id d = i \<and> dr_state d = st) (scan_diff_table db))"

declare ScanDiff_stmt_get_count_def [simp]

definition ScanDiff_get_scan_diff_count :: "u64 \<Rightarrow> index_db \<Rightarrow> nat list" where
  "ScanDiff_get_scan_diff_count i db =
     map (\<lambda>st. ScanDiff_stmt_get_count i st db) [New, Scan_Error, Scan_Deleted, Scan_Canceled, Changed]"

definition sql_page :: "int \<Rightarrow> int \<Rightarrow> 'a list \<Rightarrow> 'a list" where
  "sql_page limit offset rows =
     (let r = drop (nat offset) rows in if limit < 0 then r else take (nat limit) r)"

definition ScanDiff_stmt_get_detail ::
    "u64 \<Rightarrow> scan_state option \<Rightarrow> index_db \<Rightarrow> (diff_row \<times> history_row) list" where
  "ScanDiff_stmt_get_detail i state_filter db =
     concat (map (\<lambda>d. map (\<lambda>r. (d, r))
            (filter (\<lambda>r. hr_path r = dr_path d \<and> hr_last_scan_id r = dr_scan_id d) (index_history db)))
          (filter (\<lambda>d. dr_scan_id d = i \<and> (state_filter = None \<or> Some (dr_state d) = state_filter))
             (scan_diff_table db)))"

declare ScanDiff_stmt_get_detail_def [simp]

definition ScanDiff_get_scan_diff_detail ::
    "u64 \<Rightarrow> scan_state option \<Rightarrow> int \<Rightarrow> int \<Rightarrow> index_db \<Rightarrow> (diff_row \<times> history_row) list" where
  "ScanDiff_get_scan_diff_detail i state_filter limit offset db =
     sql_page limit offset (ScanDiff_stmt_get_detail i state_filter db)"

subsection \<open>ScanTable\<close>

text \<open>The statements, with their parameters bound.\<close>

definition ScanTable_stmt_upsert :: "scan_task_row \<Rightarrow> index_db \<Rightarrow> index_db" where
  "ScanTable_stmt_upsert row db =
     (if list_ex (\<lambda>t. st_scan_id (te_row t) = st_scan_id row) (scan_task_table db) then db
      else db\<lparr>scan_task_table := scan_task_table db
             @ [\<lparr>te_row = row, te_dir_count = None, te_file_count = None, te_link_count = None,
                  te_total_size = None\<rparr>]\<rparr>)"

definition ScanTable_stmt_update_cnt :: "u64 \<Rightarrow> int \<Rightarrow> int \<Rightarrow> int \<Rightarrow> int \<Rightarrow> index_db \<Rightarrow> index_db" where
  "ScanTable_stmt_update_cnt i dir_count file_count link_count total_size db =
     db\<lparr>scan_task_table := map (\<lambda>t. if st_scan_id (te_row t) = i
          then t\<lparr>te_dir_count := Some dir_count, te_file_count := Some file_count,
                 te_link_count := Some link_count, te_total_size := Some total_size\<rparr>
          else t) (scan_task_table db)\<rparr>"

definition ScanTable_stmt_finish :: "u64 \<Rightarrow> u64 \<Rightarrow> index_db \<Rightarrow> index_db" where
  "ScanTable_stmt_finish i finish_time db =
     db\<lparr>scan_task_table := map (\<lambda>t. if st_scan_id (te_row t) = i
          then t\<lparr>te_row := (te_row t)\<lparr>st_finish_time := finish_time\<rparr>\<rparr> else t) (scan_task_table db)\<rparr>"

text \<open>\<^verbatim>\<open>MAX(scan_id)\<close> is NULL, read as 0, for the empty table.\<close>

definition ScanTable_stmt_get_max_id :: "index_db \<Rightarrow> u64" where
  "ScanTable_stmt_get_max_id db =
     foldl (\<lambda>m i. if sint m < sint i then i else m)
       (case scan_task_table db of [] \<Rightarrow> 0 | t # ts \<Rightarrow> st_scan_id (te_row t))
       (map (\<lambda>t. st_scan_id (te_row t)) (scan_task_table db))"

definition ScanTable_stmt_get_count :: "u64 \<Rightarrow> index_db \<Rightarrow> int \<times> int \<times> int \<times> int" where
  "ScanTable_stmt_get_count i db =
     (let rows = filter (\<lambda>r. cr_scan_id r = i) (index_current db);
          count = (\<lambda>nt. int (length (filter (\<lambda>r. cr_node_type r = nt) rows)))
      in (count DIR, count FILE, count LINK, sum_list (map (\<lambda>r. sint (cr_msize r)) rows)))"

declare ScanTable_stmt_upsert_def [simp] ScanTable_stmt_update_cnt_def [simp] ScanTable_stmt_finish_def [simp]
  ScanTable_stmt_get_max_id_def [simp] ScanTable_stmt_get_count_def [simp]

definition ScanTable_upsert :: "scan_task_row \<Rightarrow> index_db \<Rightarrow> index_db" where
  "ScanTable_upsert row = ScanTable_stmt_upsert row"

definition ScanTable_update_end :: "u64 \<Rightarrow> u64 \<Rightarrow> index_db \<Rightarrow> index_db" where
  "ScanTable_update_end i finish_time = ScanTable_stmt_finish i finish_time"

definition ScanTable_get_data :: "u64 \<Rightarrow> index_db \<Rightarrow> task_entry option" where
  "ScanTable_get_data i db = List.find (\<lambda>t. st_scan_id (te_row t) = i) (scan_task_table db)"

definition ScanTable_get_all :: "int \<Rightarrow> int \<Rightarrow> index_db \<Rightarrow> scan_task_row list" where
  "ScanTable_get_all limit offset db =
     sql_page limit offset (rev (sort_key (\<lambda>r. sint (st_scan_id r)) (map te_row (scan_task_table db))))"

definition ScanTable_get_max_id :: "index_db \<Rightarrow> u64" where
  "ScanTable_get_max_id db = ScanTable_stmt_get_max_id db"

text \<open>\<^verbatim>\<open>upsert_count\<close>: the counts of the rows of \<^verbatim>\<open>index_current\<close> that the scan wrote.\<close>

definition ScanTable_upsert_count :: "u64 \<Rightarrow> index_db \<Rightarrow> index_db" where
  "ScanTable_upsert_count i db =
     (case ScanTable_stmt_get_count i db of (dir_count, file_count, link_count, total_size) \<Rightarrow>
        ScanTable_stmt_update_cnt i dir_count file_count link_count total_size db)"

end
