(* ===== verification/Index_Reader.thy ===== *)
theory Index_Reader
  imports Index_DB "HOL-Library.Char_ord" "HOL-Library.List_Lexorder"
begin

section \<open>IndexReader: the queries behind the statistics pages (index\_reader.cpp)\<close>

text \<open>
  The text helpers on paths and the queries of the index. \<^verbatim>\<open>GLOB\<close> and \<^verbatim>\<open>LIKE\<close> are parameters as in
  theory \<open>Index_DB\<close>; texts are compared byte by byte, which is the order of \<^typ>\<open>char list\<close> here.
\<close>

subsection \<open>Path helpers\<close>

fun find_last_of :: "char \<Rightarrow> string \<Rightarrow> nat option" where
  "find_last_of c [] = None"
| "find_last_of c (x # s) =
     (case find_last_of c s of Some k \<Rightarrow> Some (Suc k) | None \<Rightarrow> if x = c then Some 0 else None)"

text \<open>The loop over equal characters.\<close>

fun common_length :: "string \<Rightarrow> string \<Rightarrow> nat" where
  "common_length (x # a) (y # b) = (if x = y then Suc (common_length a b) else 0)"
| "common_length _ _ = 0"

definition drop_slash :: "string \<Rightarrow> string" where
  "drop_slash prefix = (if 1 < length prefix \<and> last prefix = CHR ''/'' then butlast prefix else prefix)"

definition IndexReader_get_common_parent :: "string \<Rightarrow> string \<Rightarrow> string" where
  "IndexReader_get_common_parent a b =
     (let i = common_length a b in
      if i = 0 then []
      else
        let boundary = ((i = length a \<or> a ! i = CHR ''/'') \<and> (i = length b \<or> b ! i = CHR ''/''));
            prefix = take i a
        in if boundary then drop_slash prefix
           else case find_last_of (CHR ''/'') prefix of
                  None \<Rightarrow> []
                | Some cutpos \<Rightarrow> drop_slash (take cutpos prefix))"

definition IndexReader_get_snd_layer :: "string \<Rightarrow> string \<Rightarrow> string" where
  "IndexReader_get_snd_layer path root =
     (let after_root = drop (length root + 1) path in
      case str_find ''/'' after_root of
        None \<Rightarrow> path
      | Some pos \<Rightarrow> root @ ''/'' @ take pos after_root)"

lemma find_last_of_Some:
  "find_last_of c s = Some k \<Longrightarrow> \<exists>u v. s = u @ c # v \<and> length u = k \<and> c \<notin> set v"
proof (induction s arbitrary: k)
  case Nil
  then show ?case by simp
next
  case (Cons x s)
  show ?case
  proof (cases "find_last_of c s")
    case None
    have "c \<notin> set s" using None by (induction s) (auto split: option.splits if_splits)
    with None Cons.prems show ?thesis by (auto split: if_splits intro!: exI [of _ "[]"])
  next
    case (Some j)
    with Cons.IH obtain u v where "s = u @ c # v" "length u = j" "c \<notin> set v" by blast
    with Some Cons.prems show ?thesis by (intro exI [of _ "x # u"] exI [of _ v]) auto
  qed
qed

lemma common_length_bounds: "common_length a b \<le> length a \<and> common_length a b \<le> length b"
  by (induction a b rule: common_length.induct) auto

lemma common_length_take: "take (common_length a b) a = take (common_length a b) b"
  by (induction a b rule: common_length.induct) auto

lemma below_drop_slash: "below r p \<Longrightarrow> r \<noteq> [] \<Longrightarrow> below (drop_slash r) p"
proof (cases "1 < length r \<and> last r = CHR ''/''")
  case True
  assume b: "below r p"
  have r: "r = butlast r @ ''/''" using True by (metis append_butlast_last_id list.size(3) not_one_less_zero)
  from b obtain t where "p = r @ t" by (auto simp: below_iff)
  then have "p = butlast r @ CHR ''/'' # t" by (subst (asm) r) simp
  with True show ?thesis by (auto simp: drop_slash_def below_iff)
qed (auto simp: drop_slash_def)

text \<open>\<^verbatim>\<open>get_common_parent\<close> returns the empty text or a path of which both arguments are
  descendants, at component boundaries.\<close>

theorem get_common_parent_ancestor:
  assumes "IndexReader_get_common_parent a b \<noteq> []"
  shows "below (IndexReader_get_common_parent a b) a \<and> below (IndexReader_get_common_parent a b) b"
proof -
  let ?i = "common_length a b"
  define prefix where "prefix = take ?i a"
  have pb: "prefix = take ?i b" unfolding prefix_def by (rule common_length_take)
  have i: "?i \<noteq> 0"
  proof
    assume "?i = 0"
    then have "IndexReader_get_common_parent a b = []"
      unfolding IndexReader_get_common_parent_def Let_def by (simp only: if_True refl)
    with assms show False by simp
  qed
  then have ne: "prefix \<noteq> []" using common_length_bounds [of a b] by (auto simp: prefix_def)
  have split: "p = prefix @ drop ?i p" if "p = a \<or> p = b" for p
    using that by (metis append_take_drop_id pb prefix_def)
  show ?thesis
  proof (cases "(?i = length a \<or> a ! ?i = CHR ''/'') \<and> (?i = length b \<or> b ! ?i = CHR ''/'')")
    case True
    have "below prefix p" if p: "p = a \<or> p = b" for p
    proof (cases "?i = length p")
      case True
      then show ?thesis using split [OF p] by (simp add: below_iff)
    next
      case False
      then have lt: "?i < length p" using p common_length_bounds [of a b] by auto
      then have "drop ?i p = CHR ''/'' # drop (Suc ?i) p"
        using p True False by (auto simp: Cons_nth_drop_Suc [symmetric])
      then show ?thesis using split [OF p] by (metis below_iff)
    qed
    moreover have "IndexReader_get_common_parent a b = drop_slash prefix"
      unfolding IndexReader_get_common_parent_def Let_def prefix_def using i True by (simp only: simp_thms if_True if_False)
    ultimately show ?thesis using below_drop_slash [OF _ ne] by metis
  next
    case False
    then have g: "IndexReader_get_common_parent a b = (case find_last_of (CHR ''/'') prefix of
        None \<Rightarrow> [] | Some cutpos \<Rightarrow> drop_slash (take cutpos prefix))"
      unfolding IndexReader_get_common_parent_def Let_def prefix_def using i by (simp only: if_False)
    with assms obtain cutpos where cutpos: "find_last_of (CHR ''/'') prefix = Some cutpos"
      by (cases "find_last_of (CHR ''/'') prefix") auto
    then obtain u v where uv: "prefix = u @ CHR ''/'' # v" "length u = cutpos"
      using find_last_of_Some by blast
    then have r: "IndexReader_get_common_parent a b = drop_slash u" using g cutpos by simp
    then have "u \<noteq> []" using assms by (auto simp: drop_slash_def)
    moreover have "below u p" if "p = a \<or> p = b" for p
      using split [OF that] uv(1) by (metis append.assoc append_Cons below_iff)
    ultimately show ?thesis using below_drop_slash r by metis
  qed
qed

theorem get_common_parent_ancestor_witness:
  "IndexReader_get_common_parent ''/a/b'' ''/a/c'' = ''/a'' \<and> below ''/a'' ''/a/b'' \<and> below ''/a'' ''/a/c''"
proof -
  have e: "IndexReader_get_common_parent ''/a/b'' ''/a/c'' = ''/a''" by code_simp
  with get_common_parent_ancestor [of "''/a/b''" "''/a/c''"] show ?thesis by simp
qed

text \<open>\<^verbatim>\<open>get_snd_layer\<close> maps a path below the root to the child of the root on its way: the root, a
  slash and one component.\<close>

theorem get_snd_layer_child:
  assumes "starts_with (root @ ''/'') path"
  shows "\<exists>component. IndexReader_get_snd_layer path root = root @ ''/'' @ component
    \<and> CHR ''/'' \<notin> set component \<and> below (IndexReader_get_snd_layer path root) path"
proof -
  obtain t where t: "path = root @ CHR ''/'' # t" using assms by (auto simp: starts_with_iff)
  then have d: "drop (length root + 1) path = t" by simp
  show ?thesis
  proof (cases "str_find ''/'' t")
    case None
    then have "CHR ''/'' \<notin> set t"
      using str_find_None [of "''/''" t] by (auto dest!: split_list)
    with None t d show ?thesis by (simp add: IndexReader_get_snd_layer_def)
  next
    case (Some pos)
    then obtain u v where uv: "t = u @ CHR ''/'' # v" "length u = pos"
      using str_find_Some by fastforce
    have "CHR ''/'' \<notin> set u"
    proof
      assume "CHR ''/'' \<in> set u"
      then obtain j where j: "j < length u" "u ! j = CHR ''/''" by (auto simp: in_set_conv_nth)
      then have "starts_with ''/'' (drop j t)"
        using uv(1) by (auto simp: starts_with_def take_Suc_conv_app_nth drop_Suc hd_drop_conv_nth
            nth_append take_Suc)
      with str_find_first [OF Some, of j] j uv(2) show False by simp
    qed
    with Some t d uv show ?thesis
      by (auto simp: IndexReader_get_snd_layer_def below_iff)
  qed
qed

theorem get_snd_layer_child_witness:
  "IndexReader_get_snd_layer ''/r/a/b'' ''/r'' = ''/r/a'' \<and> below ''/r/a'' ''/r/a/b''"
proof -
  have e: "IndexReader_get_snd_layer ''/r/a/b'' ''/r'' = ''/r/a''" by code_simp
  with get_snd_layer_child [of "''/r''" "''/r/a/b''"] show ?thesis by (simp add: starts_with_def)
qed

subsection \<open>The top root\<close>

definition IndexReader_stmt_get_top_root :: "index_db \<Rightarrow> (string \<times> string) option" where
  "IndexReader_stmt_get_top_root db =
     (case filter (\<lambda>p. [] < p) (map cr_path (index_current db)) of
        [] \<Rightarrow> None
      | p # ps \<Rightarrow> Some (foldl min p ps, foldl max p ps))"

declare IndexReader_stmt_get_top_root_def [simp]

definition IndexReader_get_top_root_in_index :: "index_db \<Rightarrow> string" where
  "IndexReader_get_top_root_in_index db =
     (case IndexReader_stmt_get_top_root db of
        None \<Rightarrow> []
      | Some (min_path, max_path) \<Rightarrow> IndexReader_get_common_parent min_path max_path)"

lemma foldl_min_le: "foldl min (p :: string) ps \<le> p \<and> (\<forall>x \<in> set ps. foldl min p ps \<le> x)"
proof (induction ps arbitrary: p)
  case (Cons x ps)
  have "foldl min (min p x) ps \<le> min p x" "\<forall>y \<in> set ps. foldl min (min p x) ps \<le> y"
    using Cons.IH [of "min p x"] by auto
  then show ?case by simp
qed simp

lemma foldl_max_ge: "(p :: string) \<le> foldl max p ps \<and> (\<forall>x \<in> set ps. x \<le> foldl max p ps)"
proof (induction ps arbitrary: p)
  case (Cons x ps)
  have "max p x \<le> foldl max (max p x) ps" "\<forall>y \<in> set ps. y \<le> foldl max (max p x) ps"
    using Cons.IH [of "max p x"] by auto
  then show ?case by simp
qed simp

text \<open>What lies between two texts shares their common beginning.\<close>

lemma between_prefix: "c @ u \<le> p \<Longrightarrow> p \<le> c @ v \<Longrightarrow> starts_with c (p :: string)"
proof (induction c arbitrary: p)
  case (Cons x c)
  show ?case
  proof (cases p)
    case Nil
    with Cons.prems(1) show ?thesis by simp
  next
    case (Cons y q)
    with Cons.prems have "x = y" "c @ u \<le> q" "q \<le> c @ v" by auto
    with Cons.IH Cons show ?thesis by (auto simp: starts_with_def)
  qed
qed simp

text \<open>The root that the index page shows is a common ancestor of the least and the greatest path of
  the index, and every path of the index begins with its text.\<close>

theorem top_root_prefix:
  assumes "r \<in> set (index_current db)" and "cr_path r \<noteq> []"
  shows "starts_with (IndexReader_get_top_root_in_index db) (cr_path r)"
proof (cases "IndexReader_get_top_root_in_index db = []")
  case False
  let ?ps = "filter (\<lambda>p. [] < p) (map cr_path (index_current db))"
  have "[] < cr_path r" using assms(2) by (cases "cr_path r") simp_all
  then have mem: "cr_path r \<in> set ?ps" using assms(1) by auto
  then obtain p ps where ps: "?ps = p # ps" by (cases ?ps) auto
  let ?a = "foldl min p ps" and ?b = "foldl max p ps"
  have top: "IndexReader_get_top_root_in_index db = IndexReader_get_common_parent ?a ?b"
    by (simp add: IndexReader_get_top_root_in_index_def ps)
  then have "below (IndexReader_get_top_root_in_index db) ?a"
      "below (IndexReader_get_top_root_in_index db) ?b"
    using get_common_parent_ancestor False by simp_all
  then obtain u v where uv: "?a = IndexReader_get_top_root_in_index db @ u"
      "?b = IndexReader_get_top_root_in_index db @ v"
    by (auto simp: below_iff)
  have "?a \<le> cr_path r" "cr_path r \<le> ?b"
    using mem foldl_min_le [of p ps] foldl_max_ge [of p ps] ps by auto
  then show ?thesis using between_prefix uv by metis
qed simp

theorem top_root_prefix_witness:
  "starts_with (IndexReader_get_top_root_in_index (empty_db\<lparr>index_current :=
     [\<lparr>cr_scan_id = 1, cr_path = ''/a'', cr_node_type = DIR, cr_mtime = 0, cr_msize = 0,
      cr_state = Alive, cr_err_msg = [], cr_extension = []\<rparr>]\<rparr>)) ''/a''"
proof -
  let ?r = "\<lparr>cr_scan_id = 1, cr_path = ''/a'', cr_node_type = DIR, cr_mtime = 0, cr_msize = 0,
      cr_state = Alive, cr_err_msg = [], cr_extension = []\<rparr> :: current_row"
  show ?thesis using top_root_prefix [of ?r "empty_db\<lparr>index_current := [?r]\<rparr>"] by simp
qed

text \<open>But the index page's root need not be an ancestor of every path of the index: a sibling whose
  name continues the root's name with a character below the slash is missed.\<close>

theorem top_root_misses_sibling:
  "\<exists>db. map cr_path (index_current db) = [''/x'', ''/x.txt'', ''/x/z'']
     \<and> IndexReader_get_top_root_in_index db = ''/x'' \<and> \<not> below ''/x'' ''/x.txt''"
proof -
  let ?row = "\<lambda>p. \<lparr>cr_scan_id = 1, cr_path = p, cr_node_type = FILE, cr_mtime = 0, cr_msize = 0,
      cr_state = Alive, cr_err_msg = [], cr_extension = []\<rparr> :: current_row"
  let ?db = "empty_db\<lparr>index_current := map ?row [''/x'', ''/x.txt'', ''/x/z'']\<rparr>"
  have "IndexReader_get_top_root_in_index ?db = ''/x''"
    by (simp add: IndexReader_get_top_root_in_index_def IndexReader_get_common_parent_def
        min_def max_def less_char_def less_eq_char_def drop_slash_def)
  then show ?thesis by (intro exI [of _ ?db]) (simp add: below_iff)
qed

subsection \<open>Sizes by folder and by extension; search\<close>

definition add_size :: "string \<Rightarrow> u64 \<Rightarrow> (string \<times> u64) list \<Rightarrow> (string \<times> u64) list" where
  "add_size k n m = AList.update k ((case map_of m k of None \<Rightarrow> 0 | Some v \<Rightarrow> v) + n) m"

fun group_by_folder_loop ::
    "string \<Rightarrow> current_row list \<Rightarrow> (string \<times> u64) list \<Rightarrow> (string \<times> u64) list" where
  "group_by_folder_loop root [] m = m"
| "group_by_folder_loop root (r # rs) m =
     (let snd_layer = IndexReader_get_snd_layer (cr_path r) root in
      if cr_path r = snd_layer \<and> cr_node_type r \<noteq> DIR then group_by_folder_loop root rs m
      else group_by_folder_loop root rs (add_size snd_layer (cr_msize r) m))"

definition IndexReader_stmt_group_by_folder ::
    "(string \<Rightarrow> string \<Rightarrow> bool) \<Rightarrow> string \<Rightarrow> index_db \<Rightarrow> current_row list" where
  "IndexReader_stmt_group_by_folder glob pattern db = filter (\<lambda>r. glob pattern (cr_path r)) (index_current db)"

definition IndexReader_stmt_group_by_extension ::
    "(string \<Rightarrow> string \<Rightarrow> bool) \<Rightarrow> string \<Rightarrow> node_type \<Rightarrow> index_db \<Rightarrow> (string \<times> nat \<times> u64) list" where
  "IndexReader_stmt_group_by_extension glob pattern nt db =
     (let rows = filter (\<lambda>r. glob pattern (cr_path r) \<and> cr_node_type r = nt) (index_current db)
      in map (\<lambda>ext. let g = filter (\<lambda>r. cr_extension r = ext) rows
                    in (ext, length g, sum_list (map cr_msize g)))
           (remdups (map cr_extension rows)))"

definition IndexReader_stmt_search ::
    "(string \<Rightarrow> string \<Rightarrow> bool) \<Rightarrow> string \<Rightarrow> int \<Rightarrow> int \<Rightarrow> index_db \<Rightarrow> current_row list" where
  "IndexReader_stmt_search like pattern limit offset db =
     sql_page limit offset (filter (\<lambda>r. like pattern (cr_path r)) (index_current db))"

declare IndexReader_stmt_group_by_folder_def [simp] IndexReader_stmt_group_by_extension_def [simp]
  IndexReader_stmt_search_def [simp]

definition IndexReader_group_by_folder_in_snd_layer ::
    "(string \<Rightarrow> string \<Rightarrow> bool) \<Rightarrow> string \<Rightarrow> index_db \<Rightarrow> (string \<times> u64) list" where
  "IndexReader_group_by_folder_in_snd_layer glob root db =
     group_by_folder_loop root (IndexReader_stmt_group_by_folder glob (root @ ''/*'') db) []"

definition IndexReader_group_by_extension ::
    "(string \<Rightarrow> string \<Rightarrow> bool) \<Rightarrow> string \<Rightarrow> index_db \<Rightarrow> (string \<times> nat \<times> u64) list" where
  "IndexReader_group_by_extension glob root db =
     IndexReader_stmt_group_by_extension glob (root @ ''/*'') FILE db"

definition IndexReader_search ::
    "(string \<Rightarrow> string \<Rightarrow> bool) \<Rightarrow> string \<Rightarrow> int \<Rightarrow> int \<Rightarrow> index_db \<Rightarrow> current_row list" where
  "IndexReader_search like path limit offset db =
     (let normalized = drop_slash path in
      if normalized = [] then []
      else IndexReader_stmt_search like (CHR ''%'' # normalized @ ''%'') limit offset db)"

lemma sum_add_size:
  "distinct (map fst m) \<Longrightarrow> sum_list (map snd (add_size k n m)) = sum_list (map snd m) + n"
proof -
  have "sum_list (map snd (AList.update k v m)) + (case map_of m k of None \<Rightarrow> 0 | Some w \<Rightarrow> w)
      = sum_list (map snd m) + v" if "distinct (map fst m)" for v
    using that by (induction m) (auto simp: ac_simps split: option.splits dest: map_of_SomeD)
  note * = this
  show "distinct (map fst m) \<Longrightarrow> ?thesis"
    using * [of "(case map_of m k of None \<Rightarrow> 0 | Some v \<Rightarrow> v) + n"]
    by (simp add: add_size_def)
qed

lemma distinct_add_size: "distinct (map fst m) \<Longrightarrow> distinct (map fst (add_size k n m))"
  by (simp add: add_size_def distinct_update)

lemma folder_loop_sum:
  "distinct (map fst m) \<Longrightarrow>
   sum_list (map snd (group_by_folder_loop root rs m)) = sum_list (map snd m)
     + sum_list (map cr_msize (filter (\<lambda>r. \<not> (cr_path r = IndexReader_get_snd_layer (cr_path r) root
         \<and> cr_node_type r \<noteq> DIR)) rs))"
  by (induction rs arbitrary: m) (auto simp: Let_def sum_add_size distinct_add_size)

text \<open>The sizes by folder add up: their sum is the sum of the sizes of all indexed paths under the
  root but the files and links directly in it.\<close>

theorem group_by_folder_conserves:
  "sum_list (map snd (IndexReader_group_by_folder_in_snd_layer glob root db)) =
   sum_list (map cr_msize (filter (\<lambda>r. glob (root @ ''/*'') (cr_path r)
     \<and> \<not> (cr_path r = IndexReader_get_snd_layer (cr_path r) root \<and> cr_node_type r \<noteq> DIR))
     (index_current db)))"
  unfolding IndexReader_group_by_folder_in_snd_layer_def
  by (simp add: folder_loop_sum filter_filter conj_commute)

end
