(* ===== verification/Index_Properties.thy ===== *)
theory Index_Properties
  imports Index_DB
begin

section \<open>What the exporter's writes establish\<close>

subsection \<open>Keys\<close>

text \<open>The primary keys of the four tables.\<close>

definition db_keys :: "index_db \<Rightarrow> bool" where
  "db_keys db \<longleftrightarrow> distinct (map cr_path (index_current db))
     \<and> distinct (map history_key (index_history db))
     \<and> distinct (map (\<lambda>t. st_scan_id (te_row t)) (scan_task_table db))
     \<and> distinct (map (\<lambda>d. (dr_scan_id d, dr_path d)) (scan_diff_table db))"

lemma distinct_filter_map: "distinct (map f xs) \<Longrightarrow> distinct (map f (filter P xs))"
  by (induction xs) auto

lemma keys_upsert: "db_keys db \<Longrightarrow> db_keys (IndexWriter_upsert message e db)"
  by (auto simp: db_keys_def IndexWriter_upsert_def Let_def replace_current_def insert_history_def
      list_ex_iff history_key_def event_current_def distinct_filter_map)

lemma keys_mark: "db_keys db \<Longrightarrow> db_keys (IndexWriter_mark_deleted glob info db)"
  by (auto simp: db_keys_def IndexWriter_mark_deleted_def Let_def distinct_filter_map)

lemma keys_diff_upsert: "db_keys db \<Longrightarrow> db_keys (ScanDiff_upsert i p st n db)"
  by (auto simp: db_keys_def ScanDiff_upsert_def list_ex_iff)

lemma keys_find_diff: "db_keys db \<Longrightarrow> db_keys (IndexReader_find_scan_diff_and_upsert_scandiff i db)"
proof -
  have "db_keys db \<Longrightarrow> db_keys (foldl (\<lambda>db r. let prev = previous_row i (hr_path r) (index_history db) in
              ScanDiff_upsert i (hr_path r) (diff_state_of (hr_state r) prev)
                (case prev of None \<Rightarrow> 0 | Some p \<Rightarrow> hr_msize p) db) db rs)" for rs
    by (induction rs arbitrary: db) (simp_all add: Let_def keys_diff_upsert)
  then show "db_keys db \<Longrightarrow> ?thesis"
    by (simp add: IndexReader_find_scan_diff_and_upsert_scandiff_def)
qed

lemma keys_task: "db_keys db \<Longrightarrow> db_keys (ScanTable_upsert row db)"
  by (auto simp: db_keys_def ScanTable_upsert_def list_ex_iff)

lemma keys_count: "db_keys db \<Longrightarrow> db_keys (ScanTable_upsert_count i db)"
proof -
  have "map (\<lambda>t. st_scan_id (te_row t)) (scan_task_table (ScanTable_upsert_count i db))
      = map (\<lambda>t. st_scan_id (te_row t)) (scan_task_table db)"
    by (simp add: ScanTable_upsert_count_def Let_def)
  moreover have "index_current (ScanTable_upsert_count i db) = index_current db"
      "index_history (ScanTable_upsert_count i db) = index_history db"
      "scan_diff_table (ScanTable_upsert_count i db) = scan_diff_table db"
    by (simp_all add: ScanTable_upsert_count_def Let_def)
  ultimately show "db_keys db \<Longrightarrow> ?thesis" unfolding db_keys_def by presburger
qed

subsection \<open>Lookups\<close>

lemma current_at_path: "current_at c p = Some r \<Longrightarrow> cr_path r = p \<and> r \<in> set c"
  by (auto simp: current_at_def find_Some_iff)

lemma current_at_None: "current_at c p = None \<longleftrightarrow> p \<notin> cr_path ` set c"
  by (auto simp: current_at_def find_None_iff)

lemma current_at_append:
  "current_at (c @ d) p = (case current_at c p of None \<Rightarrow> current_at d p | Some r \<Rightarrow> Some r)"
  unfolding current_at_def by (induction c) auto

lemma current_at_filter_path:
  "(\<And>r. cr_path r = p \<Longrightarrow> P r) \<Longrightarrow> current_at (filter P c) p = current_at c p"
  unfolding current_at_def by (induction c) auto

lemma current_at_replace [simp]:
  "current_at (replace_current r c) p = (if p = cr_path r then Some r else current_at c p)"
proof (cases "p = cr_path r")
  case True
  then have "current_at (filter (\<lambda>x. cr_path x \<noteq> cr_path r) c) p = None"
    by (auto simp: current_at_None)
  with True show ?thesis by (simp add: replace_current_def current_at_append) (simp add: current_at_def)
next
  case False
  then have "current_at (filter (\<lambda>x. cr_path x \<noteq> cr_path r) c) p = current_at c p"
    by (intro current_at_filter_path) auto
  with False show ?thesis
    by (simp add: replace_current_def current_at_append split: option.split) (simp add: current_at_def)
qed

lemma current_at_filter:
  "distinct (map cr_path c) \<Longrightarrow>
   current_at (filter P c) p = (case current_at c p of
      Some r \<Rightarrow> if P r then Some r else None | None \<Rightarrow> None)"
proof (induction c)
  case Nil
  then show ?case by (simp add: current_at_def)
next
  case (Cons x c)
  show ?case
  proof (cases "cr_path x = p")
    case True
    with Cons.prems have "current_at (filter P c) p = None" by (auto simp: current_at_None)
    with True show ?thesis by (auto simp: current_at_def)
  next
    case False
    with Cons show ?thesis by (auto simp: current_at_def)
  qed
qed

lemma current_at_mem: "distinct (map cr_path c) \<Longrightarrow> r \<in> set c \<Longrightarrow> current_at c (cr_path r) = Some r"
  by (induction c) (auto simp: current_at_def)

subsection \<open>Recording the events of a scan\<close>

definition upsert_all :: "(int \<Rightarrow> string) \<Rightarrow> file_event list \<Rightarrow> index_db \<Rightarrow> index_db" where
  "upsert_all message es db = foldl (\<lambda>db e. IndexWriter_upsert message e db) db es"

text \<open>An event whose time and size are those of the row the index has.\<close>

definition same_fingerprint :: "current_row list \<Rightarrow> file_event \<Rightarrow> bool" where
  "same_fingerprint c e \<longleftrightarrow>
     (case current_at c (fe_path e) of
        Some r \<Rightarrow> fe_modtime e = cr_mtime r \<and> fe_size e = cr_msize r
      | None \<Rightarrow> fe_modtime e = - 1 \<and> fe_size e = - 1)"

definition event_at :: "file_event list \<Rightarrow> string \<Rightarrow> file_event option" where
  "event_at es p = List.find (\<lambda>e. fe_path e = p) es"

lemma upsert_eq:
  "IndexWriter_upsert message e db =
     db\<lparr>index_current := replace_current (event_current message e) (index_current db),
        index_history := (if same_fingerprint (index_current db) e then index_history db
          else insert_history (event_history message e) (index_history db))\<rparr>"
  by (auto simp: IndexWriter_upsert_def Let_def same_fingerprint_def split: option.splits)

lemma event_current_simps [simp]:
  "cr_path (event_current message e) = fe_path e"
  "cr_scan_id (event_current message e) = fe_scan_id e"
  by (simp_all add: event_current_def)

lemma event_history_simps [simp]:
  "hr_path (event_history message e) = fe_path e"
  "hr_last_scan_id (event_history message e) = fe_scan_id e"
  "history_key (event_history message e) = (fe_path e, fe_scan_id e)"
  by (simp_all add: event_history_def history_key_def)

lemma distinct_head: "distinct (map f (e # es)) \<Longrightarrow> x \<in> set es \<Longrightarrow> f x \<noteq> f e"
proof -
  assume "distinct (map f (e # es))" "x \<in> set es"
  then have "f e \<notin> f ` set es" "f x \<in> f ` set es" by simp_all
  then show "f x \<noteq> f e" by metis
qed

lemma upsert_all_current:
  "distinct (map fe_path es) \<Longrightarrow>
   current_at (index_current (upsert_all message es db)) p =
     (case event_at es p of Some e \<Rightarrow> Some (event_current message e)
      | None \<Rightarrow> current_at (index_current db) p)"
proof (induction es arbitrary: db)
  case Nil
  then show ?case by (simp add: upsert_all_def event_at_def)
next
  case (Cons e es)
  have "upsert_all message (e # es) db = upsert_all message es (IndexWriter_upsert message e db)"
    by (simp add: upsert_all_def)
  moreover have "event_at es (fe_path e) = None"
    using distinct_head [OF Cons.prems] by (simp add: event_at_def find_None_iff)
  ultimately show ?case
    using Cons by (auto simp: upsert_eq event_at_def split: option.splits)
qed

lemma upsert_all_history:
  assumes "distinct (map fe_path es)" "\<forall>e \<in> set es. fe_scan_id e = i"
    and "\<forall>h \<in> set (index_history db). hr_last_scan_id h = i \<longrightarrow> hr_path h \<notin> fe_path ` set es"
  shows "index_history (upsert_all message es db) = index_history db
    @ map (event_history message) (filter (\<lambda>e. \<not> same_fingerprint (index_current db) e) es)"
  using assms
proof (induction es arbitrary: db)
  case Nil
  then show ?case by (simp add: upsert_all_def)
next
  case (Cons e es)
  let ?db = "IndexWriter_upsert message e db"
  have step: "upsert_all message (e # es) db = upsert_all message es ?db"
    by (simp add: upsert_all_def)
  have ins: "insert_history (event_history message e) (index_history db)
      = index_history db @ [event_history message e]"
    using Cons.prems by (auto simp: insert_history_def list_ex_iff)
  have same: "same_fingerprint (index_current ?db) x = same_fingerprint (index_current db) x"
    if "x \<in> set es" for x
  proof -
    have "fe_path x \<noteq> fe_path e" using distinct_head [OF Cons.prems(1) that] .
    then show ?thesis by (simp add: upsert_eq same_fingerprint_def)
  qed
  have "fe_path e \<notin> fe_path ` set es" using Cons.prems(1) by simp
  then have hs: "\<forall>h \<in> set (index_history ?db). hr_last_scan_id h = i \<longrightarrow> hr_path h \<notin> fe_path ` set es"
    using Cons.prems(3) by (auto simp: upsert_eq ins)
  have "index_history (upsert_all message es ?db) = index_history ?db
      @ map (event_history message) (filter (\<lambda>e. \<not> same_fingerprint (index_current ?db) e) es)"
    by (rule Cons.IH [OF _ _ hs]) (use Cons.prems in simp_all)
  moreover have "filter (\<lambda>e. \<not> same_fingerprint (index_current ?db) e) es
      = filter (\<lambda>e. \<not> same_fingerprint (index_current db) e) es"
    by (rule filter_cong) (simp_all add: same)
  ultimately show ?case unfolding step by (simp add: upsert_eq ins)
qed

lemma upsert_all_tables [simp]:
  "scan_diff_table (upsert_all message es db) = scan_diff_table db"
  "scan_task_table (upsert_all message es db) = scan_task_table db"
proof -
  have "scan_diff_table (upsert_all message es db) = scan_diff_table db
      \<and> scan_task_table (upsert_all message es db) = scan_task_table db"
    unfolding upsert_all_def by (induction es arbitrary: db) (simp_all add: upsert_eq)
  then show "scan_diff_table (upsert_all message es db) = scan_diff_table db"
    "scan_task_table (upsert_all message es db) = scan_task_table db" by simp_all
qed

lemma keys_upsert_all: "db_keys db \<Longrightarrow> db_keys (upsert_all message es db)"
  unfolding upsert_all_def by (induction es arbitrary: db) (simp_all add: keys_upsert)

subsection \<open>Closing a scan\<close>

text \<open>What the code relies on of \<^verbatim>\<open>GLOB\<close>: the pattern \<^verbatim>\<open>root/*\<close>, for a root without the special
  characters of \<^verbatim>\<open>GLOB\<close>, matches the texts that begin with \<^verbatim>\<open>root/\<close>.\<close>

definition glob_subtree :: "(string \<Rightarrow> string \<Rightarrow> bool) \<Rightarrow> string \<Rightarrow> bool" where
  "glob_subtree glob root \<longleftrightarrow> (\<forall>p. glob (root @ ''/*'') p = starts_with (root @ ''/'') p)"

text \<open>An index into which the scan \<open>i\<close> has not written.\<close>

definition fresh_scan :: "u64 \<Rightarrow> index_db \<Rightarrow> bool" where
  "fresh_scan i db \<longleftrightarrow> (\<forall>r \<in> set (index_current db). cr_scan_id r \<noteq> i)
     \<and> (\<forall>h \<in> set (index_history db). hr_last_scan_id h \<noteq> i)
     \<and> (\<forall>d \<in> set (scan_diff_table db). dr_scan_id d \<noteq> i)"

text \<open>The events of a scan: one per path.\<close>

definition scan_events :: "u64 \<Rightarrow> file_event list \<Rightarrow> bool" where
  "scan_events i es \<longleftrightarrow> distinct (map fe_path es) \<and> (\<forall>e \<in> set es. fe_scan_id e = i)"

definition export_scan ::
    "(int \<Rightarrow> string) \<Rightarrow> (string \<Rightarrow> string \<Rightarrow> bool) \<Rightarrow> delete_task \<Rightarrow> file_event list \<Rightarrow> index_db \<Rightarrow> index_db" where
  "export_scan message glob info es db =
     IndexReader_find_scan_diff_and_upsert_scandiff (dt_scan_id info)
       (IndexWriter_mark_deleted glob info (upsert_all message es db))"

lemma find_diff_frame [simp]:
  "index_current (IndexReader_find_scan_diff_and_upsert_scandiff i db) = index_current db"
  "index_history (IndexReader_find_scan_diff_and_upsert_scandiff i db) = index_history db"
proof -
  have "index_current (foldl (\<lambda>db r. let prev = previous_row i (hr_path r) (index_history db) in
              ScanDiff_upsert i (hr_path r) (diff_state_of (hr_state r) prev)
                (case prev of None \<Rightarrow> 0 | Some p \<Rightarrow> hr_msize p) db) db rs) = index_current db
    \<and> index_history (foldl (\<lambda>db r. let prev = previous_row i (hr_path r) (index_history db) in
              ScanDiff_upsert i (hr_path r) (diff_state_of (hr_state r) prev)
                (case prev of None \<Rightarrow> 0 | Some p \<Rightarrow> hr_msize p) db) db rs) = index_history db" for rs :: "history_row list"
    by (induction rs arbitrary: db) (simp_all add: Let_def ScanDiff_upsert_def)
  then show "index_current (IndexReader_find_scan_diff_and_upsert_scandiff i db) = index_current db"
    "index_history (IndexReader_find_scan_diff_and_upsert_scandiff i db) = index_history db"
    by (simp_all add: IndexReader_find_scan_diff_and_upsert_scandiff_def)
qed

lemma current_ids:
  assumes "fresh_scan i db" "scan_events i es" "current_at (index_current (upsert_all message es db)) p = Some r"
  shows "cr_scan_id r = i \<longleftrightarrow> event_at es p \<noteq> None"
proof (cases "event_at es p")
  case None
  with assms have "current_at (index_current db) p = Some r"
    by (simp add: upsert_all_current scan_events_def)
  with assms(1) None show ?thesis by (auto simp: fresh_scan_def dest: current_at_path)
next
  case (Some e)
  then have "e \<in> set es" by (auto simp: event_at_def find_Some_iff)
  with assms Some show ?thesis by (auto simp: upsert_all_current scan_events_def)
qed

lemma export_snapshot:
  assumes "db_keys db" and "fresh_scan (dt_scan_id info) db" and "scan_events (dt_scan_id info) es"
    and "glob_subtree glob (dt_submit_root info)"
  shows "current_at (index_current (export_scan message glob info es db)) p =
    (case event_at es p of
       Some e \<Rightarrow> Some (event_current message e)
     | None \<Rightarrow> if starts_with (dt_submit_root info @ ''/'') p \<and> \<not> dt_canceled info then None
               else current_at (index_current db) p)"
proof -
  let ?u = "upsert_all message es db"
  have keys: "distinct (map cr_path (index_current ?u))"
    using keys_upsert_all [OF assms(1)] by (simp add: db_keys_def)
  have at: "current_at (index_current ?u) p = (case event_at es p of Some e \<Rightarrow> Some (event_current message e)
      | None \<Rightarrow> current_at (index_current db) p)"
    using assms(3) by (simp add: upsert_all_current scan_events_def)
  have glob: "glob (dt_submit_root info @ ''/*'') q = starts_with (dt_submit_root info @ ''/'') q" for q
    using assms(4) by (simp add: glob_subtree_def)
  show ?thesis
  proof (cases "dt_canceled info")
    case True
    then show ?thesis by (simp add: export_scan_def IndexWriter_mark_deleted_def Let_def at split: option.split)
  next
    case False
    then have e: "current_at (index_current (export_scan message glob info es db)) p =
        (case current_at (index_current ?u) p of
           Some r \<Rightarrow> if unseen_under glob info r then None else Some r | None \<Rightarrow> None)"
      using current_at_filter [OF keys, of "\<lambda>r. \<not> unseen_under glob info r" p]
      by (simp add: export_scan_def IndexWriter_mark_deleted_def Let_def split: option.splits)
    have "unseen_under glob info r \<longleftrightarrow> starts_with (dt_submit_root info @ ''/'') p \<and> event_at es p = None"
      if "current_at (index_current ?u) p = Some r" for r
      using current_ids [OF assms(2,3) that] current_at_path [OF that]
      by (auto simp: unseen_under_def glob)
    with False show ?thesis unfolding e at by (auto split: option.splits)
  qed
qed

text \<open>After the export of a scan the index is the scan's snapshot of its tree: the index has a row
  for each path the scan recorded, with what it recorded; of the other paths, those under the
  root are gone, unless the scan was cancelled, and then, like all paths outside the tree, are
  as they were.\<close>

theorem export_scan_snapshot:
  assumes "db_keys db" and "fresh_scan (dt_scan_id info) db" and "scan_events (dt_scan_id info) es"
    and "glob_subtree glob (dt_submit_root info)"
  shows "current_at (index_current (export_scan message glob info es db)) p =
    (case event_at es p of
       Some e \<Rightarrow> Some (event_current message e)
     | None \<Rightarrow> if starts_with (dt_submit_root info @ ''/'') p \<and> \<not> dt_canceled info then None
               else current_at (index_current db) p)"
  using assms by (rule export_snapshot)

theorem export_scan_snapshot_witness:
  "current_at (index_current (export_scan (\<lambda>n. []) (\<lambda>p t. starts_with (butlast p) t)
      \<lparr>dt_scan_id = 1, dt_submit_root = ''/r'', dt_canceled = False\<rparr> [] empty_db)) ''/r/a'' = None"
proof -
  have "glob_subtree (\<lambda>p t. starts_with (butlast p) t) ''/r''"
    by (simp add: glob_subtree_def butlast_append)
  then show ?thesis
    using export_scan_snapshot [of empty_db "\<lparr>dt_scan_id = 1, dt_submit_root = ''/r'', dt_canceled = False\<rparr>"
        "[]" "\<lambda>p t. starts_with (butlast p) t" "\<lambda>n. []" "''/r/a''"]
    by (simp add: db_keys_def empty_db_def fresh_scan_def scan_events_def event_at_def starts_with_iff)
qed

subsection \<open>The difference to earlier scans\<close>

lemma event_to_scan_state_iff:
  "event_to_scan_state a = Scan_Deleted \<longleftrightarrow> a = Deleted" "event_to_scan_state a = New \<longleftrightarrow> a = Alive"
  by (cases a; simp)+

definition diff_at :: "u64 \<Rightarrow> string \<Rightarrow> index_db \<Rightarrow> diff_row option" where
  "diff_at i p db = List.find (\<lambda>d. dr_scan_id d = i \<and> dr_path d = p) (scan_diff_table db)"

definition diff_entry :: "u64 \<Rightarrow> history_row list \<Rightarrow> history_row \<Rightarrow> diff_row" where
  "diff_entry i h r =
     (let prev = previous_row i (hr_path r) h in
      \<lparr>dr_scan_id = i, dr_path = hr_path r, dr_state = diff_state_of (hr_state r) prev,
       dr_old_size = (case prev of None \<Rightarrow> 0 | Some p \<Rightarrow> hr_msize p)\<rparr>)"

lemma diff_fold:
  fixes rs :: "history_row list" and db :: index_db
  assumes "distinct (map hr_path rs)"
    and "\<forall>d \<in> set (scan_diff_table db). dr_scan_id d = i \<longrightarrow> dr_path d \<notin> hr_path ` set rs"
  shows "scan_diff_table (foldl (\<lambda>db r. let prev = previous_row i (hr_path r) (index_history db) in
              ScanDiff_upsert i (hr_path r) (diff_state_of (hr_state r) prev)
                (case prev of None \<Rightarrow> 0 | Some p \<Rightarrow> hr_msize p) db) db rs)
    = scan_diff_table db @ map (diff_entry i (index_history db)) rs"
  using assms
proof (induction rs arbitrary: db)
  case Nil
  then show ?case by simp
next
  case (Cons r rs)
  let ?prev = "previous_row i (hr_path r) (index_history db)"
  let ?db = "ScanDiff_upsert i (hr_path r) (diff_state_of (hr_state r) ?prev)
                (case ?prev of None \<Rightarrow> 0 | Some p \<Rightarrow> hr_msize p) db"
  have t: "scan_diff_table ?db = scan_diff_table db @ [diff_entry i (index_history db) r]"
    and h: "index_history ?db = index_history db"
    using Cons.prems(2) by (auto simp: ScanDiff_upsert_def diff_entry_def Let_def list_ex_iff)
  have "hr_path r \<notin> hr_path ` set rs" using Cons.prems(1) by simp
  then have d: "\<forall>d \<in> set (scan_diff_table ?db). dr_scan_id d = i \<longrightarrow> dr_path d \<notin> hr_path ` set rs"
    using Cons.prems(2) unfolding t by (auto simp: diff_entry_def Let_def)
  show ?case using Cons.IH [OF _ d] Cons.prems(1) unfolding h t by (simp add: Let_def t h)
qed

lemma find_append: "List.find P (xs @ ys) = (case List.find P xs of None \<Rightarrow> List.find P ys | Some x \<Rightarrow> Some x)"
  by (induction xs) auto

lemma find_map: "List.find P (map f xs) = map_option f (List.find (\<lambda>x. P (f x)) xs)"
  by (induction xs) auto

lemma find_filter_key:
  "distinct (map f xs) \<Longrightarrow> List.find (\<lambda>x. f x = k) (filter P xs) =
     (case List.find (\<lambda>x. f x = k) xs of Some x \<Rightarrow> if P x then Some x else None | None \<Rightarrow> None)"
proof (induction xs)
  case (Cons x xs)
  show ?case
  proof (cases "f x = k")
    case True
    with Cons.prems have "List.find (\<lambda>x. f x = k) (filter P xs) = None"
      using distinct_head [OF Cons.prems] by (auto simp: find_None_iff)
    with True show ?thesis by simp
  next
    case False
    with Cons show ?thesis by simp
  qed
qed simp

text \<open>The history rows that the export of a scan adds.\<close>

definition added_rows ::
    "(int \<Rightarrow> string) \<Rightarrow> (string \<Rightarrow> string \<Rightarrow> bool) \<Rightarrow> delete_task \<Rightarrow> file_event list \<Rightarrow> index_db
     \<Rightarrow> history_row list" where
  "added_rows message glob info es db =
     map (event_history message) (filter (\<lambda>e. \<not> same_fingerprint (index_current db) e) es)
     @ map (deleted_row info) (filter (unseen_under glob info)
         (index_current (upsert_all message es db)))"

lemma deleted_row_simps [simp]:
  "hr_path (deleted_row info r) = cr_path r" "hr_last_scan_id (deleted_row info r) = dt_scan_id info"
  "hr_state (deleted_row info r) = (if dt_canceled info then Event_Canceled else Deleted)"
  by (simp_all add: deleted_row_def)

lemma added_paths:
  assumes "db_keys db" "fresh_scan (dt_scan_id info) db" "scan_events (dt_scan_id info) es"
  shows "distinct (map hr_path (added_rows message glob info es db))"
    and "\<forall>r \<in> set (added_rows message glob info es db). hr_last_scan_id r = dt_scan_id info"
proof -
  let ?u = "upsert_all message es db"
  have keys: "distinct (map cr_path (index_current ?u))"
    using keys_upsert_all [OF assms(1)] by (simp add: db_keys_def)
  have apart: "cr_path r \<notin> fe_path ` set es" if "r \<in> set (index_current ?u)" "unseen_under glob info r" for r
  proof -
    have "event_at es (cr_path r) = None"
      using current_ids [OF assms(2,3) current_at_mem [OF keys that(1)]] that(2)
      by (auto simp: unseen_under_def)
    then show ?thesis by (auto simp: event_at_def find_None_iff)
  qed
  have "map hr_path (added_rows message glob info es db)
      = map fe_path (filter (\<lambda>e. \<not> same_fingerprint (index_current db) e) es)
        @ map cr_path (filter (unseen_under glob info) (index_current ?u))"
    by (simp add: added_rows_def comp_def)
  moreover have "distinct (map fe_path (filter (\<lambda>e. \<not> same_fingerprint (index_current db) e) es))"
    "distinct (map cr_path (filter (unseen_under glob info) (index_current ?u)))"
    using assms(3) keys by (simp_all add: distinct_filter_map scan_events_def)
  moreover have "set (map fe_path (filter (\<lambda>e. \<not> same_fingerprint (index_current db) e) es))
      \<inter> set (map cr_path (filter (unseen_under glob info) (index_current ?u))) = {}"
    by auto (metis apart imageI)
  ultimately show "distinct (map hr_path (added_rows message glob info es db))"
    by (simp only: distinct_append)
  show "\<forall>r \<in> set (added_rows message glob info es db). hr_last_scan_id r = dt_scan_id info"
    using assms(3) by (auto simp: added_rows_def scan_events_def)
qed

lemma export_history:
  assumes "db_keys db" "fresh_scan (dt_scan_id info) db" "scan_events (dt_scan_id info) es"
  shows "index_history (IndexWriter_mark_deleted glob info (upsert_all message es db))
    = index_history db @ added_rows message glob info es db"
proof -
  have h: "index_history (upsert_all message es db) = index_history db
      @ map (event_history message) (filter (\<lambda>e. \<not> same_fingerprint (index_current db) e) es)"
    using assms(2,3) by (intro upsert_all_history) (auto simp: scan_events_def fresh_scan_def)
  have hist: "index_history (upsert_all message es db) @ map (deleted_row info)
      (filter (unseen_under glob info) (index_current (upsert_all message es db)))
      = index_history db @ added_rows message glob info es db"
    by (simp add: h added_rows_def)
  have "distinct (map history_key (index_history db @ added_rows message glob info es db))"
  proof -
    have "distinct (map history_key (added_rows message glob info es db))"
      using distinct_map [of hr_path] added_paths(1) [OF assms, of message glob]
      by (auto simp: distinct_map inj_on_def history_key_def)
    then show ?thesis
      using assms(1,2) added_paths(2) [OF assms, of message glob]
      by (auto simp: db_keys_def fresh_scan_def history_key_def)
  qed
  then show ?thesis unfolding IndexWriter_mark_deleted_def Let_def hist by simp
qed

lemma previous_row_append:
  "\<forall>r \<in> set new. hr_last_scan_id r = i \<Longrightarrow> previous_row i p (h @ new) = previous_row i p h"
proof -
  assume "\<forall>r \<in> set new. hr_last_scan_id r = i"
  then have "filter (\<lambda>q. hr_path q = p \<and> sint (hr_last_scan_id q) < sint i
                \<and> hr_state q \<noteq> Event_Canceled) new = []"
    by (auto simp: filter_empty_conv)
  then show ?thesis by (simp add: previous_row_def)
qed

lemma export_diff_table:
  assumes "db_keys db" "fresh_scan (dt_scan_id info) db" "scan_events (dt_scan_id info) es"
  shows "scan_diff_table (export_scan message glob info es db) = scan_diff_table db
    @ map (diff_entry (dt_scan_id info) (index_history db)) (added_rows message glob info es db)"
proof -
  let ?i = "dt_scan_id info" and ?new = "added_rows message glob info es db"
  let ?m = "IndexWriter_mark_deleted glob info (upsert_all message es db)"
  have h: "index_history ?m = index_history db @ ?new" by (rule export_history [OF assms])
  have t: "scan_diff_table ?m = scan_diff_table db" by (simp add: IndexWriter_mark_deleted_def Let_def)
  have new: "filter (\<lambda>r. hr_last_scan_id r = ?i) (index_history ?m) = ?new"
    using assms(2) added_paths(2) [OF assms, of message glob]
    by (auto simp: h fresh_scan_def filter_empty_conv intro!: filter_True)
  have "scan_diff_table (export_scan message glob info es db)
      = scan_diff_table ?m @ map (diff_entry ?i (index_history ?m)) ?new"
    unfolding export_scan_def IndexReader_find_scan_diff_and_upsert_scandiff_def new
    using assms(2) added_paths(1) [OF assms, of message glob]
    by (intro diff_fold) (auto simp: t fresh_scan_def)
  moreover have "diff_entry ?i (index_history ?m) r = diff_entry ?i (index_history db) r" for r
    using previous_row_append [OF added_paths(2) [OF assms, of message glob]]
    by (simp add: diff_entry_def h)
  ultimately show ?thesis by (simp add: t)
qed

text \<open>What the export of a scan adds to the history for one path.\<close>

lemma added_at:
  assumes "db_keys db" and "fresh_scan (dt_scan_id info) db" and "scan_events (dt_scan_id info) es"
    and "glob_subtree glob (dt_submit_root info)"
  shows "List.find (\<lambda>r. hr_path r = p) (added_rows message glob info es db) =
    (case event_at es p of
       Some e \<Rightarrow> if same_fingerprint (index_current db) e then None else Some (event_history message e)
     | None \<Rightarrow>
         (case current_at (index_current db) p of
            Some r \<Rightarrow> if starts_with (dt_submit_root info @ ''/'') p then Some (deleted_row info r) else None
          | None \<Rightarrow> None))"
proof -
  let ?u = "upsert_all message es db"
  have keys: "distinct (map cr_path (index_current ?u))"
    using keys_upsert_all [OF assms(1)] by (simp add: db_keys_def)
  have ev: "List.find (\<lambda>e. fe_path e = p) (filter (\<lambda>e. \<not> same_fingerprint (index_current db) e) es)
      = (case event_at es p of Some e \<Rightarrow> if \<not> same_fingerprint (index_current db) e then Some e else None
         | None \<Rightarrow> None)"
    unfolding event_at_def using assms(3) by (intro find_filter_key) (simp add: scan_events_def)
  have un: "List.find (\<lambda>r. cr_path r = p) (filter (unseen_under glob info) (index_current ?u))
      = (case current_at (index_current ?u) p of Some r \<Rightarrow> if unseen_under glob info r then Some r else None
         | None \<Rightarrow> None)"
    unfolding current_at_def using keys by (intro find_filter_key)
  have at: "current_at (index_current ?u) p = (case event_at es p of Some e \<Rightarrow> Some (event_current message e)
      | None \<Rightarrow> current_at (index_current db) p)"
    using assms(3) by (simp add: upsert_all_current scan_events_def)
  have un': "unseen_under glob info r \<longleftrightarrow> starts_with (dt_submit_root info @ ''/'') p"
    if "current_at (index_current db) p = Some r" for r
    using current_at_path [OF that] assms(2,4) by (auto simp: unseen_under_def glob_subtree_def fresh_scan_def)
  have seen: "\<not> unseen_under glob info (event_current message e)" if "event_at es p = Some e" for e
    using that assms(3) by (auto simp: event_at_def find_Some_iff unseen_under_def scan_events_def)
  show ?thesis
    unfolding added_rows_def find_append find_map using seen un'
    by (auto simp: ev un at event_history_def split: option.split)
qed

text \<open>C10: The difference table classifies every path right. For a path that the scan recorded: no
  entry if its time and size are those of the index; otherwise an error if it could not be read,
  new if no uncancelled earlier scan has it or the last of them found it deleted, else changed.
  For a path of the index under the root that the scan did not record: deleted, or cancelled for
  a cancelled scan. For no other path. The old size is that of the last uncancelled earlier scan.\<close>

theorem scan_diff_classification:
  assumes "db_keys db" and "fresh_scan (dt_scan_id info) db" and "scan_events (dt_scan_id info) es"
    and "glob_subtree glob (dt_submit_root info)"
  shows "diff_at (dt_scan_id info) p (export_scan message glob info es db) =
    (let prev = previous_row (dt_scan_id info) p (index_history db);
         entry = (\<lambda>st. Some \<lparr>dr_scan_id = dt_scan_id info, dr_path = p, dr_state = st,
                   dr_old_size = (case prev of None \<Rightarrow> 0 | Some r \<Rightarrow> hr_msize r)\<rparr>)
     in case event_at es p of
          Some e \<Rightarrow>
            (if same_fingerprint (index_current db) e then None
             else if fe_err e \<noteq> 0 then entry Scan_Error
             else case prev of
                    None \<Rightarrow> entry New
                  | Some r \<Rightarrow> if hr_state r = Deleted then entry New else entry Changed)
        | None \<Rightarrow>
            (if current_at (index_current db) p \<noteq> None \<and> starts_with (dt_submit_root info @ ''/'') p
             then entry (if dt_canceled info then Scan_Canceled else Scan_Deleted) else None))"
proof -
  have "List.find (\<lambda>d. dr_scan_id d = dt_scan_id info \<and> dr_path d = p) (scan_diff_table db) = None"
    using assms(2) by (auto simp: find_None_iff fresh_scan_def)
  then have d: "diff_at (dt_scan_id info) p (export_scan message glob info es db) =
      map_option (diff_entry (dt_scan_id info) (index_history db))
        (List.find (\<lambda>r. hr_path r = p) (added_rows message glob info es db))"
    by (simp add: diff_at_def export_diff_table [OF assms(1-3)] find_append find_map diff_entry_def Let_def)
  note eval = d added_at [OF assms] diff_entry_def Let_def diff_state_of_def event_history_def event_to_scan_state_iff
  show ?thesis
  proof (cases "event_at es p")
    case (Some e)
    then have "fe_path e = p" by (auto simp: event_at_def find_Some_iff)
    with Some show ?thesis by (auto simp: eval split: option.splits)
  next
    case None
    with current_at_path [of "index_current db" p] show ?thesis
      by (cases "current_at (index_current db) p") (simp_all add: eval)
  qed
qed

text \<open>A second scan of a directory in which one file changed and one is gone.\<close>

definition demo_event :: "u64 \<Rightarrow> string \<Rightarrow> i64 \<Rightarrow> file_event" where
  "demo_event i p t = \<lparr>fe_scan_id = i, fe_modtime = t, fe_size = 10, fe_err = 0, fe_path = p,
     fe_node_type = FILE, fe_end_signal = Sentinel_init\<rparr>"

definition demo_db :: index_db where
  "demo_db = export_scan (\<lambda>n. []) (\<lambda>p t. starts_with (butlast p) t)
     \<lparr>dt_scan_id = 1, dt_submit_root = ''/r'', dt_canceled = False\<rparr>
     [demo_event 1 ''/r/a'' 5, demo_event 1 ''/r/b'' 5] empty_db"

lemma demo_glob: "glob_subtree (\<lambda>p t. starts_with (butlast p) t) root"
  by (simp add: glob_subtree_def butlast_append)

lemmas demo_db_eval = demo_db_def export_scan_def upsert_all_def upsert_eq replace_current_def
  same_fingerprint_def current_at_def insert_history_def IndexWriter_mark_deleted_def Let_def
  unseen_under_def demo_event_def event_current_def event_history_def history_key_def empty_db_def
  IndexReader_find_scan_diff_and_upsert_scandiff_def previous_row_def ScanDiff_upsert_def
  IndexWriter_get_extension_def diff_state_of_def starts_with_def

lemma demo_db_facts:
  "index_current demo_db = map (event_current (\<lambda>n. [])) [demo_event 1 ''/r/a'' 5, demo_event 1 ''/r/b'' 5]"
  "index_history demo_db = map (event_history (\<lambda>n. [])) [demo_event 1 ''/r/a'' 5, demo_event 1 ''/r/b'' 5]"
  "\<forall>d \<in> set (scan_diff_table demo_db). dr_scan_id d = 1" "scan_task_table demo_db = []"
  by (simp_all add: demo_db_eval)

lemma demo_db_fresh: "db_keys demo_db" "fresh_scan 2 demo_db"
proof -
  show "db_keys demo_db"
    unfolding demo_db_def export_scan_def
    by (intro keys_find_diff keys_mark keys_upsert_all) (simp add: db_keys_def empty_db_def)
  show "fresh_scan 2 demo_db" using demo_db_facts by (auto simp: fresh_scan_def demo_event_def)
qed

theorem scan_diff_classification_witness:
  "map_option dr_state (diff_at 2 ''/r/a'' (export_scan (\<lambda>n. []) (\<lambda>p t. starts_with (butlast p) t)
      \<lparr>dt_scan_id = 2, dt_submit_root = ''/r'', dt_canceled = False\<rparr> [demo_event 2 ''/r/a'' 6] demo_db))
    = Some Changed"
proof -
  note db = demo_db_facts
  have "previous_row 2 ''/r/a'' (index_history demo_db) = Some (event_history (\<lambda>n. []) (demo_event 1 ''/r/a'' 5))"
    by (simp add: db(2) previous_row_def demo_event_def event_history_def)
  then show ?thesis
    using demo_db_fresh scan_diff_classification [of demo_db "\<lparr>dt_scan_id = 2, dt_submit_root = ''/r'', dt_canceled = False\<rparr>"
        "[demo_event 2 ''/r/a'' 6]" "\<lambda>p t. starts_with (butlast p) t" "''/r/a''" "\<lambda>n. []"] demo_glob
    by (simp add: scan_events_def demo_event_def event_at_def same_fingerprint_def current_at_def db(1)
        event_current_def event_history_def)
qed

text \<open>No write ever breaks a primary key: the row of the task, the events in any order and
  number, the deletions, the difference rows and the counts keep all four keys unique, also for
  repeated ids and paths.\<close>

theorem export_keeps_keys:
  assumes "db_keys db"
  shows "db_keys (ScanTable_upsert_count i (export_scan message glob info es (ScanTable_upsert row db)))"
  unfolding export_scan_def
  by (intro keys_count keys_find_diff keys_mark keys_upsert_all keys_task assms)

theorem export_keeps_keys_witness:
  "db_keys (ScanTable_upsert_count 1 (export_scan (\<lambda>n. []) (\<lambda>p t. True)
     \<lparr>dt_scan_id = 1, dt_submit_root = ''/r'', dt_canceled = False\<rparr>
     [demo_event 1 ''/r/a'' 5, demo_event 1 ''/r/a'' 5] (ScanTable_upsert
       \<lparr>st_scan_id = 1, st_start_time = 2, st_finish_time = 3, st_submit_root = ''/r'', st_end_state = DONE\<rparr>
       empty_db)))"
  by (rule export_keeps_keys) (simp add: db_keys_def empty_db_def)

end
