(* ===== verification/Export_Manager.thy ===== *)
theory Export_Manager
  imports Index_Properties Transitions
begin

section \<open>ExportManager (src/export\_system/export\_manager.cpp)\<close>

text \<open>
  The exporter: one thread takes the events of all scans off the result queue, writes node
  events in batches and closes a scan at its sentinel. The queue itself is the \<^verbatim>\<open>JobQueue\<close> of the
  theories \<open>Job_Queue\<close>, \<open>Job_Queue_Monitor\<close> and \<open>Job_Queue_Blocking\<close>; here an event arrives by the
  move \<open>Pop_event\<close>. The manager's threads call \<^verbatim>\<open>insert_scan_task\<close> (\<open>Insert_task\<close>). \<open>ex_alive\<close> says
  that the thread is still in its loop: an exception that leaves \<^verbatim>\<open>finalize_scan\<close> ends it. Here
  SQLite reports no error; theory \<open>Export_Faults\<close> adds the transactions and the errors.
\<close>

record export_manager =
  ex_db :: index_db
  ex_batch_size :: nat
  ex_batch_count :: nat
  ex_pending_rows :: "(u64 \<times> scan_task_row) list"
  ex_exported :: "u64 list"
  ex_notified :: "string list"
  ex_alive :: bool
  ex_running :: int
  ex_finished :: u64
  ex_finalizing :: u64
  ex_finalizing_done :: u64

definition ExportManager_init :: "nat \<Rightarrow> index_db \<Rightarrow> export_manager" where
  "ExportManager_init batch_size db =
     \<lparr>ex_db = db, ex_batch_size = batch_size, ex_batch_count = 0, ex_pending_rows = [],
      ex_exported = [], ex_notified = [], ex_alive = True, ex_running = 0, ex_finished = 0,
      ex_finalizing = 0, ex_finalizing_done = 0\<rparr>"

subsection \<open>Loading the finished scans\<close>

text \<open>The paging loop of \<^verbatim>\<open>start\<close>, from an offset.\<close>

lemma get_all_page:
  "ScanTable_get_all 1000 (int offset) db =
   take 1000 (drop offset (rev (sort_key (\<lambda>r. sint (st_scan_id r)) (map te_row (scan_task_table db)))))"
  by (simp add: ScanTable_get_all_def sql_page_def Let_def)

function ExportManager_load_pages :: "index_db \<Rightarrow> nat \<Rightarrow> u64 list \<Rightarrow> u64 list" where
  "ExportManager_load_pages db offset exported_map =
     (let page = ScanTable_get_all 1000 (int offset) db;
          m = foldl (\<lambda>m row. List.insert (st_scan_id row) m) exported_map page
      in if length page < 1000 then m else ExportManager_load_pages db (offset + 1000) m)"
  by pat_completeness auto

termination
  by (relation "measure (\<lambda>(db, offset, m). length (scan_task_table db) + 1 - offset)")
    (auto simp: get_all_page)

declare ExportManager_load_pages.simps [simp del]

definition ExportManager_start :: "export_manager \<Rightarrow> export_manager" where
  "ExportManager_start s = s\<lparr>ex_exported := ExportManager_load_pages (ex_db s) 0 (ex_exported s)\<rparr>"

subsection \<open>Writing\<close>

definition ExportManager_insert_scan_task :: "scan_task_row \<Rightarrow> 'a export_manager_scheme \<Rightarrow> 'a export_manager_scheme" where
  "ExportManager_insert_scan_task row s =
     s\<lparr>ex_pending_rows := AList.update (st_scan_id row) row (ex_pending_rows s)\<rparr>"

definition ExportManager_commit_batch :: "export_manager \<Rightarrow> export_manager" where
  "ExportManager_commit_batch s =
     (if 0 < ex_batch_count s
      then s\<lparr>ex_running := ex_running s - int (ex_batch_count s),
             ex_finished := ex_finished s + of_nat (ex_batch_count s), ex_batch_count := 0\<rparr>
      else s)"

text \<open>\<^verbatim>\<open>get_scan_task\<close>; \<^term>\<open>None\<close> is the exception.\<close>

definition ExportManager_get_scan_task ::
    "file_event \<Rightarrow> 'a export_manager_scheme \<Rightarrow> (scan_task_row \<times> 'a export_manager_scheme) option" where
  "ExportManager_get_scan_task event s =
     (case map_of (ex_pending_rows s) (fe_scan_id event) of
        None \<Rightarrow> None
      | Some row \<Rightarrow>
          Some (if st_submit_root row = [] then row\<lparr>st_submit_root := fe_path event\<rparr> else row,
                s\<lparr>ex_pending_rows := AList.delete (fe_scan_id event) (ex_pending_rows s)\<rparr>))"

definition ExportManager_finalize_scan ::
    "(string \<Rightarrow> string \<Rightarrow> bool) \<Rightarrow> file_event \<Rightarrow> export_manager \<Rightarrow> export_manager" where
  "ExportManager_finalize_scan glob event s =
     (let s1 = s\<lparr>ex_finalizing := ex_finalizing s + 1\<rparr>; i = fe_scan_id event in
      case ExportManager_get_scan_task event s1 of
        None \<Rightarrow> s1\<lparr>ex_alive := False\<rparr>
      | Some (row, s2) \<Rightarrow>
          (let task = \<lparr>dt_scan_id = i, dt_submit_root = st_submit_root row,
                       dt_canceled = is_canceled (fe_end_signal event)\<rparr>;
               db = ScanTable_upsert_count i
                      (IndexReader_find_scan_diff_and_upsert_scandiff i
                        (IndexWriter_mark_deleted glob task (ScanTable_upsert row (ex_db s2))))
           in s2\<lparr>ex_db := db, ex_exported := List.insert i (ex_exported s2),
                 ex_notified := ex_notified s2 @ [st_submit_root row],
                 ex_finalizing_done := ex_finalizing_done s2 + 1,
                 ex_finalizing := ex_finalizing s2 - 1\<rparr>))"

text \<open>One turn of \<^verbatim>\<open>write_result_to_db\<close>.\<close>

definition ExportManager_write_result ::
    "(int \<Rightarrow> string) \<Rightarrow> (string \<Rightarrow> string \<Rightarrow> bool) \<Rightarrow> file_event \<Rightarrow> export_manager \<Rightarrow> export_manager" where
  "ExportManager_write_result message glob result s =
     (if is_sentinel (fe_end_signal result)
      then ExportManager_finalize_scan glob result (ExportManager_commit_batch s)
      else
        let s1 = s\<lparr>ex_running := ex_running s + 1,
                   ex_db := IndexWriter_upsert message result (ex_db s),
                   ex_batch_count := Suc (ex_batch_count s)\<rparr>
        in if ex_batch_size s1 \<le> ex_batch_count s1 then ExportManager_commit_batch s1 else s1)"

definition ExportManager_check_exported :: "u64 list \<Rightarrow> export_manager \<Rightarrow> bool list" where
  "ExportManager_check_exported scan_ids s = map (\<lambda>i. i \<in> set (ex_exported s)) scan_ids"

text \<open>The end of the loop, after \<^verbatim>\<open>pop\<close> has answered that the queue is closed and drained.\<close>

definition ExportManager_close :: "export_manager \<Rightarrow> export_manager" where
  "ExportManager_close s = (ExportManager_commit_batch s)\<lparr>ex_alive := False\<rparr>"

datatype export_move = Insert_task scan_task_row | Pop_event file_event | Queue_closed

text \<open>The parameters \<open>message\<close> and \<open>glob\<close> as in theory \<open>Index_DB\<close>.\<close>

fun export_step ::
    "(int \<Rightarrow> string) \<Rightarrow> (string \<Rightarrow> string \<Rightarrow> bool) \<Rightarrow> export_move \<Rightarrow> export_manager
     \<Rightarrow> export_manager option" where
  "export_step message glob (Insert_task row) s = Some (ExportManager_insert_scan_task row s)"
| "export_step message glob (Pop_event e) s =
     (if ex_alive s then Some (ExportManager_write_result message glob e s) else None)"
| "export_step message glob Queue_closed s =
     (if ex_alive s then Some (ExportManager_close s) else None)"

lemmas export_defs = ExportManager_insert_scan_task_def ExportManager_commit_batch_def
  ExportManager_get_scan_task_def ExportManager_finalize_scan_def ExportManager_write_result_def
  ExportManager_close_def

subsection \<open>The loaded ids\<close>

lemma insert_fold_set: "set (foldl (\<lambda>m row. List.insert (st_scan_id row) m) m rows) = set m \<union> st_scan_id ` set rows"
  by (induction rows arbitrary: m) auto

lemma load_pages_set:
  "set (ExportManager_load_pages db offset m) = set m \<union> st_scan_id ` set
     (drop offset (rev (sort_key (\<lambda>r. sint (st_scan_id r)) (map te_row (scan_task_table db)))))"
proof (induction db offset m rule: ExportManager_load_pages.induct)
  case (1 db offset m)
  let ?rows = "rev (sort_key (\<lambda>r. sint (st_scan_id r)) (map te_row (scan_task_table db)))"
  let ?page = "ScanTable_get_all 1000 (int offset) db"
  let ?m = "foldl (\<lambda>m row. List.insert (st_scan_id row) m) m ?page"
  show ?case
  proof (cases "length ?page < 1000")
    case True
    then have "length ?rows - offset < 1000" by (simp add: get_all_page min_def split: if_splits)
    then have "?page = drop offset ?rows" unfolding get_all_page by (intro take_all) simp
    with True show ?thesis
      by (subst ExportManager_load_pages.simps) (simp add: Let_def insert_fold_set)
  next
    case False
    then have ih: "set (ExportManager_load_pages db (offset + 1000) ?m)
        = set ?m \<union> st_scan_id ` set (drop (offset + 1000) ?rows)"
      using 1 by simp
    have e: "ExportManager_load_pages db offset m = ExportManager_load_pages db (offset + 1000) ?m"
      using False by (subst ExportManager_load_pages.simps) (simp add: Let_def)
    have "set (drop offset ?rows) = set ?page \<union> set (drop (offset + 1000) ?rows)"
      using append_take_drop_id [of 1000 "drop offset ?rows"] set_append
      unfolding get_all_page by (metis drop_drop add.commute [of 1000 offset])
    then show ?thesis unfolding e ih insert_fold_set by auto
  qed
qed

text \<open>The paging loop of \<^verbatim>\<open>start\<close> ends, and afterwards exactly the scans of the task table (and those
  known before) count as exported, whatever their number.\<close>

theorem export_start_loads_all:
  "set (ex_exported (ExportManager_start s)) =
     set (ex_exported s) \<union> (\<lambda>t. st_scan_id (te_row t)) ` set (scan_task_table (ex_db s))"
  by (auto simp: ExportManager_start_def load_pages_set)

subsection \<open>Batches\<close>

definition batch_ok :: "export_manager \<Rightarrow> bool" where
  "batch_ok s \<longleftrightarrow> ex_running s = int (ex_batch_count s)
     \<and> (ex_batch_count s = 0 \<or> ex_batch_count s < ex_batch_size s)"

lemma batch_ok_step: "batch_ok s \<Longrightarrow> export_step message glob m s = Some t \<Longrightarrow> batch_ok t"
  by (cases m)
    (auto simp: batch_ok_def export_defs Let_def split: if_splits option.splits)

interpretation batches: invariant "export_step message glob" batch_ok for message glob
  by unfold_locales (rule batch_ok_step)

text \<open>Events are written in bounded batches: the metric \<^verbatim>\<open>export_running\<close> is at any time the number of
  events written and not yet committed, which is 0 or less than the batch size.\<close>

theorem export_batches_bounded:
  assumes "reach (export_step message glob) (ExportManager_init n db) s"
  shows "ex_running s = int (ex_batch_count s) \<and> (ex_batch_count s = 0 \<or> ex_batch_count s < ex_batch_size s)"
  using batches.reach_keeps [OF assms] by (simp add: batch_ok_def ExportManager_init_def)

theorem export_batches_bounded_witness:
  "ex_running (ExportManager_init 10 empty_db) = 0"
proof -
  have "reach (export_step (\<lambda>n. []) (\<lambda>p t. True)) (ExportManager_init 10 empty_db)
      (ExportManager_init 10 empty_db)"
    by (rule reach_start)
  from export_batches_bounded [OF this] show ?thesis by (simp add: ExportManager_init_def)
qed

subsection \<open>A whole scan\<close>

definition scan_sentinel :: "u64 \<Rightarrow> string \<Rightarrow> bool \<Rightarrow> file_event" where
  "scan_sentinel i root c =
     \<lparr>fe_scan_id = i, fe_modtime = 0, fe_size = 0, fe_err = 0, fe_path = root,
      fe_node_type = UNKNOWN, fe_end_signal = \<lparr>is_sentinel = True, is_canceled = c\<rparr>\<rparr>"

lemma write_events:
  assumes "\<forall>e \<in> set es. \<not> is_sentinel (fe_end_signal e)" "ex_alive s"
  shows "\<exists>t. run (export_step message glob) (map Pop_event es) s = Some t
    \<and> ex_db t = upsert_all message es (ex_db s) \<and> ex_alive t
    \<and> ex_pending_rows t = ex_pending_rows s \<and> ex_exported t = ex_exported s
    \<and> ex_notified t = ex_notified s \<and> ex_finalizing t = ex_finalizing s"
  using assms
proof (induction es arbitrary: s)
  case Nil
  then show ?case by (simp add: upsert_all_def)
next
  case (Cons e es)
  let ?s = "ExportManager_write_result message glob e s"
  have s: "ex_alive ?s" "ex_db ?s = IndexWriter_upsert message e (ex_db s)"
      "ex_pending_rows ?s = ex_pending_rows s" "ex_exported ?s = ex_exported s"
      "ex_notified ?s = ex_notified s" "ex_finalizing ?s = ex_finalizing s"
    using Cons.prems by (auto simp: export_defs Let_def)
  have "\<forall>e \<in> set es. \<not> is_sentinel (fe_end_signal e)" using Cons.prems(1) by simp
  from Cons.IH [OF this s(1)] Cons.prems(2) s show ?case by (simp add: upsert_all_def)
qed

text \<open>The index tables do not depend on the task table.\<close>

lemma diff_fold_tasks:
  fixes d :: index_db and rs :: "history_row list"
  shows "scan_diff_table (foldl (\<lambda>db r. let prev = previous_row i (hr_path r) (index_history db) in
              ScanDiff_upsert i (hr_path r) (diff_state_of (hr_state r) prev)
                (case prev of None \<Rightarrow> 0 | Some p \<Rightarrow> hr_msize p) db) (d\<lparr>scan_task_table := x\<rparr>) rs)
      = scan_diff_table (foldl (\<lambda>db r. let prev = previous_row i (hr_path r) (index_history db) in
              ScanDiff_upsert i (hr_path r) (diff_state_of (hr_state r) prev)
                (case prev of None \<Rightarrow> 0 | Some p \<Rightarrow> hr_msize p) db) d rs)"
proof (induction rs arbitrary: d)
  case (Cons r rs)
  have "ScanDiff_upsert j p st n (d\<lparr>scan_task_table := x\<rparr>) = (ScanDiff_upsert j p st n d)\<lparr>scan_task_table := x\<rparr>"
    for j p st n by (simp add: ScanDiff_upsert_def)
  with Cons show ?case by (simp add: Let_def)
qed simp

lemma upsert_task_table:
  obtains x where "ScanTable_upsert row db = db\<lparr>scan_task_table := x\<rparr>"
proof (cases "list_ex (\<lambda>t. st_scan_id (te_row t) = st_scan_id row) (scan_task_table db)")
  case True
  then have "ScanTable_upsert row db = db\<lparr>scan_task_table := scan_task_table db\<rparr>"
    by (simp add: ScanTable_upsert_def)
  then show ?thesis by (rule that)
next
  case False
  then show ?thesis by (intro that) (simp add: ScanTable_upsert_def)
qed

lemma mark_deleted_tasks:
  "IndexWriter_mark_deleted glob task (d\<lparr>scan_task_table := x\<rparr>)
     = (IndexWriter_mark_deleted glob task d)\<lparr>scan_task_table := x\<rparr>"
  by (simp add: IndexWriter_mark_deleted_def Let_def)

lemma index_tables_find:
  "index_current (IndexReader_find_scan_diff_and_upsert_scandiff i (d\<lparr>scan_task_table := x\<rparr>))
     = index_current (IndexReader_find_scan_diff_and_upsert_scandiff i d)"
  "index_history (IndexReader_find_scan_diff_and_upsert_scandiff i (d\<lparr>scan_task_table := x\<rparr>))
     = index_history (IndexReader_find_scan_diff_and_upsert_scandiff i d)"
  "scan_diff_table (IndexReader_find_scan_diff_and_upsert_scandiff i (d\<lparr>scan_task_table := x\<rparr>))
     = scan_diff_table (IndexReader_find_scan_diff_and_upsert_scandiff i d)"
  by (simp_all) (simp add: IndexReader_find_scan_diff_and_upsert_scandiff_def diff_fold_tasks)

lemma index_tables_count:
  "index_current (ScanTable_upsert_count i d) = index_current d"
  "index_history (ScanTable_upsert_count i d) = index_history d"
  "scan_diff_table (ScanTable_upsert_count i d) = scan_diff_table d"
  by (simp_all add: ScanTable_upsert_count_def Let_def)

lemma export_whole:
  assumes "\<forall>e \<in> set es. \<not> is_sentinel (fe_end_signal e)" and "ex_alive s"
    and "map_of (ex_pending_rows s) i = Some row" and "st_submit_root row = root" and "root \<noteq> []"
  shows "\<exists>t. run (export_step message glob) (map Pop_event es @ [Pop_event (scan_sentinel i root c)]) s = Some t
    \<and> ex_alive t \<and> i \<in> set (ex_exported t) \<and> ex_notified t = ex_notified s @ [root]
    \<and> ex_finalizing t = ex_finalizing s \<and> ex_batch_count t = 0
    \<and> (let d = export_scan message glob \<lparr>dt_scan_id = i, dt_submit_root = root, dt_canceled = c\<rparr> es (ex_db s)
       in index_current (ex_db t) = index_current d \<and> index_history (ex_db t) = index_history d
          \<and> scan_diff_table (ex_db t) = scan_diff_table d)"
proof -
  obtain u where u: "run (export_step message glob) (map Pop_event es) s = Some u"
      "ex_db u = upsert_all message es (ex_db s)" "ex_alive u"
      "ex_pending_rows u = ex_pending_rows s" "ex_exported u = ex_exported s"
      "ex_notified u = ex_notified s" "ex_finalizing u = ex_finalizing s"
    using write_events [OF assms(1,2)] by blast
  let ?task = "\<lparr>dt_scan_id = i, dt_submit_root = root, dt_canceled = c\<rparr>"
  obtain x where x: "ScanTable_upsert row (ex_db u) = (ex_db u)\<lparr>scan_task_table := x\<rparr>"
    by (rule upsert_task_table)
  let ?t = "ExportManager_write_result message glob (scan_sentinel i root c) u"
  have "run (export_step message glob) (map Pop_event es @ [Pop_event (scan_sentinel i root c)]) s = Some ?t"
    using u(1,3) by (simp add: run_append)
  moreover have "ex_alive ?t \<and> i \<in> set (ex_exported ?t) \<and> ex_notified ?t = ex_notified s @ [root]
    \<and> ex_finalizing ?t = ex_finalizing s \<and> ex_batch_count ?t = 0"
    using u assms(3-5) by (simp add: export_defs Let_def scan_sentinel_def)
  moreover have "ex_db ?t = ScanTable_upsert_count i (IndexReader_find_scan_diff_and_upsert_scandiff i
      ((IndexWriter_mark_deleted glob ?task (upsert_all message es (ex_db s)))\<lparr>scan_task_table := x\<rparr>))"
    using u assms(3-5) x by (simp add: export_defs Let_def scan_sentinel_def flip: mark_deleted_tasks)
  ultimately show ?thesis
    by (intro exI [of _ ?t]) (simp only: Let_def index_tables_count index_tables_find export_scan_def delete_task.select_convs simp_thms)
qed

text \<open>C11: A scan whose task row has been handed over is exported as a whole: after its events and its
  sentinel the index, the history and the differences are those of one \<^const>\<open>export_scan\<close>, the scan
  counts as exported, its root is released, and the exporter goes on.\<close>

theorem export_scan_whole:
  assumes "\<forall>e \<in> set es. \<not> is_sentinel (fe_end_signal e)" and "ex_alive s"
    and "map_of (ex_pending_rows s) i = Some row" and "st_submit_root row = root" and "root \<noteq> []"
  shows "\<exists>t. run (export_step message glob) (map Pop_event es @ [Pop_event (scan_sentinel i root c)]) s = Some t
    \<and> ex_alive t \<and> i \<in> set (ex_exported t) \<and> ex_notified t = ex_notified s @ [root]
    \<and> ex_finalizing t = ex_finalizing s \<and> ex_batch_count t = 0
    \<and> (let d = export_scan message glob \<lparr>dt_scan_id = i, dt_submit_root = root, dt_canceled = c\<rparr> es (ex_db s)
       in index_current (ex_db t) = index_current d \<and> index_history (ex_db t) = index_history d
          \<and> scan_diff_table (ex_db t) = scan_diff_table d)"
  using assms by (rule export_whole)

theorem export_scan_whole_witness:
  "\<exists>t. run (export_step (\<lambda>n. []) (\<lambda>p t. False))
      [Pop_event (scan_sentinel 7 ''/a'' False)]
      (ExportManager_insert_scan_task
         \<lparr>st_scan_id = 7, st_start_time = 1, st_finish_time = 2, st_submit_root = ''/a'', st_end_state = DONE\<rparr>
         (ExportManager_init 10 empty_db)) = Some t
    \<and> ex_alive t \<and> ex_notified t = [''/a'']"
  using export_scan_whole [of "[]"
      "ExportManager_insert_scan_task
         \<lparr>st_scan_id = 7, st_start_time = 1, st_finish_time = 2, st_submit_root = ''/a'', st_end_state = DONE\<rparr>
         (ExportManager_init 10 empty_db)"
      7 "\<lparr>st_scan_id = 7, st_start_time = 1, st_finish_time = 2, st_submit_root = ''/a'', st_end_state = DONE\<rparr>"
      "''/a''" "\<lambda>n. []" "\<lambda>p t. False" False]
  by (auto simp: ExportManager_insert_scan_task_def ExportManager_init_def)

subsection \<open>A sentinel that comes too early\<close>

text \<open>
  \<^verbatim>\<open>task_on_job_finish\<close> pushes the sentinel before it calls \<^verbatim>\<open>insert_scan_task\<close>. When the thread takes
  the sentinel in between, \<^verbatim>\<open>get_scan_task\<close> throws, and it is called before the \<^verbatim>\<open>try\<close> block of
  \<^verbatim>\<open>finalize_scan\<close>.
\<close>

lemma dead_run:
  assumes "run (export_step message glob) ms s = Some t" and "\<not> ex_alive s"
  shows "ex_db t = ex_db s \<and> ex_exported t = ex_exported s \<and> ex_notified t = ex_notified s
    \<and> ex_finalizing t = ex_finalizing s \<and> \<not> ex_alive t"
  using assms
proof (induction ms arbitrary: s)
  case Nil
  then show ?case by simp
next
  case (Cons m ms)
  then obtain row where m: "m = Insert_task row"
    by (cases m) (auto split: if_splits)
  with Cons.prems have "run (export_step message glob) ms (ExportManager_insert_scan_task row s) = Some t"
      and "\<not> ex_alive (ExportManager_insert_scan_task row s)"
    by (simp_all add: ExportManager_insert_scan_task_def)
  from Cons.IH [OF this] show ?case by (simp add: ExportManager_insert_scan_task_def)
qed

text \<open>C32: When the exporter reaches a sentinel before \<^verbatim>\<open>insert_scan_task\<close> of its scan, which the order in
  \<^verbatim>\<open>task_on_job_finish\<close> allows, the thread ends with the metric \<^verbatim>\<open>export_finalizing_running\<close> one too
  high; whatever happens afterwards, nothing more is written, no scan becomes exported and no root
  is released.\<close>

theorem export_early_sentinel_kills:
  assumes "ex_alive s" and "map_of (ex_pending_rows s) i = None"
    and "run (export_step message glob) (Pop_event (scan_sentinel i root c) # ms) s = Some t"
  shows "\<not> ex_alive t \<and> ex_finalizing t = ex_finalizing s + 1 \<and> ex_db t = ex_db s
    \<and> ex_exported t = ex_exported s \<and> ex_notified t = ex_notified s"
proof -
  let ?u = "ExportManager_write_result message glob (scan_sentinel i root c) s"
  have u: "\<not> ex_alive ?u" "ex_finalizing ?u = ex_finalizing s + 1" "ex_db ?u = ex_db s"
      "ex_exported ?u = ex_exported s" "ex_notified ?u = ex_notified s"
    using assms(2) by (simp_all add: export_defs Let_def scan_sentinel_def)
  have "run (export_step message glob) ms ?u = Some t" using assms(1,3) by simp
  from dead_run [OF this u(1)] u show ?thesis by simp
qed

theorem export_early_sentinel_kills_witness:
  "\<not> ex_alive (ExportManager_insert_scan_task
         \<lparr>st_scan_id = 7, st_start_time = 1, st_finish_time = 2, st_submit_root = ''/a'', st_end_state = DONE\<rparr>
      (ExportManager_write_result (\<lambda>n. []) (\<lambda>p t. False) (scan_sentinel 7 ''/a'' False)
         (ExportManager_init 10 empty_db)))"
proof -
  let ?s = "ExportManager_init 10 empty_db"
  let ?row = "\<lparr>st_scan_id = 7, st_start_time = 1, st_finish_time = 2, st_submit_root = ''/a'',
    st_end_state = DONE\<rparr> :: scan_task_row"
  let ?t = "ExportManager_insert_scan_task ?row
    (ExportManager_write_result (\<lambda>n. []) (\<lambda>p t. False) (scan_sentinel 7 ''/a'' False) ?s)"
  have "ex_alive ?s" "map_of (ex_pending_rows ?s) 7 = None" by (simp_all add: ExportManager_init_def)
  moreover have "run (export_step (\<lambda>n. []) (\<lambda>p t. False))
      (Pop_event (scan_sentinel 7 ''/a'' False) # [Insert_task ?row]) ?s = Some ?t"
    by (simp add: ExportManager_init_def)
  ultimately show ?thesis using export_early_sentinel_kills by blast
qed

end
