(* ===== verification/Text_Numbers.thy ===== *)
theory Text_Numbers
  imports FS_Prelude
begin

section \<open>Numbers and tokens in text\<close>

text \<open>
  What the parsers of requests and of the configuration share from the C++ library: the decimal
  conversions and \<^verbatim>\<open>std::getline\<close>. A \<^typ>\<open>char\<close> is a byte.
\<close>

lemma of_char_int: "(of_char (char_of (n :: nat)) :: int) = int (n mod 256)"
  by (metis of_char_of of_nat_of_char)

definition is_digit :: "char \<Rightarrow> bool" where
  "is_digit c \<longleftrightarrow> 48 \<le> (of_char c :: nat) \<and> (of_char c :: nat) \<le> 57"

definition is_space :: "char \<Rightarrow> bool" where
  "is_space c \<longleftrightarrow> (of_char c :: nat) = 32 \<or> 9 \<le> (of_char c :: nat) \<and> (of_char c :: nat) \<le> 13"

definition is_upper :: "char \<Rightarrow> bool" where
  "is_upper c \<longleftrightarrow> 65 \<le> (of_char c :: nat) \<and> (of_char c :: nat) \<le> 90"

definition digits_value :: "string \<Rightarrow> int" where
  "digits_value s = foldl (\<lambda>v c. v * 10 + (of_char c - 48)) 0 s"

text \<open>An optional sign and the digits after it.\<close>

definition signed_digits :: "string \<Rightarrow> bool \<times> string" where
  "signed_digits s =
     (case s of
        [] \<Rightarrow> (False, [])
      | c # t \<Rightarrow> if c = CHR ''-'' then (True, takeWhile is_digit t)
                 else (False, takeWhile is_digit (if c = CHR ''+'' then t else s)))"

text \<open>\<^verbatim>\<open>atoll\<close> of a \<^verbatim>\<open>c_str()\<close>. The standard leaves a number beyond the range open; here, as in the C
  libraries that define it by \<^verbatim>\<open>strtoll\<close>, it is cut to the bound.\<close>

definition atoll :: "string \<Rightarrow> int" where
  "atoll str =
     (let (neg, ds) = signed_digits (dropWhile is_space (takeWhile (\<lambda>c. c \<noteq> CHR 0x00) str));
          n = digits_value ds
      in if neg then max (- (2 ^ 63)) (- n) else min (2 ^ 63 - 1) n)"

text \<open>\<^verbatim>\<open>std::stoi\<close> and \<^verbatim>\<open>std::stoull\<close>; \<^term>\<open>None\<close> stands for the exceptions they throw, on a text without
  digits and on a number out of range. What follows the digits is ignored. A sign is legal in an
  unsigned number too; the result is then negated modulo \<open>2^64\<close>.\<close>

definition stoi :: "string \<Rightarrow> int option" where
  "stoi str =
     (let (neg, ds) = signed_digits (dropWhile is_space (takeWhile (\<lambda>c. c \<noteq> CHR 0x00) str));
          n = (if neg then - digits_value ds else digits_value ds)
      in if ds = [] \<or> n < - (2 ^ 31) \<or> 2 ^ 31 - 1 < n then None else Some n)"

definition stoull :: "string \<Rightarrow> int option" where
  "stoull str =
     (let (neg, ds) = signed_digits (dropWhile is_space (takeWhile (\<lambda>c. c \<noteq> CHR 0x00) str));
          n = digits_value ds
      in if ds = [] \<or> 2 ^ 64 - 1 < n then None
         else Some (if neg then (- n) mod 2 ^ 64 else n))"

text \<open>\<^verbatim>\<open>std::to_string\<close>.\<close>

fun to_string_nat :: "nat \<Rightarrow> string" where
  "to_string_nat n =
     (if n < 10 then [char_of (48 + n)] else to_string_nat (n div 10) @ [char_of (48 + n mod 10)])"

declare to_string_nat.simps [simp del]

definition to_string :: "int \<Rightarrow> string" where
  "to_string i = (if i < 0 then CHR ''-'' # to_string_nat (nat (- i)) else to_string_nat (nat i))"

text \<open>\<^verbatim>\<open>while (std::getline(ss, token, d))\<close>: the tokens up to each delimiter; what follows the last one is
  a token if it is not empty.\<close>

fun getline_tokens :: "char \<Rightarrow> string \<Rightarrow> string \<Rightarrow> string list" where
  "getline_tokens d token [] = (if token = [] then [] else [token])"
| "getline_tokens d token (c # s) =
     (if c = d then token # getline_tokens d [] s else getline_tokens d (token @ [c]) s)"

lemma to_string_digits: "list_all is_digit (to_string_nat n) \<and> to_string_nat n \<noteq> []"
proof (induction n rule: to_string_nat.induct)
  case (1 n)
  have d: "is_digit (char_of (48 + m mod 10))" for m :: nat by (simp add: is_digit_def)
  show ?case
  proof (cases "n < 10")
    case True
    with d [of n] show ?thesis by (subst (1 2) to_string_nat.simps) simp
  next
    case False
    with 1 d [of n] show ?thesis by (subst (1 2) to_string_nat.simps) simp
  qed
qed

lemma digits_value_append: "digits_value (s @ [c]) = digits_value s * 10 + (of_char c - 48)"
  by (simp add: digits_value_def)

lemma digits_value_to_string: "digits_value (to_string_nat n) = int n"
proof (induction n rule: to_string_nat.induct)
  case (1 n)
  show ?case
  proof (cases "n < 10")
    case True
    then show ?thesis by (subst to_string_nat.simps) (simp add: digits_value_def of_char_int)
  next
    case False
    then have "digits_value (to_string_nat n) = int (n div 10) * 10 + int (n mod 10)"
      using 1 by (subst to_string_nat.simps) (simp add: digits_value_append of_char_int)
    then show ?thesis by (metis div_mult_mod_eq mult.commute of_nat_add of_nat_mult of_nat_numeral)
  qed
qed

lemma is_digit_not: "is_digit c \<Longrightarrow> \<not> is_space c \<and> c \<noteq> CHR ''-'' \<and> c \<noteq> CHR ''+'' \<and> c \<noteq> CHR '','' \<and> c \<noteq> CHR 0x00"
  by (auto simp: is_digit_def is_space_def)

text \<open>A text of digits is read whole by each of the conversions.\<close>

lemma digits_read:
  assumes "list_all is_digit s" and "s \<noteq> []"
  shows "signed_digits (dropWhile is_space (takeWhile (\<lambda>c. c \<noteq> CHR 0x00) s)) = (False, s)"
proof -
  obtain c t where s: "s = c # t" using assms(2) by (cases s) auto
  have "takeWhile (\<lambda>c. c \<noteq> CHR 0x00) s = s"
    using assms(1) is_digit_not by (simp add: list_all_iff)
  moreover have "dropWhile is_space s = s" using assms(1) is_digit_not s by simp
  moreover have "signed_digits s = (False, s)"
    using assms(1) is_digit_not s by (auto simp: signed_digits_def list_all_iff)
  ultimately show ?thesis by (simp only:)
qed

lemma minus_digits_read:
  assumes "list_all is_digit s" and "s \<noteq> []"
  shows "signed_digits (dropWhile is_space (takeWhile (\<lambda>c. c \<noteq> CHR 0x00) (CHR ''-'' # s))) = (True, s)"
proof -
  have "signed_digits (CHR ''-'' # s) = (True, s)"
    using assms(1) by (simp add: signed_digits_def list_all_iff)
  moreover have "takeWhile (\<lambda>c. c \<noteq> CHR 0x00) (CHR ''-'' # s) = CHR ''-'' # s"
    using assms(1) is_digit_not by (simp add: list_all_iff)
  moreover have "dropWhile is_space (CHR ''-'' # s) = CHR ''-'' # s" by (simp add: is_space_def)
  ultimately show ?thesis by (simp only:)
qed

lemma atoll_digits:
  assumes "list_all is_digit s" and "s \<noteq> []"
  shows "atoll s = min (2 ^ 63 - 1) (digits_value s)"
  unfolding atoll_def digits_read [OF assms] by (simp only: Let_def prod.case if_False)

lemma stoi_to_string: "n < 2 ^ 31 \<Longrightarrow> stoi (to_string_nat n) = Some (int n)"
  using to_string_digits [of n] by (simp add: stoi_def digits_read digits_value_to_string Let_def)

lemma stoull_to_string: "n < 2 ^ 64 \<Longrightarrow> stoull (to_string_nat n) = Some (int n)"
  using to_string_digits [of n] by (simp add: stoull_def digits_read digits_value_to_string Let_def)

lemma stoull_minus:
  "n < 2 ^ 64 \<Longrightarrow> stoull (CHR ''-'' # to_string_nat n) = Some ((- int n) mod 2 ^ 64)"
proof -
  assume n: "n < 2 ^ 64"
  have d: "list_all is_digit (to_string_nat n)" "to_string_nat n \<noteq> []" using to_string_digits [of n] by simp_all
  show ?thesis
    unfolding stoull_def minus_digits_read [OF d] using n d by (simp add: digits_value_to_string Let_def)
qed

lemma atoll_to_string: "n < 2 ^ 63 \<Longrightarrow> atoll (to_string_nat n) = int n"
  using atoll_digits [of "to_string_nat n"] to_string_digits [of n] by (simp add: digits_value_to_string)

lemma getline_token:
  "d \<notin> set a \<Longrightarrow> getline_tokens d token (a @ d # s)
     = (token @ a) # getline_tokens d [] s"
  by (induction a arbitrary: token) auto

lemma getline_last:
  "d \<notin> set a \<Longrightarrow> token @ a \<noteq> [] \<Longrightarrow> getline_tokens d token a = [token @ a]"
  by (induction a arbitrary: token) auto

lemma digits_value_nonneg: "list_all is_digit s \<Longrightarrow> 0 \<le> digits_value s"
proof (induction s rule: rev_induct)
  case (snoc c s)
  then have "48 \<le> (of_char c :: nat)" by (simp add: is_digit_def)
  then have "48 \<le> (of_char c :: int)" by (metis of_nat_of_char of_nat_le_iff of_nat_numeral)
  with snoc show ?case by (simp add: digits_value_append)
qed (simp add: digits_value_def)

lemma signed_digits_digits: "list_all is_digit (snd (signed_digits s))"
  by (cases s) (auto simp: signed_digits_def list_all_iff dest: set_takeWhileD)

lemma atoll_bound: "atoll s < 2 ^ 63"
proof -
  obtain neg ds where p: "signed_digits (dropWhile is_space (takeWhile (\<lambda>c. c \<noteq> CHR 0x00) s)) = (neg, ds)"
    by (cases "signed_digits (dropWhile is_space (takeWhile (\<lambda>c. c \<noteq> CHR 0x00) s))")
  then have "0 \<le> digits_value ds" using signed_digits_digits digits_value_nonneg by (metis snd_conv)
  with p show ?thesis by (auto simp: atoll_def Let_def min_def)
qed

end
