(* ===== verification/Http_Request.thy ===== *)
theory Http_Request
  imports Common_Types Text_Numbers
begin

section \<open>Reading requests (src/daemon\_system/httpserver.cpp)\<close>

text \<open>
  The parsing half of \<^verbatim>\<open>HttpServer\<close>: the request line, the query, the percent decoding and the
  numbers in it. What a client does, the encoding, is stated as the specification that the
  decoding is measured against. A \<^typ>\<open>char\<close> is a byte.
\<close>

unbundle bit_operations_syntax

subsection \<open>The request line\<close>

record request_content =
  rq_method :: string
  rq_path :: string

definition empty_request :: request_content where
  "empty_request = \<lparr>rq_method = [], rq_path = []\<rparr>"

text \<open>The method loop; it passes over characters that are neither capitals nor the blank.\<close>

fun request_method :: "string \<Rightarrow> string" where
  "request_method [] = []"
| "request_method (c # line) =
     (if is_upper c then c # request_method line
      else if c = CHR '' '' then [] else request_method line)"

definition path_char :: "char \<Rightarrow> bool" where
  "path_char c \<longleftrightarrow> c \<noteq> CHR 0x00 \<and> c \<noteq> CHR '' '' \<and> c \<noteq> CHR 0x0A \<and> c \<noteq> CHR 0x0D"

definition HttpServer_parse_request :: "string \<Rightarrow> request_content" where
  "HttpServer_parse_request line =
     (let m = request_method line in
      if m = [] then empty_request
      else if length line \<le> length m \<or> line ! length m \<noteq> CHR '' '' then empty_request
      else let p = takeWhile path_char (drop (length m + 1) line) in
        if p = [] then empty_request else \<lparr>rq_method = m, rq_path = p\<rparr>)"

text \<open>
  \<^verbatim>\<open>read_request\<close>: \<open>sock n\<close> is what \<^verbatim>\<open>::read\<close> of at most \<open>n\<close> bytes delivers, \<^term>\<open>None\<close> an error. The
  buffer becomes a C string, which ends at its first zero byte.
\<close>

definition HttpServer_read_request :: "(nat \<Rightarrow> string option) \<Rightarrow> request_content" where
  "HttpServer_read_request sock =
     (case sock (8192 - 1) of
        None \<Rightarrow> empty_request
      | Some read_buf \<Rightarrow>
          (if read_buf = [] then empty_request
           else HttpServer_parse_request (takeWhile (\<lambda>c. c \<noteq> CHR 0x00) read_buf)))"

lemma request_method_prefix:
  assumes "request_method line = m" and "length m < length line" and "line ! length m = CHR '' ''"
  shows "line = m @ CHR '' '' # drop (length m + 1) line \<and> list_all is_upper m"
  using assms
proof (induction line arbitrary: m)
  case Nil
  then show ?case by simp
next
  case (Cons c line)
  show ?case
  proof (cases "is_upper c")
    case True
    with Cons.prems obtain m' where m: "m = c # m'" "request_method line = m'" by auto
    with Cons.prems Cons.IH [of m'] True show ?thesis by simp
  next
    case False
    have count: "length (request_method l) \<le> length (takeWhile (\<lambda>x. x \<noteq> CHR '' '') l)" for l
      by (induction l) (auto simp: is_upper_def)
    show ?thesis
    proof (cases "c = CHR '' ''")
      case True
      then have "m = []" using False Cons.prems(1) by simp
      with True show ?thesis by simp
    next
      case c: False
      then have rm: "m = request_method line" using False Cons.prems(1) by simp
      have "length m < length (takeWhile (\<lambda>x. x \<noteq> CHR '' '') (c # line))"
        using count [of line] c rm by simp
      then have "(c # line) ! length m \<noteq> CHR '' ''"
        using takeWhile_nth [of "length m" "\<lambda>x. x \<noteq> CHR '' ''" "c # line"]
          set_takeWhileD [OF nth_mem [of "length m" "takeWhile (\<lambda>x. x \<noteq> CHR '' '') (c # line)"]]
        by simp
      with Cons.prems(3) show ?thesis by simp
    qed
  qed
qed

lemma request_method_upper:
  "list_all is_upper m \<Longrightarrow> request_method (m @ CHR '' '' # rest) = m"
  by (induction m) (auto simp: is_upper_def)

lemma parse_request_iff:
  "HttpServer_parse_request line = \<lparr>rq_method = m, rq_path = p\<rparr> \<and> m \<noteq> [] \<longleftrightarrow>
   (\<exists>rest. line = m @ CHR '' '' # p @ rest \<and> m \<noteq> [] \<and> p \<noteq> [] \<and> list_all is_upper m
      \<and> list_all path_char p \<and> (rest = [] \<or> \<not> path_char (hd rest)))" (is "?L \<longleftrightarrow> ?R")
proof
  assume ?L
  then have m: "request_method line = m" "length m < length line" "line ! length m = CHR '' ''"
      and p: "takeWhile path_char (drop (length m + 1) line) = p" and ne: "m \<noteq> []" "p \<noteq> []"
    by (auto simp: HttpServer_parse_request_def empty_request_def Let_def split: if_splits)
  let ?rest = "dropWhile path_char (drop (length m + 1) line)"
  have "line = m @ CHR '' '' # p @ ?rest" "list_all is_upper m"
    using request_method_prefix [OF m] p by (metis takeWhile_dropWhile_id)+
  moreover have "list_all path_char p" using p by (auto simp: list_all_iff dest: set_takeWhileD)
  moreover have "?rest = [] \<or> \<not> path_char (hd ?rest)" using hd_dropWhile by blast
  ultimately show ?R using ne by blast
next
  assume ?R
  then obtain rest where r: "line = m @ CHR '' '' # p @ rest" "m \<noteq> []" "p \<noteq> []" "list_all is_upper m"
      "list_all path_char p" "rest = [] \<or> \<not> path_char (hd rest)" by blast
  have "takeWhile path_char (p @ rest) = p"
    using r(5,6) by (cases rest) (auto simp: list_all_iff takeWhile_append)
  with r show ?L
    by (simp add: HttpServer_parse_request_def request_method_upper Let_def)
qed

text \<open>A request is accepted just when it starts with a method of capital letters, one blank and a
  path that ends at a blank, a line end or the end of the input; these are what is returned.\<close>

theorem parse_request_accepts:
  "HttpServer_parse_request line = \<lparr>rq_method = m, rq_path = p\<rparr> \<and> m \<noteq> [] \<longleftrightarrow>
   (\<exists>rest. line = m @ CHR '' '' # p @ rest \<and> m \<noteq> [] \<and> p \<noteq> [] \<and> list_all is_upper m
      \<and> list_all path_char p \<and> (rest = [] \<or> \<not> path_char (hd rest)))"
  by (rule parse_request_iff)

theorem parse_request_accepts_witness:
  "HttpServer_parse_request ''GET /state HTTP/1.1'' = \<lparr>rq_method = ''GET'', rq_path = ''/state''\<rparr>"
proof -
  have "\<exists>rest. ''GET /state HTTP/1.1'' = ''GET'' @ CHR '' '' # ''/state'' @ rest \<and> ''GET'' \<noteq> [] \<and> ''/state'' \<noteq> []
      \<and> list_all is_upper ''GET'' \<and> list_all path_char ''/state'' \<and> (rest = [] \<or> \<not> path_char (hd rest))"
    by (intro exI [of _ "'' HTTP/1.1''"]) (simp add: is_upper_def path_char_def)
  then show ?thesis using parse_request_accepts [of "''GET /state HTTP/1.1''" "''GET''" "''/state''"] by blast
qed

subsection \<open>Percent decoding\<close>

definition HttpServer_char_to_num :: "char \<Rightarrow> int" where
  "HttpServer_char_to_num c =
     (let n = of_char c :: int in
      if 48 \<le> n \<and> n \<le> 57 then n - 48
      else if 97 \<le> n \<and> n \<le> 102 then n - 97 + 10
      else if 65 \<le> n \<and> n \<le> 70 then n - 65 + 10
      else - 1)"

text \<open>The decoding loop of \<^verbatim>\<open>get_query_value\<close>.\<close>

fun url_decode :: "string \<Rightarrow> string" where
  "url_decode [] = []"
| "url_decode (c # url) =
     (if c = CHR ''%'' \<and> 2 \<le> length url
         \<and> HttpServer_char_to_num (url ! 0) \<noteq> - 1 \<and> HttpServer_char_to_num (url ! 1) \<noteq> - 1
      then char_of (push_bit 4 (HttpServer_char_to_num (url ! 0)) OR HttpServer_char_to_num (url ! 1))
             # url_decode (drop 2 url)
      else (if c = CHR ''+'' then CHR '' '' else c) # url_decode url)"

text \<open>The encoding of the clients (\<^verbatim>\<open>encodeURIComponent\<close>): unreserved characters stand for
  themselves, every other byte becomes a percent sign and two hexadecimal digits.\<close>

definition unreserved :: "char \<Rightarrow> bool" where
  "unreserved c \<longleftrightarrow> (let n = of_char c :: nat in
     48 \<le> n \<and> n \<le> 57 \<or> 65 \<le> n \<and> n \<le> 90 \<or> 97 \<le> n \<and> n \<le> 122
     \<or> c \<in> set ''-_.!~*()'' \<or> n = 39)"

definition hex_digit :: "nat \<Rightarrow> char" where
  "hex_digit n = char_of (if n < 10 then 48 + n else 55 + n)"

definition url_encode_char :: "char \<Rightarrow> string" where
  "url_encode_char c =
     (if unreserved c then [c]
      else let n = of_char c in [CHR ''%'', hex_digit (n div 16), hex_digit (n mod 16)])"

definition url_encode :: "string \<Rightarrow> string" where
  "url_encode s = concat (map url_encode_char s)"

lemma char_to_num_hex: "n < 16 \<Longrightarrow> HttpServer_char_to_num (hex_digit n) = int n"
  by (simp add: HttpServer_char_to_num_def hex_digit_def Let_def of_char_int)

lemma nibbles: "l < 16 \<Longrightarrow> push_bit 4 (int h) OR int l = int (16 * h + l)"
proof -
  assume l: "l < 16"
  have "push_bit 4 (int h) + int l = push_bit 4 (int h) OR int l"
  proof (rule disjunctive_add)
    fix n
    have "take_bit 4 (int l) = int l" using l by (simp add: take_bit_int_eq_self)
    then have "bit (int l) n \<Longrightarrow> n < 4" by (metis bit_take_bit_iff)
    then show "\<not> bit (push_bit 4 (int h)) n \<or> \<not> bit (int l) n" by (auto simp: bit_push_bit_iff)
  qed
  then show ?thesis by (simp add: push_bit_eq_mult)
qed

lemma decode_hex:
  assumes "n < 256"
  shows "url_decode (CHR ''%'' # hex_digit (n div 16) # hex_digit (n mod 16) # t) = char_of n # url_decode t"
proof -
  have "16 * (n div 16) + n mod 16 = n" by simp
  then have "char_of (push_bit 4 (int (n div 16)) OR int (n mod 16)) = (char_of n :: char)"
    using nibbles [of "n mod 16" "n div 16"] by (metis char_of_nat mod_less_divisor zero_less_numeral)
  with assms show ?thesis by (simp add: char_to_num_hex)
qed

text \<open>Decoding undoes the clients' encoding, for every byte string.\<close>

lemma url_decode_encode: "url_decode (url_encode s) = s"
proof (induction s)
  case Nil
  then show ?case by (simp add: url_encode_def)
next
  case (Cons c s)
  have e: "url_encode (c # s) = url_encode_char c @ url_encode s" by (simp add: url_encode_def)
  show ?case
  proof (cases "unreserved c")
    case True
    then have "c \<noteq> CHR ''%''" "c \<noteq> CHR ''+''" by (auto simp: unreserved_def)
    with True Cons show ?thesis by (simp add: e url_encode_char_def)
  next
    case False
    have "(of_char c :: nat) < 256" by (rule nat_of_char_less_256)
    with False Cons show ?thesis
      using decode_hex [of "of_char c" "url_encode s"] by (simp add: e url_encode_char_def Let_def)
  qed
qed

subsection \<open>The query\<close>

text \<open>\<^verbatim>\<open>get_query_value\<close>; \<^term>\<open>None\<close> is the return value \<^verbatim>\<open>false\<close>.\<close>

definition HttpServer_get_query_value :: "string \<Rightarrow> string \<Rightarrow> string option" where
  "HttpServer_get_query_value queries key =
     (let pattern = key @ ''='' in
      case str_find pattern queries of
        None \<Rightarrow> None
      | Some key_start \<Rightarrow>
          (let key_end = key_start + length pattern;
               url = (case str_find_from ''&'' queries key_end of
                        None \<Rightarrow> drop key_end queries
                      | Some val_end \<Rightarrow> substr queries key_end (val_end - key_end))
           in if url = [] then None else Some (url_decode url)))"

text \<open>The query string that a client builds from its parameters.\<close>

fun query_string :: "(string \<times> string) list \<Rightarrow> string" where
  "query_string [] = []"
| "query_string [(k, v)] = k @ ''='' @ url_encode v"
| "query_string ((k, v) # kvs) = k @ ''='' @ url_encode v @ ''&'' @ query_string kvs"

definition key_ok :: "string \<Rightarrow> bool" where
  "key_ok k \<longleftrightarrow> k \<noteq> [] \<and> CHR ''='' \<notin> set k \<and> CHR ''&'' \<notin> set k"

definition ends_with :: "string \<Rightarrow> string \<Rightarrow> bool" where
  "ends_with k s \<longleftrightarrow> drop (length s - length k) s = k"

lemma hex_digit_plain: "n < 16 \<Longrightarrow> hex_digit n \<noteq> CHR ''='' \<and> hex_digit n \<noteq> CHR ''&''"
proof -
  assume "n < 16"
  then have "(of_char (hex_digit n) :: nat) = (if n < 10 then 48 + n else 55 + n)"
    by (simp add: hex_digit_def)
  with \<open>n < 16\<close> show ?thesis by (auto split: if_splits)
qed

lemma url_encode_plain: "CHR ''='' \<notin> set (url_encode s) \<and> CHR ''&'' \<notin> set (url_encode s)"
proof -
  have "CHR ''='' \<notin> set (url_encode_char c) \<and> CHR ''&'' \<notin> set (url_encode_char c)" for c
  proof (cases "unreserved c")
    case True
    then have "c \<noteq> CHR ''=''" "c \<noteq> CHR ''&''" by (auto simp: unreserved_def)
    with True show ?thesis by (simp add: url_encode_char_def)
  next
    case False
    have "(of_char c :: nat) div 16 < 16" 
      by (intro less_mult_imp_div_less) (use nat_of_char_less_256 [of c] in simp)
    with False hex_digit_plain [of "of_char c div 16"] hex_digit_plain [of "of_char c mod 16"]
    show ?thesis by (auto simp: url_encode_char_def Let_def)
  qed
  then show ?thesis by (auto simp: url_encode_def)
qed

lemma url_encode_Nil: "url_encode s = [] \<longleftrightarrow> s = []"
  by (cases s) (auto simp: url_encode_def url_encode_char_def Let_def)

lemma str_find_append_skip:
  "(\<And>j. j < length a \<Longrightarrow> \<not> starts_with p (drop j (a @ b))) \<Longrightarrow>
   str_find p (a @ b) = map_option ((+) (length a)) (str_find p b)"
proof (induction a)
  case Nil
  then show ?case by (cases "str_find p b") simp_all
next
  case (Cons c a)
  from Cons.prems [of 0] have "\<not> starts_with p (c # a @ b)" by simp
  moreover have "str_find p (a @ b) = map_option ((+) (length a)) (str_find p b)"
    using Cons.prems [of "Suc j" for j] by (intro Cons.IH) auto
  ultimately show ?case by (cases "str_find p b") simp_all
qed

lemma starts_with_key:
  "CHR ''='' \<notin> set k \<Longrightarrow> starts_with (k @ ''='') s \<Longrightarrow> takeWhile (\<lambda>c. c \<noteq> CHR ''='') s = k"
  by (auto simp: starts_with_iff takeWhile_append)

lemma key_not_here:
  assumes "key_ok k" "key_ok k'" "\<not> ends_with k k'" "CHR ''='' \<notin> set e"
    and "j < length (k' @ ''='' @ e @ ''&'')"
  shows "\<not> starts_with (k @ ''='') (drop j ((k' @ ''='' @ e @ ''&'') @ rest))"
proof
  assume a: "starts_with (k @ ''='') (drop j ((k' @ ''='' @ e @ ''&'') @ rest))"
  have k: "CHR ''='' \<notin> set k" "CHR ''&'' \<notin> set k" "CHR ''='' \<notin> set k'"
    using assms(1,2) by (auto simp: key_ok_def)
  show False
  proof (cases "j \<le> length k'")
    case True
    then have "drop j ((k' @ ''='' @ e @ ''&'') @ rest) = drop j k' @ CHR ''='' # e @ ''&'' @ rest" by simp
    with starts_with_key [OF k(1) a] have "takeWhile (\<lambda>c. c \<noteq> CHR ''='') (drop j k' @ CHR ''='' # e @ ''&'' @ rest) = k"
      by simp
    moreover have "CHR ''='' \<notin> set (drop j k')" using k(3) by (auto dest: in_set_dropD)
    ultimately have "drop j k' = k" by (auto simp: takeWhile_append)
    then have "ends_with k k'" using True by (auto simp: ends_with_def)
    with assms(3) show False by simp
  next
    case False
    then obtain i where i: "j = length k' + 1 + i" by (metis add.assoc less_imp_Suc_add not_le plus_1_eq_Suc add_Suc_right)
    then have le: "i \<le> length e" using assms(5) by simp
    have "drop j ((k' @ ''='' @ e @ ''&'') @ rest) = drop i e @ CHR ''&'' # rest" using i le by simp
    with starts_with_key [OF k(1) a] have "takeWhile (\<lambda>c. c \<noteq> CHR ''='') (drop i e @ CHR ''&'' # rest) = k" by simp
    moreover have "CHR ''='' \<notin> set (drop i e)" using assms(4) by (auto dest: in_set_dropD)
    ultimately have "CHR ''&'' \<in> set k" by (auto simp: takeWhile_append)
    with k(2) show False by simp
  qed
qed

lemma query_string_Cons:
  "kvs \<noteq> [] \<Longrightarrow> query_string ((k, v) # kvs) = (k @ ''='' @ url_encode v @ ''&'') @ query_string kvs"
  by (cases kvs) auto

definition pair_text :: "string \<times> string \<Rightarrow> string" where
  "pair_text kv = fst kv @ ''='' @ url_encode (snd kv) @ ''&''"

lemma query_string_split:
  "kvs \<noteq> [] \<Longrightarrow> query_string (pre @ kvs) = concat (map pair_text pre) @ query_string kvs"
  by (induction pre) (auto simp: pair_text_def query_string_Cons)

lemma find_key:
  assumes "\<forall>(k', v') \<in> set pre. key_ok k' \<and> \<not> ends_with k k'" and "key_ok k"
  shows "str_find (k @ ''='') (concat (map pair_text pre) @ k @ ''='' @ t) = Some (length (concat (map pair_text pre)))"
  using assms(1)
proof (induction pre)
  case Nil
  have "starts_with (k @ ''='') (k @ ''='' @ t)" by (metis append.assoc starts_with_append)
  then show ?case by (cases "k @ ''='' @ t") auto
next
  case (Cons kv pre)
  obtain k' v' where kv: "kv = (k', v')" by (cases kv)
  let ?rest = "concat (map pair_text pre) @ k @ ''='' @ t"
  have k': "key_ok k'" "\<not> ends_with k k'" using Cons.prems kv by auto
  have "\<not> starts_with (k @ ''='') (drop j (pair_text kv @ ?rest))" if "j < length (pair_text kv)" for j
    using key_not_here [OF assms(2) k', of "url_encode v'" j ?rest] that url_encode_plain [of v']
    by (simp only: pair_text_def kv fst_conv snd_conv not_False_eq_True True_implies_equals)
  then have "str_find (k @ ''='') (pair_text kv @ ?rest)
      = map_option ((+) (length (pair_text kv))) (str_find (k @ ''='') ?rest)"
    by (rule str_find_append_skip)
  with Cons kv show ?case by simp
qed

lemma query_value:
  assumes "key_ok k" and "v \<noteq> []"
    and "\<forall>(k', v') \<in> set pre. key_ok k' \<and> \<not> ends_with k k'"
  shows "HttpServer_get_query_value (query_string (pre @ (k, v) # post)) k = Some v"
proof -
  let ?a = "concat (map pair_text pre)"
  obtain t where t: "query_string ((k, v) # post) = k @ ''='' @ url_encode v @ t" "t = [] \<or> hd t = CHR ''&''"
    by (cases post) (auto simp: query_string_Cons)
  have q: "query_string (pre @ (k, v) # post) = ?a @ k @ ''='' @ url_encode v @ t"
    using t(1) by (simp add: query_string_split)
  let ?q = "?a @ k @ ''='' @ url_encode v @ t"
  let ?stop = "length ?a + length (k @ ''='')"
  have f: "str_find (k @ ''='') ?q = Some (length ?a)" using find_key [OF assms(3,1)] .
  have d: "drop ?stop ?q = url_encode v @ t" by simp
  have ne: "url_encode v \<noteq> []" using assms(2) by (simp add: url_encode_Nil)
  have amp: "CHR ''&'' \<notin> set (url_encode v)" using url_encode_plain by blast
  show ?thesis
  proof (cases t)
    case Nil
    then have "str_find ''&'' (url_encode v @ t) = None"
      using amp by (subst str_find_None) (auto dest: arg_cong [of _ _ set])
    then have "str_find_from ''&'' ?q ?stop = None" using d by (simp add: str_find_from_def)
    then have "HttpServer_get_query_value ?q k = Some (url_decode (url_encode v))"
      unfolding HttpServer_get_query_value_def Let_def f option.case d using ne Nil by simp
    then show ?thesis unfolding q by (simp add: url_decode_encode)
  next
    case (Cons c t')
    then have "str_find ''&'' (url_encode v @ t) = Some (length (url_encode v))"
      using t(2) amp str_find_skip [of "url_encode v" "''&''" t'] by (metis append_Cons append_Nil list.sel(1) list.distinct(1))
    then have "str_find_from ''&'' ?q ?stop = Some (?stop + length (url_encode v))"
      using d by (simp add: str_find_from_def)
    moreover have "substr ?q ?stop (length (url_encode v)) = url_encode v" using d by (simp add: substr_def)
    ultimately have "HttpServer_get_query_value ?q k = Some (url_decode (url_encode v))"
      unfolding HttpServer_get_query_value_def Let_def f option.case d using ne by simp
    then show ?thesis unfolding q by (simp add: url_decode_encode)
  qed
qed

lemma query_value_first:
  "key_ok k \<Longrightarrow> v \<noteq> [] \<Longrightarrow> HttpServer_get_query_value (query_string ((k, v) # post)) k = Some v"
  using query_value [of k v "[]" post] by simp

text \<open>Decoding a client's query: for a query built from parameters, \<^verbatim>\<open>get_query_value\<close> gives the value
  of the key, decoded, whatever bytes the values hold, provided that the key of no earlier
  parameter ends with it.\<close>

theorem query_value_roundtrip:
  assumes "key_ok k" and "v \<noteq> []"
    and "\<forall>(k', v') \<in> set pre. key_ok k' \<and> \<not> ends_with k k'"
  shows "HttpServer_get_query_value (query_string (pre @ (k, v) # post)) k = Some v"
  using assms by (rule query_value)

theorem query_value_roundtrip_witness:
  "HttpServer_get_query_value (query_string [(''page'', ''2''), (''search'', ''a b''), (''limit'', ''9'')]) ''search''
     = Some ''a b''"
  using query_value_roundtrip [of "''search''" "''a b''" "[(''page'', ''2'')]" "[(''limit'', ''9'')]"]
  by (simp add: key_ok_def ends_with_def)

text \<open>But keys are looked for as texts: a parameter whose key merely ends with the wanted key, and
  which comes first, is taken for it.\<close>

theorem query_key_suffix:
  assumes "key_ok (x @ k)" and "k \<noteq> []" and "v \<noteq> []"
  shows "HttpServer_get_query_value (query_string [(x @ k, v), (k, w)]) k = Some v"
proof -
  have k: "CHR ''='' \<notin> set k" "CHR ''='' \<notin> set x" using assms(1) by (auto simp: key_ok_def)
  let ?t = "''='' @ url_encode v @ ''&'' @ k @ ''='' @ url_encode w"
  have "\<not> starts_with (k @ ''='') (drop j (x @ k @ ?t))" if "j < length x" for j
  proof
    assume "starts_with (k @ ''='') (drop j (x @ k @ ?t))"
    moreover have "\<forall>c \<in> set (drop j x @ k). c \<noteq> CHR ''=''" using k by (auto dest: in_set_dropD)
    then have "takeWhile (\<lambda>c. c \<noteq> CHR ''='') ((drop j x @ k) @ ?t) = drop j x @ k"
      by (subst takeWhile_append2) auto
    ultimately have "drop j x @ k = k" using starts_with_key [OF k(1)] that by simp
    with that show False by simp
  qed
  then have "str_find (k @ ''='') (x @ k @ ?t) = map_option ((+) (length x)) (str_find (k @ ''='') (k @ ?t))"
    by (rule str_find_append_skip)
  moreover have "str_find (k @ ''='') (k @ ?t) = Some 0"
    using starts_with_append [of "k @ ''=''" "url_encode v @ ''&'' @ k @ ''='' @ url_encode w"]
    by (cases "k @ ?t") auto
  ultimately have f: "str_find (k @ ''='') (x @ k @ ?t) = Some (length x)" by simp
  let ?stop = "length x + length (k @ ''='')"
  have d: "drop ?stop (x @ k @ ?t) = url_encode v @ ''&'' @ k @ ''='' @ url_encode w" by simp
  have "CHR ''&'' \<notin> set (url_encode v)" using url_encode_plain by blast
  then have "str_find ''&'' (url_encode v @ ''&'' @ k @ ''='' @ url_encode w) = Some (length (url_encode v))"
    by (intro str_find_skip) auto
  then have "str_find_from ''&'' (x @ k @ ?t) ?stop = Some (?stop + length (url_encode v))"
    using d by (simp add: str_find_from_def)
  moreover have "substr (x @ k @ ?t) ?stop (length (url_encode v)) = url_encode v" using d by (simp add: substr_def)
  ultimately have "HttpServer_get_query_value (x @ k @ ?t) k = Some (url_decode (url_encode v))"
    unfolding HttpServer_get_query_value_def Let_def f option.case
    using assms(3) by (simp add: url_encode_Nil)
  then show ?thesis by (simp add: url_decode_encode)
qed

theorem query_key_suffix_witness:
  "HttpServer_get_query_value (query_string [(''scan_id'', ''5''), (''id'', ''7'')]) ''id'' = Some ''5''"
  using query_key_suffix [of "''scan_''" "''id''" "''5''" "''7''"] by (simp add: key_ok_def)

subsection \<open>Numbers\<close>

definition HttpServer_parse_id :: "string \<Rightarrow> u64 option" where
  "HttpServer_parse_id id_str =
     (let l = atoll id_str in if l \<le> 0 then None else Some (word_of_int l))"

definition INT_MAX :: int where
  "INT_MAX = 2 ^ 31 - 1"

definition HttpServer_parse_int :: "string \<Rightarrow> int option" where
  "HttpServer_parse_int str =
     (let l = atoll str in if l \<le> 0 then None else Some (if INT_MAX < l then INT_MAX else l))"

definition parse_ids :: "string \<Rightarrow> u64 list" where
  "parse_ids ids_str = List.map_filter HttpServer_parse_id (getline_tokens (CHR '','') [] ids_str)"

lemma parse_id_to_string:
  "0 < n \<Longrightarrow> n < 2 ^ 63 \<Longrightarrow> HttpServer_parse_id (to_string_nat n) = Some (of_nat n)"
  by (simp add: HttpServer_parse_id_def atoll_to_string Let_def)

text \<open>The list of ids that a client joins with commas.\<close>

fun join_ids :: "nat list \<Rightarrow> string" where
  "join_ids [] = []"
| "join_ids [n] = to_string_nat n"
| "join_ids (n # ns) = to_string_nat n @ '','' @ join_ids ns"

lemma getline_join: "getline_tokens (CHR '','') [] (join_ids ns) = map to_string_nat ns"
proof (induction ns rule: join_ids.induct)
  case (2 n)
  have "CHR '','' \<notin> set (to_string_nat n)"
    using to_string_digits [of n] is_digit_not by (auto simp: list_all_iff)
  then show ?case using getline_last [of "CHR '',''" "to_string_nat n" "[]"] to_string_digits [of n] by simp
next
  case (3 n m ns)
  have "CHR '','' \<notin> set (to_string_nat n)"
    using to_string_digits [of n] is_digit_not by (auto simp: list_all_iff)
  with 3 show ?case using getline_token [of "CHR '',''" "to_string_nat n" "[]" "join_ids (m # ns)"] by simp
qed simp

lemma parse_ids_join:
  assumes "\<forall>n \<in> set ns. 0 < n \<and> n < 2 ^ 63"
  shows "parse_ids (join_ids ns) = map of_nat ns"
proof -
  have "List.map_filter HttpServer_parse_id (map to_string_nat ns) = map of_nat ns"
    using assms by (induction ns) (simp_all add: List.map_filter_simps parse_id_to_string)
  then show ?thesis by (simp add: parse_ids_def getline_join)
qed

text \<open>Ids make the round trip: for ids a client prints in decimal, joins with commas and encodes as the
  value of \<^verbatim>\<open>id\<close>, the server reads exactly these ids, in order.\<close>

theorem ids_roundtrip:
  assumes "\<forall>n \<in> set ns. 0 < n \<and> n < 2 ^ 63" and "ns \<noteq> []"
  shows "map_option parse_ids (HttpServer_get_query_value (query_string [(''id'', join_ids ns)]) ''id'')
    = Some (map of_nat ns)"
proof -
  have "join_ids ns \<noteq> []"
    using assms(2) to_string_digits by (cases ns rule: join_ids.cases) auto
  then have "HttpServer_get_query_value (query_string [(''id'', join_ids ns)]) ''id'' = Some (join_ids ns)"
    by (intro query_value_first) (simp_all add: key_ok_def)
  then show ?thesis using parse_ids_join [OF assms(1)] by simp
qed

theorem ids_roundtrip_witness:
  "map_option parse_ids (HttpServer_get_query_value (query_string [(''id'', join_ids [1, 23, 4])]) ''id'')
    = Some [1, 23, 4]"
  using ids_roundtrip [of "[1, 23, 4]"] by simp

text \<open>The numbers are bounded whatever the client sends: an id lies in 1 to the largest signed 64-bit
  number, a page or limit in 1 to \<^verbatim>\<open>INT_MAX\<close>; a text without a positive number is refused.\<close>

theorem parsed_numbers_bounded:
  "(case HttpServer_parse_id s of None \<Rightarrow> atoll s \<le> 0
      | Some i \<Rightarrow> 0 < sint i \<and> sint i = atoll s)
   \<and> (case HttpServer_parse_int s of None \<Rightarrow> atoll s \<le> 0
      | Some n \<Rightarrow> 0 < n \<and> n < 2 ^ 31 \<and> n = min (atoll s) INT_MAX)"
proof -
  note b = atoll_bound [of s]
  have "sint (word_of_int (atoll s) :: u64) = atoll s" if "0 < atoll s"
    using that b by (simp add: sint_sbintrunc' signed_take_bit_int_eq_self)
  with b show ?thesis
    by (auto simp: HttpServer_parse_id_def HttpServer_parse_int_def Let_def INT_MAX_def)
qed

end
