(* ===== verification/Metrics.thy ===== *)
theory Metrics
  imports FS_Prelude
begin

section \<open>Metrics (src/utils/metrics.h)\<close>

text \<open>
  The counters that the subsystems update and that the metrics page and the end of the daemon
  read. In the models of the subsystems each counter is a field of its own component; here they
  are one record, as in the source. \<^verbatim>\<open>std::atomic<int>\<close> is \<^typ>\<open>i32\<close>.
\<close>

record metrics =
  const_scan_max_concurrent_number :: u64
  const_scan_pending_queue_size :: u64
  scan_running :: i32
  scan_pending :: u64
  const_scan_job_pool_num_threads :: u64
  const_scan_job_queue_size :: u64
  scan_jobs_unfinished :: i32
  scan_jobs_submitted :: u64
  scan_jobs_enqueue_reject :: u64
  scan_jobs_queued :: u64
  const_request_pool_num_threads :: u64
  const_request_queue_size :: u64
  request_jobs_submitted :: u64
  request_jobs_failed :: u64
  request_jobs_queued :: u64
  const_export_que_size :: u64
  export_pending :: u64
  export_running :: i32
  export_finished :: u64
  export_finalizing_running :: u64
  export_finalizing_done :: u64
  const_logger_pending_queue_size :: u64
  logger_pending :: u64
  logger_finished :: u64
  logger_fallback :: u64

definition Metrics_init :: metrics where
  "Metrics_init = \<lparr>
     const_scan_max_concurrent_number = 0, const_scan_pending_queue_size = 0,
     scan_running = 0, scan_pending = 0,
     const_scan_job_pool_num_threads = 0, const_scan_job_queue_size = 0,
     scan_jobs_unfinished = 0, scan_jobs_submitted = 0, scan_jobs_enqueue_reject = 0,
     scan_jobs_queued = 0,
     const_request_pool_num_threads = 0, const_request_queue_size = 0,
     request_jobs_submitted = 0, request_jobs_failed = 0, request_jobs_queued = 0,
     const_export_que_size = 0,
     export_pending = 0, export_running = 0, export_finished = 0,
     export_finalizing_running = 0, export_finalizing_done = 0,
     const_logger_pending_queue_size = 0,
     logger_pending = 0, logger_finished = 0, logger_fallback = 0\<rparr>"

text \<open>\<^verbatim>\<open>reset\<close>: it sets all counters but the two of the finalisation.\<close>

definition Metrics_reset :: "metrics \<Rightarrow> metrics" where
  "Metrics_reset m = m\<lparr>
     const_scan_max_concurrent_number := 0, const_scan_pending_queue_size := 0,
     scan_running := 0, scan_pending := 0,
     const_scan_job_pool_num_threads := 0, const_scan_job_queue_size := 0,
     scan_jobs_unfinished := 0, scan_jobs_submitted := 0, scan_jobs_enqueue_reject := 0,
     scan_jobs_queued := 0,
     const_request_pool_num_threads := 0, const_request_queue_size := 0,
     request_jobs_submitted := 0, request_jobs_failed := 0, request_jobs_queued := 0,
     export_pending := 0, export_running := 0, export_finished := 0,
     const_logger_pending_queue_size := 0,
     logger_pending := 0, logger_finished := 0, logger_fallback := 0\<rparr>"

text \<open>The condition of the daemon's drain loop.\<close>

definition metrics_drained :: "metrics \<Rightarrow> bool" where
  "metrics_drained m \<longleftrightarrow> scan_running m = 0 \<and> scan_pending m = 0 \<and> scan_jobs_unfinished m = 0
     \<and> export_pending m = 0 \<and> export_running m = 0 \<and> export_finalizing_running m = 0"

end
