(* ===== verification/Http_Server.thy ===== *)
theory Http_Server
  imports Http_Request Metrics Manager Export_Manager Index_Reader Scheduler
begin

section \<open>HttpServer: routing and responses (src/daemon\_system/httpserver.cpp)\<close>

text \<open>
  A handler gives a \<open>handler_result\<close>: a response it has written itself (in the code it then
  returns 0), or a status code for \<^verbatim>\<open>handle_request\<close> to answer with. Each handler is run here
  without interference; what it calls is the model of that component.
\<close>

record response =
  rs_status :: nat
  rs_content_type :: string
  rs_body :: string

datatype handler_result = Written response | Code nat

subsection \<open>Writing a response\<close>

definition status_message :: "nat \<Rightarrow> string" where
  "status_message c =
     (if c = 200 then ''OK'' else if c = 204 then ''No Content''
      else if c = 400 then ''Bad Request'' else if c = 404 then ''Not Found''
      else if c = 409 then ''Conflict'' else if c = 429 then ''Server busy''
      else if c = 500 then ''Internal Server Error'' else if c = 503 then ''Service Unavailable''
      else ''Internal Server Error'')"

definition crlf :: string where
  "crlf = [CHR 0x0D, CHR 0x0A]"

text \<open>The three texts that \<^verbatim>\<open>write_response\<close> sends one after the other (the body only if there is
  one; an empty text sends nothing).\<close>

definition HttpServer_write_response :: "response \<Rightarrow> string list" where
  "HttpServer_write_response r =
     [''HTTP/1.1 '' @ to_string_nat (rs_status r) @ '' '' @ status_message (rs_status r) @ crlf,
      ''Content-Type: '' @ rs_content_type r @ crlf
        @ ''Content-Length: '' @ to_string_nat (length (rs_body r)) @ crlf
        @ ''Connection: close'' @ crlf @ crlf,
      rs_body r]"

text \<open>
  \<^verbatim>\<open>write_no_sigpipe\<close>: \<open>answers\<close> are the results of the successive \<^verbatim>\<open>::send\<close> calls, \<open>sent\<close> the bytes
  sent so far. The result is the return value with the bytes that went out; \<^term>\<open>None\<close> if the loop
  wants to call once more than there are answers.
\<close>

datatype send_result = Sent nat | Interrupted | Send_error

fun HttpServer_write_no_sigpipe ::
    "send_result list \<Rightarrow> string \<Rightarrow> nat \<Rightarrow> (bool \<times> string) option" where
  "HttpServer_write_no_sigpipe [] data sent =
     (if sent < length data then None else Some (True, []))"
| "HttpServer_write_no_sigpipe (a # answers) data sent =
     (if sent < length data then
        (case a of
           Sent n \<Rightarrow>
             (if 0 < n
              then map_option (\<lambda>(b, out). (b, take n (drop sent data) @ out))
                     (HttpServer_write_no_sigpipe answers data (sent + n))
              else Some (False, []))
         | Interrupted \<Rightarrow> HttpServer_write_no_sigpipe answers data sent
         | Send_error \<Rightarrow> Some (False, []))
      else Some (True, []))"

lemma write_no_sigpipe_sends:
  "HttpServer_write_no_sigpipe answers data sent = Some (b, out) \<Longrightarrow>
   (\<exists>rest. drop sent data = out @ rest) \<and> (b \<longrightarrow> out = drop sent data)"
proof (induction answers data sent arbitrary: b out rule: HttpServer_write_no_sigpipe.induct)
  case (1 data sent)
  then show ?case by (auto split: if_splits)
next
  case (2 a answers data sent)
  show ?case
  proof (cases "sent < length data")
    case False
    with 2 show ?thesis by auto
  next
    case True
    show ?thesis
    proof (cases a)
      case (Sent n)
      show ?thesis
      proof (cases "0 < n")
        case True
        with 2 \<open>sent < length data\<close> Sent obtain out' where
            o: "HttpServer_write_no_sigpipe answers data (sent + n) = Some (b, out')"
               "out = take n (drop sent data) @ out'" by auto
        have "drop sent data = take n (drop sent data) @ drop (sent + n) data"
          by (simp add: add.commute flip: drop_drop)
        with 2(1) [OF \<open>sent < length data\<close> Sent True o(1)] o(2) show ?thesis by (metis append.assoc)
      qed (use 2 \<open>sent < length data\<close> Sent in auto)
    qed (use 2 \<open>sent < length data\<close> in auto)
  qed
qed

text \<open>A write that reports success has sent the whole text, one that fails a prefix of it, whatever the
  socket does: partial sends, interruptions, errors.\<close>

theorem write_no_sigpipe_complete:
  assumes "HttpServer_write_no_sigpipe answers data 0 = Some (ok, out)"
  shows "starts_with out data \<and> (ok \<longrightarrow> out = data)"
  using write_no_sigpipe_sends [OF assms] by (auto simp: starts_with_iff)

theorem write_no_sigpipe_complete_witness:
  "HttpServer_write_no_sigpipe [Sent 2, Interrupted, Sent 3] ''hello'' 0 = Some (True, ''hello'')
   \<and> starts_with ''hello'' ''hello''"
  using write_no_sigpipe_complete [of "[Sent 2, Interrupted, Sent 3]" "''hello''" True "''hello''"] by simp

subsection \<open>Routing\<close>

datatype route =
    Refuse_with nat
  | Homepage
  | Post_shutdown
  | Get_metrics
  | Get_download_time
  | Post_scan string
  | Post_cancel string
  | Get_scans_history string
  | Get_state string
  | Get_exporting string
  | Get_scan_diff_summary string
  | Get_scan_diff_detail string
  | Get_index_detail string
  | Get_index_summary_extension
  | Get_index_summary_folder

definition rq_is :: "string \<Rightarrow> string \<Rightarrow> request_content \<Rightarrow> bool" where
  "rq_is m prefix r \<longleftrightarrow> rq_method r = m \<and> starts_with prefix (rq_path r)"

definition HttpServer_drain_allow :: "request_content \<Rightarrow> bool" where
  "HttpServer_drain_allow r \<longleftrightarrow>
     rq_method r = ''GET'' \<and> rq_path r = ''/''
     \<or> rq_is ''GET'' ''/metrics'' r \<or> rq_is ''GET'' ''/state'' r \<or> rq_is ''GET'' ''/exporting'' r
     \<or> rq_is ''GET'' ''/scan_diff_summary'' r \<or> rq_is ''GET'' ''/scan_diff_detail'' r
     \<or> rq_is ''GET'' ''/index_detail'' r \<or> rq_is ''GET'' ''/index_summary'' r"

definition HttpServer_router :: "bool \<Rightarrow> request_content \<Rightarrow> route" where
  "HttpServer_router in_drain r =
     (if in_drain \<and> \<not> HttpServer_drain_allow r then Refuse_with 503
      else if rq_method r = ''GET'' \<and> rq_path r = ''/'' then Homepage
      else if rq_is ''POST'' ''/shutdown'' r then Post_shutdown
      else if rq_is ''GET'' ''/metrics'' r then Get_metrics
      else if rq_is ''GET'' ''/download_time'' r then Get_download_time
      else case str_find ''?'' (rq_path r) of
        None \<Rightarrow> Refuse_with 400
      | Some ques_pos \<Rightarrow>
          (let queries = drop (ques_pos + 1) (rq_path r) in
           if queries = [] then Refuse_with 400
           else if rq_is ''POST'' ''/scan'' r then Post_scan queries
           else if rq_is ''POST'' ''/cancel'' r then Post_cancel queries
           else if rq_is ''GET'' ''/scans_history'' r then Get_scans_history queries
           else if rq_is ''GET'' ''/state'' r then Get_state queries
           else if rq_is ''GET'' ''/exporting'' r then Get_exporting queries
           else if rq_is ''GET'' ''/scan_diff_summary'' r then Get_scan_diff_summary queries
           else if rq_is ''GET'' ''/scan_diff_detail'' r then Get_scan_diff_detail queries
           else if rq_is ''GET'' ''/index_detail'' r then Get_index_detail queries
           else if rq_is ''GET'' ''/index_summary'' r then
             (case HttpServer_get_query_value queries ''type'' of
                None \<Rightarrow> Refuse_with 400
              | Some summary_type \<Rightarrow>
                  if summary_type = ''extension'' then Get_index_summary_extension
                  else if summary_type = ''folder'' then Get_index_summary_folder
                  else Refuse_with 400)
           else Refuse_with 404))"

fun route_changes :: "route \<Rightarrow> bool" where
  "route_changes Post_shutdown = True"
| "route_changes (Post_scan q) = True"
| "route_changes (Post_cancel q) = True"
| "route_changes _ = False"

lemma router_changes_post:
  "route_changes (HttpServer_router d r) \<Longrightarrow> rq_method r = ''POST''"
  by (auto simp: HttpServer_router_def rq_is_def Let_def split: if_splits option.splits)

lemma drain_allow_get: "HttpServer_drain_allow r \<Longrightarrow> rq_method r = ''GET''"
  by (auto simp: HttpServer_drain_allow_def rq_is_def)

text \<open>While the daemon drains, the server takes no request that would change it: no scan, no
  cancellation, no shutdown. What it still serves it routes as before, the rest it answers 503.\<close>

theorem router_drain:
  "\<not> route_changes (HttpServer_router True r)
   \<and> HttpServer_router True r \<in> {HttpServer_router False r, Refuse_with 503}"
proof -
  have "\<not> route_changes (HttpServer_router True r)"
  proof (cases "HttpServer_drain_allow r")
    case True
    then show ?thesis using drain_allow_get router_changes_post [of True r] by auto
  next
    case False
    then show ?thesis by (simp add: HttpServer_router_def)
  qed
  moreover have "HttpServer_router True r \<in> {HttpServer_router False r, Refuse_with 503}"
    by (cases "HttpServer_drain_allow r") (simp_all add: HttpServer_router_def)
  ultimately show ?thesis by blast
qed

end
