(* ===== verification/Os_Info.thy ===== *)
theory Os_Info
  imports FS_Prelude
begin

section \<open>os\_info (src/utils/os\_info.h)\<close>

text \<open>
  The size of the disk that the summary pages show. The text of \<^verbatim>\<open>/proc/version\<close> (empty if it cannot be
  read) and \<^verbatim>\<open>statvfs\<close> are parameters; the products are taken in 64 bits.
\<close>

record disk_info =
  capacity_bytes :: u64
  free_bytes :: u64
  available_bytes :: u64

definition DiskInfo_init :: disk_info where
  "DiskInfo_init = \<lparr>capacity_bytes = 0, free_bytes = 0, available_bytes = 0\<rparr>"

record vfs_stat =
  f_frsize :: u64
  f_blocks :: u64
  f_bfree :: u64
  f_bavail :: u64

definition is_wsl :: "string \<Rightarrow> bool" where
  "is_wsl version = (str_find ''microsoft'' version \<noteq> None \<or> str_find ''Microsoft'' version \<noteq> None)"

definition get_disk_info_linux ::
    "string \<Rightarrow> (string \<Rightarrow> vfs_stat option) \<Rightarrow> string \<Rightarrow> disk_info \<Rightarrow> bool \<times> disk_info" where
  "get_disk_info_linux version statvfs path info =
     (let effective_path = (if is_wsl version then ''/mnt/c'' else path) in
      case statvfs effective_path of
        None \<Rightarrow> (False, info)
      | Some st \<Rightarrow>
          (let block_size = f_frsize st in
           (True, info\<lparr>capacity_bytes := block_size * f_blocks st, free_bytes := block_size * f_bfree st,
              available_bytes := block_size * f_bavail st\<rparr>)))"

text \<open>The numbers are ordered as those of the file system are, as long as the capacity fits.\<close>

lemma disk_info_ordered:
  assumes "get_disk_info_linux version (\<lambda>p. Some st) path info = (True, d)"
    and "unat (f_frsize st) * unat (f_blocks st) < 2 ^ 64" "f_bavail st \<le> f_bfree st" "f_bfree st \<le> f_blocks st"
  shows "available_bytes d \<le> free_bytes d \<and> free_bytes d \<le> capacity_bytes d
    \<and> unat (capacity_bytes d) = unat (f_frsize st) * unat (f_blocks st)"
proof -
  have le: "unat (f_bavail st) \<le> unat (f_bfree st)" "unat (f_bfree st) \<le> unat (f_blocks st)"
    using assms(3,4) by (simp_all add: word_le_nat_alt)
  have exact: "unat (f_frsize st * n) = unat (f_frsize st) * unat n" if "unat n \<le> unat (f_blocks st)" for n
    using le_less_trans [OF mult_le_mono2 [OF that] assms(2)] by (simp add: unat_mult_lem [THEN iffD1])
  show ?thesis
    using assms(1) le exact [of "f_blocks st"] exact [of "f_bfree st"] exact [of "f_bavail st"]
    by (auto simp: get_disk_info_linux_def Let_def word_le_nat_alt)
qed

end
