(* ===== verification/Http_Handlers.thy ===== *)
theory Http_Handlers
  imports Http_Server Os_Info
begin

section \<open>HttpServer: the response handlers (src/daemon\_system/httpserver.cpp, daemon.cpp)\<close>

text \<open>
  The state that requests work on is that of the daemon: the scheduler, the scan manager, the
  exporter with its database, the metrics and the two flags. What lies outside (\<^verbatim>\<open>realpath\<close>, SQLite's
  \<^verbatim>\<open>GLOB\<close> and \<^verbatim>\<open>LIKE\<close>, the page file, \<^verbatim>\<open>/proc/version\<close>, \<^verbatim>\<open>statvfs\<close>) is an environment.
\<close>

record http_env =
  he_realpath :: "string \<Rightarrow> string option"
  he_glob :: "string \<Rightarrow> string \<Rightarrow> bool"
  he_like :: "string \<Rightarrow> string \<Rightarrow> bool"
  he_file :: "string \<Rightarrow> string option"
  he_proc_version :: string
  he_statvfs :: "string \<Rightarrow> vfs_stat option"

record daemon =
  dm_scheduler :: scheduler
  dm_manager :: manager
  dm_export :: export_manager
  dm_metrics :: metrics
  dm_shutdown_flag :: bool
  dm_drain_flag :: bool
  dm_user_download_sec :: u16
  dm_frontend_path :: string
  dm_system_start_time :: i64

definition json_response :: "nat \<Rightarrow> string \<Rightarrow> handler_result" where
  "json_response c body = Written \<lparr>rs_status = c, rs_content_type = ''application/json'', rs_body = body\<rparr>"

definition html_response :: "nat \<Rightarrow> string \<Rightarrow> handler_result" where
  "html_response c body = Written \<lparr>rs_status = c, rs_content_type = ''text/html'', rs_body = body\<rparr>"

definition to_string_u64 :: "u64 \<Rightarrow> string" where
  "to_string_u64 w = to_string_nat (unat w)"

text \<open>The loops that join items with commas.\<close>

fun comma_join :: "string list \<Rightarrow> string" where
  "comma_join [] = []"
| "comma_join [x] = x"
| "comma_join (x # xs) = x @ '','' @ comma_join xs"

subsection \<open>Daemon\<close>

definition Daemon_submit_scan ::
    "http_env \<Rightarrow> string \<Rightarrow> daemon \<Rightarrow> submit_scan_result \<times> u64 \<times> daemon" where
  "Daemon_submit_scan env root s =
     (case Scheduler_submit_scan_root (he_realpath env) root (dm_scheduler s) of (r, i, sc) \<Rightarrow>
        (r, i, s\<lparr>dm_scheduler := sc\<rparr>))"

definition Daemon_get_state :: "u64 list \<Rightarrow> daemon \<Rightarrow> request_state list" where
  "Daemon_get_state scan_ids s = Scheduler_get_state scan_ids (dm_scheduler s)"

definition Daemon_check_exported :: "u64 list \<Rightarrow> daemon \<Rightarrow> bool list" where
  "Daemon_check_exported scan_ids s = ExportManager_check_exported scan_ids (dm_export s)"

text \<open>\<^verbatim>\<open>Scheduler::cancel\<close> calls \<^verbatim>\<open>manager.cancel_scan\<close> after its section.\<close>

definition Daemon_cancel_scan :: "u64 \<Rightarrow> daemon \<Rightarrow> bool \<times> daemon" where
  "Daemon_cancel_scan i s =
     (case Scheduler_cancel i (dm_scheduler s) of (was_canceled, running_removed, sc) \<Rightarrow>
        (was_canceled, s\<lparr>dm_scheduler := sc,
           dm_manager := (if running_removed then snd (Manager_cancel_scan i (dm_manager s))
                          else dm_manager s)\<rparr>))"

definition Daemon_shutdown :: "daemon \<Rightarrow> daemon" where
  "Daemon_shutdown s = s\<lparr>dm_shutdown_flag := True\<rparr>"

subsection \<open>Operations\<close>

text \<open>\<^verbatim>\<open>he_file\<close> is what \<^verbatim>\<open>std::ifstream\<close> finds under a path.\<close>

definition HttpServer_serve_page :: "http_env \<Rightarrow> string \<Rightarrow> string option" where
  "HttpServer_serve_page env file_path =
     (case he_file env file_path of None \<Rightarrow> None | Some content \<Rightarrow> Some content)"

definition HttpServer_response_homepage :: "http_env \<Rightarrow> daemon \<Rightarrow> handler_result" where
  "HttpServer_response_homepage env s =
     (case HttpServer_serve_page env (dm_frontend_path s) of
        None \<Rightarrow> Code 404
      | Some body \<Rightarrow> html_response 200 body)"

definition HttpServer_response_download_time :: "daemon \<Rightarrow> handler_result" where
  "HttpServer_response_download_time s =
     json_response 200 (''{\"user_download_sec\":'' @ to_string_nat (unat (dm_user_download_sec s)) @ ''}'')"

definition HttpServer_response_shutdown :: "daemon \<Rightarrow> handler_result \<times> daemon" where
  "HttpServer_response_shutdown s = (Code 200, Daemon_shutdown s)"

definition HttpServer_response_scan ::
    "http_env \<Rightarrow> string \<Rightarrow> daemon \<Rightarrow> handler_result \<times> daemon" where
  "HttpServer_response_scan env queries s =
     (case HttpServer_get_query_value queries ''root'' of
        None \<Rightarrow> (json_response 400 ''{\"error\": \"Empty scan path\" }'', s)
      | Some root \<Rightarrow>
          (case Daemon_submit_scan env root s of (r, i, s1) \<Rightarrow>
             (case r of
                Ok \<Rightarrow> (json_response 200 (''{\"id\":'' @ to_string_u64 i @ ''}''), s1)
              | Invalid \<Rightarrow> (json_response 400 ''{\"error\": \"No such file or directory\" }'', s1)
              | QueueFull \<Rightarrow> (json_response 429 ''{\"error\": \"Server busy, please submit later\" }'', s1)
              | ScanShutdown \<Rightarrow> (Code 503, s1)
              | InternalError \<Rightarrow> (Code 500, s1)
              | OverlapConflict \<Rightarrow> (Code 409, s1))))"

definition HttpServer_response_cancel :: "string \<Rightarrow> daemon \<Rightarrow> handler_result \<times> daemon" where
  "HttpServer_response_cancel queries s =
     (case HttpServer_get_query_value queries ''id'' of
        None \<Rightarrow> (Code 400, s)
      | Some id_str \<Rightarrow>
          (case HttpServer_parse_id id_str of
             None \<Rightarrow> (Code 400, s)
           | Some i \<Rightarrow>
               (case Daemon_cancel_scan i s of (ok, s1) \<Rightarrow> (Code (if ok then 200 else 409), s1))))"

definition metrics_item :: "string \<Rightarrow> string \<Rightarrow> string" where
  "metrics_item name value = ''\"'' @ name @ ''\":'' @ value"

definition to_string_i32 :: "i32 \<Rightarrow> string" where
  "to_string_i32 w = to_string (sint w)"

definition HttpServer_response_metrics :: "daemon \<Rightarrow> handler_result" where
  "HttpServer_response_metrics s =
     (let m = dm_metrics s in
      json_response 200 (''{'' @ comma_join
        [metrics_item ''const_scan_max_concurrent_number'' (to_string_u64 (const_scan_max_concurrent_number m)),
         metrics_item ''const_scan_pending_queue_size'' (to_string_u64 (const_scan_pending_queue_size m)),
         metrics_item ''scan_running'' (to_string_i32 (scan_running m)),
         metrics_item ''scan_pending'' (to_string_u64 (scan_pending m)),
         metrics_item ''const_scan_job_pool_num_threads'' (to_string_u64 (const_scan_job_pool_num_threads m)),
         metrics_item ''const_scan_job_queue_size'' (to_string_u64 (const_scan_job_queue_size m)),
         metrics_item ''const_request_pool_num_threads'' (to_string_u64 (const_request_pool_num_threads m)),
         metrics_item ''const_request_queue_size'' (to_string_u64 (const_request_queue_size m)),
         metrics_item ''const_export_que_size'' (to_string_u64 (const_export_que_size m)),
         metrics_item ''const_logger_pending_queue_size'' (to_string_u64 (const_logger_pending_queue_size m)),
         metrics_item ''scan_jobs_unfinished'' (to_string_i32 (scan_jobs_unfinished m)),
         metrics_item ''scan_jobs_submitted'' (to_string_u64 (scan_jobs_submitted m)),
         metrics_item ''scan_jobs_enqueue_reject'' (to_string_u64 (scan_jobs_enqueue_reject m)),
         metrics_item ''scan_jobs_queued'' (to_string_u64 (scan_jobs_queued m)),
         metrics_item ''request_jobs_submitted'' (to_string_u64 (request_jobs_submitted m)),
         metrics_item ''request_jobs_failed'' (to_string_u64 (request_jobs_failed m)),
         metrics_item ''request_jobs_queued'' (to_string_u64 (request_jobs_queued m)),
         metrics_item ''export_pending'' (to_string_u64 (export_pending m)),
         metrics_item ''export_running'' (to_string_i32 (export_running m)),
         metrics_item ''export_finished'' (to_string_u64 (export_finished m)),
         metrics_item ''export_finalizing_running'' (to_string_u64 (export_finalizing_running m)),
         metrics_item ''export_finalizing_done'' (to_string_u64 (export_finalizing_done m)),
         metrics_item ''logger_pending'' (to_string_u64 (logger_pending m)),
         metrics_item ''logger_finished'' (to_string_u64 (logger_finished m)),
         metrics_item ''logger_fallback'' (to_string_u64 (logger_fallback m)),
         metrics_item ''system_start_time'' (to_string (sint (dm_system_start_time s)))] @ ''}''))"

subsection \<open>States\<close>

definition state_name :: "request_state \<Rightarrow> string" where
  "state_name st = [''PENDING'', ''DROPPED'', ''RUNNING'', ''CANCELED'', ''DONE'', ''FAILED'', ''PENDING'']
     ! request_state_code st"

definition HttpServer_response_state :: "string \<Rightarrow> daemon \<Rightarrow> handler_result" where
  "HttpServer_response_state queries s =
     (case HttpServer_get_query_value queries ''id'' of
        None \<Rightarrow> Code 400
      | Some ids_str \<Rightarrow>
          (let ids = parse_ids ids_str; states = Daemon_get_state ids s in
           json_response 200 (''['' @ comma_join (map (\<lambda>(i, st).
             ''{\"id\":'' @ to_string_u64 i @ '',\"state\":\"'' @ state_name st @ ''\"}'') (zip ids states)) @ '']'')))"

definition HttpServer_response_exporting :: "string \<Rightarrow> daemon \<Rightarrow> handler_result" where
  "HttpServer_response_exporting queries s =
     (case HttpServer_get_query_value queries ''id'' of
        None \<Rightarrow> Code 400
      | Some ids_str \<Rightarrow>
          (let ids = parse_ids ids_str; results = Daemon_check_exported ids s in
           json_response 200 (''['' @ comma_join (map (\<lambda>(i, done).
             ''{\"id\":'' @ to_string_u64 i @ '',\"export_state\":\"''
               @ (if \<not> done then ''Exporting'' else ''Exported'') @ ''\"}'') (zip ids results)) @ '']'')))"

subsection \<open>Results\<close>

text \<open>\<^verbatim>\<open>(page - 1) * limit\<close> as an \<^verbatim>\<open>int\<close>. The product may not fit; the standard leaves that undefined, and
  here it wraps, as the multiplication of the machine does.\<close>

definition page_offset :: "int \<Rightarrow> int \<Rightarrow> int" where
  "page_offset page limit = sint (word_of_int ((page - 1) * limit) :: i32)"

text \<open>The two parameters of a page.\<close>

definition query_page :: "string \<Rightarrow> (int \<times> int) option" where
  "query_page queries =
     (case HttpServer_get_query_value queries ''page'' of
        None \<Rightarrow> None
      | Some page_str \<Rightarrow>
          (case HttpServer_parse_int page_str of
             None \<Rightarrow> None
           | Some page \<Rightarrow>
               (case HttpServer_get_query_value queries ''limit'' of
                  None \<Rightarrow> None
                | Some limit_str \<Rightarrow> map_option (Pair page) (HttpServer_parse_int limit_str))))"

definition history_item :: "scan_task_row \<Rightarrow> string" where
  "history_item row =
     ''{\"scan_id\":'' @ to_string_u64 (st_scan_id row) @ '',\"submit_root\":\"'' @ st_submit_root row
       @ ''\",\"start_time\":'' @ to_string_u64 (st_start_time row)
       @ '',\"finish_time\":'' @ to_string_u64 (st_finish_time row)
       @ '',\"end_state\":\"'' @ state_name (st_end_state row) @ ''\"}''"

definition HttpServer_response_scans_history :: "string \<Rightarrow> daemon \<Rightarrow> handler_result" where
  "HttpServer_response_scans_history queries s =
     (case query_page queries of
        None \<Rightarrow> Code 400
      | Some (page, limit) \<Rightarrow>
          json_response 200 (''{\"items\":['' @ comma_join (map history_item
            (ScanTable_get_all limit (page_offset page limit) (ex_db (dm_export s)))) @ '']}''))"

text \<open>\<^verbatim>\<open>sqlite3_column_int\<close> and \<^verbatim>\<open>sqlite3_column_int64\<close> of a count; \<^verbatim>\<open>NULL\<close> reads as 0.\<close>

definition column_int :: "int option \<Rightarrow> int" where
  "column_int v = (case v of None \<Rightarrow> 0 | Some n \<Rightarrow> sint (word_of_int n :: i32))"

definition column_int64 :: "int option \<Rightarrow> u64" where
  "column_int64 v = (case v of None \<Rightarrow> 0 | Some n \<Rightarrow> word_of_int n)"

definition HttpServer_response_scan_diff_summary :: "string \<Rightarrow> daemon \<Rightarrow> handler_result" where
  "HttpServer_response_scan_diff_summary queries s =
     (case HttpServer_get_query_value queries ''id'' of
        None \<Rightarrow> Code 400
      | Some id_str \<Rightarrow>
          (case HttpServer_parse_id id_str of
             None \<Rightarrow> Code 400
           | Some i \<Rightarrow>
               if \<not> hd (Daemon_check_exported [i] s) then Code 500
               else let db = ex_db (dm_export s);
                        empty = \<lparr>te_row = \<lparr>st_scan_id = 0, st_start_time = 0, st_finish_time = 0,
                                   st_submit_root = [], st_end_state = PENDING\<rparr>,
                                 te_dir_count = None, te_file_count = None, te_link_count = None,
                                 te_total_size = None\<rparr>;
                        data = (case ScanTable_get_data i db of None \<Rightarrow> empty | Some t \<Rightarrow> t);
                        cnt = ScanDiff_get_scan_diff_count i db
                    in json_response 200
                      (''{\"id\":'' @ to_string_u64 i
                       @ '',\"root\":\"'' @ st_submit_root (te_row data)
                       @ ''\",\"start_time\":'' @ to_string_u64 (st_start_time (te_row data))
                       @ '',\"elapsed_time\":'' @ to_string_u64 (st_finish_time (te_row data) - st_start_time (te_row data))
                       @ '',\"file_count\":'' @ to_string (column_int (te_file_count data))
                       @ '',\"dir_count\":'' @ to_string (column_int (te_dir_count data))
                       @ '',\"link_count\":'' @ to_string (column_int (te_link_count data))
                       @ '',\"total_size\":'' @ to_string_u64 (column_int64 (te_total_size data))
                       @ '',\"new\":'' @ to_string_nat (cnt ! 0) @ '',\"changed\":'' @ to_string_nat (cnt ! 4)
                       @ '',\"deleted\":'' @ to_string_nat (cnt ! 2) @ '',\"error\":'' @ to_string_nat (cnt ! 1)
                       @ '',\"canceled\":'' @ to_string_nat (cnt ! 3) @ ''}'')))"

definition state_filter_of :: "string \<Rightarrow> scan_state option" where
  "state_filter_of state_str =
     (if state_str = ''NEW'' then Some New else if state_str = ''ERROR'' then Some Scan_Error
      else if state_str = ''DELETED'' then Some Scan_Deleted
      else if state_str = ''CANCELED'' then Some Scan_Canceled
      else if state_str = ''CHANGED'' then Some Changed else None)"

definition diff_item :: "diff_row \<times> history_row \<Rightarrow> string" where
  "diff_item r =
     ''{\"state\":'' @ to_string_nat (scan_state_code (dr_state (fst r)))
       @ '',\"path\":\"'' @ hr_path (snd r) @ ''\",\"size\":'' @ to_string_u64 (hr_msize (snd r))
       @ '',\"old_size\":'' @ to_string_u64 (dr_old_size (fst r)) @ ''}''"

definition HttpServer_response_scan_diff_detail :: "string \<Rightarrow> daemon \<Rightarrow> handler_result" where
  "HttpServer_response_scan_diff_detail queries s =
     (case HttpServer_get_query_value queries ''id'' of
        None \<Rightarrow> Code 400
      | Some id_str \<Rightarrow>
          (case HttpServer_parse_id id_str of
             None \<Rightarrow> Code 400
           | Some i \<Rightarrow>
               (case query_page queries of
                  None \<Rightarrow> Code 400
                | Some (page, limit) \<Rightarrow>
                    let state_str = (case HttpServer_get_query_value queries ''state'' of
                                       None \<Rightarrow> ''ALL'' | Some v \<Rightarrow> v) in
                    if \<not> hd (Daemon_check_exported [i] s) then Code 500
                    else json_response 200 (''{\"items\":['' @ comma_join (map diff_item
                      (ScanDiff_get_scan_diff_detail i (state_filter_of state_str) limit
                        (page_offset page limit) (ex_db (dm_export s)))) @ '']}''))))"

definition index_item :: "current_row \<Rightarrow> string" where
  "index_item row =
     ''{\"path\":\"'' @ cr_path row @ ''\",\"size\":'' @ to_string_u64 (cr_msize row)
       @ '',\"modtime\":'' @ to_string (sint (cr_mtime row))
       @ '',\"node_type\":\"'' @ format_node (cr_node_type row)
       @ ''\",\"state\":\"'' @ format_state (cr_state row)
       @ ''\",\"err\":\"'' @ cr_err_msg row @ ''\"}''"

definition HttpServer_response_index_search_detail ::
    "http_env \<Rightarrow> string \<Rightarrow> daemon \<Rightarrow> handler_result" where
  "HttpServer_response_index_search_detail env queries s =
     (case HttpServer_get_query_value queries ''search'' of
        None \<Rightarrow> Code 400
      | Some keyword \<Rightarrow>
          (case query_page queries of
             None \<Rightarrow> Code 400
           | Some (page, limit) \<Rightarrow>
               json_response 200 (''{\"items\":['' @ comma_join (map index_item
                 (IndexReader_search (he_like env) keyword limit (page_offset page limit)
                   (ex_db (dm_export s)))) @ '']}'')))"

definition summary_head :: "http_env \<Rightarrow> string \<Rightarrow> string" where
  "summary_head env top_root =
     (let (ok, info) = get_disk_info_linux (he_proc_version env) (he_statvfs env) top_root DiskInfo_init in
      ''{\"disk_capacity_bytes\":'' @ to_string_u64 (capacity_bytes info)
        @ '',\"disk_available_bytes\":'' @ to_string_u64 (available_bytes info)
        @ '',\"root_directory\":\"'' @ top_root @ ''\",'')"

definition HttpServer_response_index_summary_folder :: "http_env \<Rightarrow> daemon \<Rightarrow> handler_result" where
  "HttpServer_response_index_summary_folder env s =
     (let db = ex_db (dm_export s);
          top_root = IndexReader_get_top_root_in_index db;
          folder_map = IndexReader_group_by_folder_in_snd_layer (he_glob env) top_root db
      in json_response 200 (summary_head env top_root @ ''\"folders\":['' @ comma_join (map (\<lambda>(folder, bytes).
           ''{\"folder\":\"'' @ folder @ ''\",\"bytes\":'' @ to_string_u64 bytes @ ''}'') folder_map) @ '']}''))"

definition HttpServer_response_index_summary_extension :: "http_env \<Rightarrow> daemon \<Rightarrow> handler_result" where
  "HttpServer_response_index_summary_extension env s =
     (let db = ex_db (dm_export s);
          top_root = IndexReader_get_top_root_in_index db;
          extension_map = IndexReader_group_by_extension (he_glob env) top_root db
      in json_response 200 (summary_head env top_root @ ''\"extensions\":['' @ comma_join (map (\<lambda>(ext, counts, bytes).
           ''{\"extension\":\"'' @ ext @ ''\",\"counts\":'' @ to_string (column_int (Some (int counts)))
             @ '',\"bytes\":'' @ to_string_u64 bytes @ ''}'') extension_map) @ '']}''))"

subsection \<open>Requests\<close>

text \<open>The call of the handler that the router chose.\<close>

fun HttpServer_respond :: "http_env \<Rightarrow> route \<Rightarrow> daemon \<Rightarrow> handler_result \<times> daemon" where
  "HttpServer_respond env (Refuse_with c) s = (Code c, s)"
| "HttpServer_respond env Homepage s = (HttpServer_response_homepage env s, s)"
| "HttpServer_respond env Post_shutdown s = HttpServer_response_shutdown s"
| "HttpServer_respond env Get_metrics s = (HttpServer_response_metrics s, s)"
| "HttpServer_respond env Get_download_time s = (HttpServer_response_download_time s, s)"
| "HttpServer_respond env (Post_scan q) s = HttpServer_response_scan env q s"
| "HttpServer_respond env (Post_cancel q) s = HttpServer_response_cancel q s"
| "HttpServer_respond env (Get_scans_history q) s = (HttpServer_response_scans_history q s, s)"
| "HttpServer_respond env (Get_state q) s = (HttpServer_response_state q s, s)"
| "HttpServer_respond env (Get_exporting q) s = (HttpServer_response_exporting q s, s)"
| "HttpServer_respond env (Get_scan_diff_summary q) s = (HttpServer_response_scan_diff_summary q s, s)"
| "HttpServer_respond env (Get_scan_diff_detail q) s = (HttpServer_response_scan_diff_detail q s, s)"
| "HttpServer_respond env (Get_index_detail q) s = (HttpServer_response_index_search_detail env q s, s)"
| "HttpServer_respond env Get_index_summary_extension s = (HttpServer_response_index_summary_extension env s, s)"
| "HttpServer_respond env Get_index_summary_folder s = (HttpServer_response_index_summary_folder env s, s)"

definition HttpServer_handle_request ::
    "http_env \<Rightarrow> (nat \<Rightarrow> string option) \<Rightarrow> daemon \<Rightarrow> response \<times> daemon" where
  "HttpServer_handle_request env sock s =
     (let request = HttpServer_read_request sock;
          plain = (\<lambda>c. \<lparr>rs_status = c, rs_content_type = ''text/html'', rs_body = []\<rparr>)
      in if rq_method request = [] \<or> rq_path request = [] \<or> rq_path request ! 0 \<noteq> CHR ''/''
         then (plain 400, s)
         else case HttpServer_respond env (HttpServer_router (dm_drain_flag s) request) s of
                (Written r, s1) \<Rightarrow> (r, s1)
              | (Code c, s1) \<Rightarrow> (plain c, s1))"

end
