(* ===== verification/Http_Properties.thy ===== *)
theory Http_Properties
  imports Http_Handlers
begin

section \<open>HttpServer: what clients can rely on\<close>

subsection \<open>Requests that change nothing\<close>

lemma respond_frame: "\<not> route_changes r \<Longrightarrow> snd (HttpServer_respond env r s) = s"
  by (cases r) simp_all

lemma drain_route: "\<not> route_changes (HttpServer_router True r)"
proof (cases "HttpServer_drain_allow r")
  case True
  then show ?thesis using drain_allow_get router_changes_post [of True r] by auto
next
  case False
  then show ?thesis by (simp add: HttpServer_router_def)
qed

text \<open>Only a \<^verbatim>\<open>POST\<close> request, and only while the server is not draining, changes the daemon: every other
  request, malformed ones included, leaves scheduler, scans, database and flags as they are.\<close>

theorem http_safe_requests:
  assumes "rq_method (HttpServer_read_request sock) \<noteq> ''POST'' \<or> dm_drain_flag s"
  shows "snd (HttpServer_handle_request env sock s) = s"
proof -
  let ?r = "HttpServer_router (dm_drain_flag s) (HttpServer_read_request sock)"
  have "\<not> route_changes ?r"
    using assms drain_route router_changes_post [of "dm_drain_flag s"] by auto
  from respond_frame [OF this, of env s] show ?thesis
    by (auto simp: HttpServer_handle_request_def Let_def split: prod.splits handler_result.splits)
qed

subsection \<open>Submitting a scan and asking for its state\<close>

lemma path_char_key: "list_all path_char ''root='' \<and> list_all path_char ''id=''"
  by (simp add: path_char_def)

lemma hex_digit_path: "n < 16 \<Longrightarrow> path_char (hex_digit n)"
proof -
  assume "n < 16"
  then have "(of_char (hex_digit n) :: nat) = (if n < 10 then 48 + n else 55 + n)"
    by (simp add: hex_digit_def)
  with \<open>n < 16\<close> show ?thesis by (auto simp: path_char_def split: if_splits)
qed

lemma url_encode_path: "list_all path_char (url_encode s)"
proof -
  have "list_all path_char (url_encode_char c)" for c
  proof (cases "unreserved c")
    case True
    then have "path_char c" by (auto simp: unreserved_def path_char_def)
    with True show ?thesis by (simp add: url_encode_char_def)
  next
    case False
    have "(of_char c :: nat) div 16 < 16"
      by (intro less_mult_imp_div_less) (use nat_of_char_less_256 [of c] in simp)
    with False show ?thesis
      by (simp add: url_encode_char_def Let_def hex_digit_path) (simp add: path_char_def)
  qed
  then show ?thesis by (simp add: url_encode_def list_all_iff)
qed

lemma not_NUL: "is_upper c \<Longrightarrow> c \<noteq> CHR 0x00" "path_char c \<Longrightarrow> c \<noteq> CHR 0x00"
  by (auto simp: is_upper_def path_char_def)

lemma read_request_line:
  assumes "sock 8191 = Some (m @ '' '' @ p @ '' '' @ rest)" and "m \<noteq> []" and "p \<noteq> []"
    and "list_all is_upper m" and "list_all path_char p"
  shows "HttpServer_read_request sock = \<lparr>rq_method = m, rq_path = p\<rparr>"
proof -
  let ?line = "m @ CHR '' '' # p @ CHR '' '' # takeWhile (\<lambda>c. c \<noteq> CHR 0x00) rest"
  have "\<forall>c \<in> set (m @ '' '' @ p @ '' ''). c \<noteq> CHR 0x00"
    using assms(4,5) not_NUL by (auto simp: list_all_iff)
  then have "takeWhile (\<lambda>c. c \<noteq> CHR 0x00) ((m @ '' '' @ p @ '' '') @ rest) = (m @ '' '' @ p @ '' '') @
      takeWhile (\<lambda>c. c \<noteq> CHR 0x00) rest" by (subst takeWhile_append2) auto
  then have t: "takeWhile (\<lambda>c. c \<noteq> CHR 0x00) (m @ '' '' @ p @ '' '' @ rest) = ?line" by simp
  have "\<exists>r. ?line = m @ CHR '' '' # p @ r \<and> m \<noteq> [] \<and> p \<noteq> [] \<and> list_all is_upper m
      \<and> list_all path_char p \<and> (r = [] \<or> \<not> path_char (hd r))"
    by (intro exI [of _ "CHR '' '' # takeWhile (\<lambda>c. c \<noteq> CHR 0x00) rest"])
      (use assms in \<open>auto simp: path_char_def\<close>)
  then have "HttpServer_parse_request ?line = \<lparr>rq_method = m, rq_path = p\<rparr>"
    using parse_request_iff [of ?line m p] by blast
  with assms(1,2) show ?thesis by (simp add: HttpServer_read_request_def t del: append.simps)
qed

lemma str_find_question:
  "CHR ''?'' \<notin> set a \<Longrightarrow> str_find ''?'' (a @ CHR ''?'' # q) = Some (length a)"
  using str_find_skip [of a "''?''" q] by (metis append_Cons append_Nil list.distinct(1) list.sel(1))

lemma route_submit:
  "HttpServer_router False \<lparr>rq_method = ''POST'', rq_path = ''/scan?'' @ q\<rparr> = (if q = [] then Refuse_with 400 else Post_scan q)"
  by (simp add: HttpServer_router_def rq_is_def starts_with_def)

lemma route_state:
  "HttpServer_router d \<lparr>rq_method = ''GET'', rq_path = ''/state?'' @ q\<rparr> = (if q = [] then Refuse_with 400 else Get_state q)"
  by (simp add: HttpServer_router_def HttpServer_drain_allow_def rq_is_def starts_with_def)

lemma route_cancel:
  "HttpServer_router False \<lparr>rq_method = ''POST'', rq_path = ''/cancel?'' @ q\<rparr> = (if q = [] then Refuse_with 400 else Post_cancel q)"
  by (simp add: HttpServer_router_def rq_is_def starts_with_def)

text \<open>What a client puts on the wire for a request with one parameter.\<close>

definition request_text :: "string \<Rightarrow> string \<Rightarrow> string \<Rightarrow> string \<Rightarrow> string" where
  "request_text m path key v =
     m @ '' '' @ path @ ''?'' @ query_string [(key, v)] @ '' HTTP/1.1'' @ crlf @ crlf"

lemma read_request_text:
  assumes "sock 8191 = Some (request_text m path key v)" and "m \<noteq> []" and "list_all is_upper m"
    and "list_all path_char path" and "list_all path_char key"
  shows "HttpServer_read_request sock = \<lparr>rq_method = m, rq_path = path @ ''?'' @ query_string [(key, v)]\<rparr>"
proof (rule read_request_line [where rest = "''HTTP/1.1'' @ crlf @ crlf"])
  show "sock 8191 = Some (m @ '' '' @ (path @ ''?'' @ query_string [(key, v)]) @ '' '' @ ''HTTP/1.1'' @ crlf @ crlf)"
    using assms(1) by (simp add: request_text_def)
  have "path_char (CHR ''='')" "path_char (CHR ''?'')" by (simp_all add: path_char_def)
  with assms(4,5) url_encode_path [of v]
  show "list_all path_char (path @ ''?'' @ query_string [(key, v)])" by simp
qed (use assms in auto)

lemma post_scan_response:
  assumes "sock 8191 = Some (request_text ''POST'' ''/scan'' ''root'' path)" and "path \<noteq> []"
    and "\<not> dm_drain_flag s"
    and "Scheduler_submit_scan_root (he_realpath env) path (dm_scheduler s) = (Ok, i, sc)"
  shows "HttpServer_handle_request env sock s =
    (\<lparr>rs_status = 200, rs_content_type = ''application/json'', rs_body = ''{\"id\":'' @ to_string_u64 i @ ''}''\<rparr>,
     s\<lparr>dm_scheduler := sc\<rparr>)"
proof -
  let ?q = "query_string [(''root'', path)]"
  have v: "HttpServer_get_query_value ?q ''root'' = Some path"
    using assms(2) by (intro query_value_first) (simp_all add: key_ok_def)
  have rq: "HttpServer_read_request sock = \<lparr>rq_method = ''POST'', rq_path = ''/scan'' @ ''?'' @ ?q\<rparr>"
    by (rule read_request_text [of sock, OF assms(1)]) (simp_all add: is_upper_def path_char_def)
  have "HttpServer_respond env (HttpServer_router (dm_drain_flag s) (HttpServer_read_request sock)) s
      = (json_response 200 (''{\"id\":'' @ to_string_u64 i @ ''}''), s\<lparr>dm_scheduler := sc\<rparr>)"
    using assms(3,4) route_submit [of ?q] v
    by (simp add: rq HttpServer_response_scan_def Daemon_submit_scan_def)
  then show ?thesis by (simp add: HttpServer_handle_request_def Let_def rq json_response_def)
qed

lemma get_state_response:
  assumes "sock 8191 = Some (request_text ''GET'' ''/state'' ''id'' (to_string_u64 i))"
    and "0 < unat i" and "unat i < 2 ^ 63" and "Scheduler_get_state [i] (dm_scheduler s) = [st]"
  shows "HttpServer_handle_request env sock s =
    (\<lparr>rs_status = 200, rs_content_type = ''application/json'',
      rs_body = ''[{\"id\":'' @ to_string_u64 i @ '',\"state\":\"'' @ state_name st @ ''\"}]''\<rparr>, s)"
proof -
  let ?q = "query_string [(''id'', to_string_u64 i)]"
  have "to_string_u64 i \<noteq> []" using to_string_digits by (simp add: to_string_u64_def)
  then have v: "HttpServer_get_query_value ?q ''id'' = Some (to_string_u64 i)"
    by (intro query_value_first) (simp_all add: key_ok_def)
  have ids: "parse_ids (to_string_u64 i) = [i]"
    using parse_ids_join [of "[unat i]"] assms(2,3) by (simp add: to_string_u64_def)
  have rq: "HttpServer_read_request sock = \<lparr>rq_method = ''GET'', rq_path = ''/state'' @ ''?'' @ ?q\<rparr>"
    by (rule read_request_text [of sock, OF assms(1)]) (simp_all add: is_upper_def path_char_def)
  have "HttpServer_respond env (HttpServer_router (dm_drain_flag s) (HttpServer_read_request sock)) s
      = (json_response 200 (''[{\"id\":'' @ to_string_u64 i @ '',\"state\":\"'' @ state_name st @ ''\"}]''), s)"
    using route_state [of _ ?q] v assms(4)
    by (simp add: rq HttpServer_response_state_def ids Daemon_get_state_def)
  then show ?thesis by (simp add: HttpServer_handle_request_def Let_def rq json_response_def)
qed


definition demo_env :: http_env where
  "demo_env = \<lparr>he_realpath = Some, he_glob = (\<lambda>p t. False), he_like = (\<lambda>p t. False),
     he_file = (\<lambda>p. None), he_proc_version = [], he_statvfs = (\<lambda>p. None)\<rparr>"

definition demo_daemon :: daemon where
  "demo_daemon = \<lparr>dm_scheduler = Scheduler_init 2 8,
     dm_manager = Manager_init 2 8 2 \<lparr>submitted_total = None, submitted_failed = None, queued_number = None\<rparr>,
     dm_export = ExportManager_init 10 empty_db,
     dm_metrics = \<lparr>const_scan_max_concurrent_number = 0, const_scan_pending_queue_size = 0, scan_running = 0,
       scan_pending = 0, const_scan_job_pool_num_threads = 0, const_scan_job_queue_size = 0,
       scan_jobs_unfinished = 0, scan_jobs_submitted = 0, scan_jobs_enqueue_reject = 0, scan_jobs_queued = 0,
       const_request_pool_num_threads = 0, const_request_queue_size = 0, request_jobs_submitted = 0,
       request_jobs_failed = 0, request_jobs_queued = 0, const_export_que_size = 0, export_pending = 0,
       export_running = 0, export_finished = 0, export_finalizing_running = 0, export_finalizing_done = 0,
       const_logger_pending_queue_size = 0, logger_pending = 0, logger_finished = 0, logger_fallback = 0\<rparr>,
     dm_shutdown_flag = False, dm_drain_flag = False, dm_user_download_sec = 60,
     dm_frontend_path = [], dm_system_start_time = 0\<rparr>"


theorem http_safe_requests_witness:
  "snd (HttpServer_handle_request demo_env (\<lambda>n. Some (request_text ''GET'' ''/scan'' ''root'' ''/a'')) demo_daemon)
   = demo_daemon"
proof -
  let ?sock = "\<lambda>n :: nat. Some (request_text ''GET'' ''/scan'' ''root'' ''/a'')"
  have "HttpServer_read_request ?sock = \<lparr>rq_method = ''GET'', rq_path = ''/scan'' @ ''?'' @ query_string [(''root'', ''/a'')]\<rparr>"
    by (rule read_request_text) (simp_all add: is_upper_def path_char_def)
  then show ?thesis by (intro http_safe_requests) simp
qed

subsection \<open>Cancelling\<close>

text \<open>\<^verbatim>\<open>POST /cancel\<close> answers 200 just for a scan that is known and not finished, which is then shown as
  dropped if it was waiting and as cancelled otherwise; any other request is answered 409 and
  changes no scan.\<close>

theorem http_cancel:
  assumes "sock 8191 = Some (request_text ''POST'' ''/cancel'' ''id'' (to_string_u64 i))"
    and "\<not> dm_drain_flag s" and "0 < unat i" and "unat i < 2 ^ 63"
    and "known = map_of (state_map (dm_scheduler s)) i"
  shows "let (r, s1) = HttpServer_handle_request env sock s in
    if known \<in> {Some PENDING, Some RUNNING, Some DISPATCHING}
    then rs_status r = 200
      \<and> Scheduler_get_state [i] (dm_scheduler s1) = [if known = Some PENDING then DROPPED else CANCELED]
    else rs_status r = 409 \<and> dm_scheduler s1 = dm_scheduler s \<and> dm_manager s1 = dm_manager s"
proof -
  let ?q = "query_string [(''id'', to_string_u64 i)]"
  have "to_string_u64 i \<noteq> []" using to_string_digits by (simp add: to_string_u64_def)
  then have v: "HttpServer_get_query_value ?q ''id'' = Some (to_string_u64 i)"
    by (intro query_value_first) (simp_all add: key_ok_def)
  have p: "HttpServer_parse_id (to_string_u64 i) = Some i"
    using parse_id_to_string [of "unat i"] assms(3,4) by (simp add: to_string_u64_def)
  have rq: "HttpServer_read_request sock = \<lparr>rq_method = ''POST'', rq_path = ''/cancel'' @ ''?'' @ ?q\<rparr>"
    by (rule read_request_text [of sock, OF assms(1)]) (simp_all add: is_upper_def path_char_def)
  have r: "HttpServer_respond env (HttpServer_router (dm_drain_flag s) (HttpServer_read_request sock)) s
      = (case Daemon_cancel_scan i s of (ok, s1) \<Rightarrow> (Code (if ok then 200 else 409), s1))"
    using assms(2) route_cancel [of ?q] v p by (simp add: rq HttpServer_response_cancel_def)
  have h: "HttpServer_handle_request env sock s = (case Daemon_cancel_scan i s of (ok, s1) \<Rightarrow>
      (\<lparr>rs_status = (if ok then 200 else 409), rs_content_type = ''text/html'', rs_body = []\<rparr>, s1))"
    unfolding HttpServer_handle_request_def Let_def r by (simp add: rq split: prod.split)
  show ?thesis
  proof (cases known)
    case None
    then have "map_of (state_map (dm_scheduler s)) i = None" using assms(5) by simp
    with None show ?thesis by (simp add: h Daemon_cancel_scan_def Scheduler_cancel_def)
  next
    case (Some st)
    then have "map_of (state_map (dm_scheduler s)) i = Some st" using assms(5) by simp
    with Some show ?thesis
      by (cases st) (simp_all add: h Daemon_cancel_scan_def
          Scheduler_cancel_def Scheduler_get_state_def sched_set_state_def update_conv')
  qed
qed

theorem http_cancel_witness:
  "rs_status (fst (HttpServer_handle_request demo_env
      (\<lambda>n. Some (request_text ''POST'' ''/cancel'' ''id'' (to_string_u64 5))) demo_daemon)) = 409"
  using http_cancel [of "\<lambda>n. Some (request_text ''POST'' ''/cancel'' ''id'' (to_string_u64 5))" 5 demo_daemon None demo_env]
  by (auto simp: demo_daemon_def Scheduler_init_def split: prod.splits)

end
