(* ===== verification/Http_Results.thy ===== *)
theory Http_Results
  imports Http_Handlers
begin

section \<open>HttpServer: pages and result texts\<close>

subsection \<open>Pages\<close>

lemma sint_small: "- (2 ^ 31) \<le> x \<Longrightarrow> x < 2 ^ 31 \<Longrightarrow> sint (word_of_int x :: i32) = x"
  by (simp add: sint_sbintrunc' signed_take_bit_int_eq_self)

lemma page_offset_exact:
  "0 \<le> (page - 1) * limit \<Longrightarrow> (page - 1) * limit < 2 ^ 31 \<Longrightarrow> page_offset page limit = (page - 1) * limit"
  unfolding page_offset_def by (rule sint_small) simp_all

lemma get_all_sql_page:
  "ScanTable_get_all limit offset db = sql_page limit offset (ScanTable_get_all (- 1) 0 db)"
  by (simp add: ScanTable_get_all_def sql_page_def Let_def)

lemma pages_take:
  assumes "0 < limit" and "int k * limit < 2 ^ 31"
  shows "concat (map (\<lambda>page. ScanTable_get_all limit (page_offset (int page) limit) db) [1..<Suc k])
    = take (k * nat limit) (ScanTable_get_all (- 1) 0 db)"
  using assms(2)
proof (induction k)
  case 0
  then show ?case by simp
next
  case (Suc k)
  let ?rows = "ScanTable_get_all (- 1) 0 db"
  have le: "int k * limit \<le> int (Suc k) * limit" using assms(1) by (intro mult_right_mono) auto
  have o: "page_offset (int (Suc k)) limit = int k * limit"
  proof -
    have "int k * limit < 2 ^ 31" using le Suc.prems by linarith
    then show ?thesis using page_offset_exact [of "int (Suc k)" limit] assms(1) by simp
  qed
  have "nat (int k * limit) = k * nat limit" using assms(1) by (simp add: nat_mult_distrib)
  then have "ScanTable_get_all limit (page_offset (int (Suc k)) limit) db = take (nat limit) (drop (k * nat limit) ?rows)"
    unfolding o by (subst get_all_sql_page) (use assms(1) in \<open>simp add: sql_page_def\<close>)
  moreover have "concat (map (\<lambda>page. ScanTable_get_all limit (page_offset (int page) limit) db) [1..<Suc k])
      = take (k * nat limit) ?rows"
    using Suc le by linarith
  moreover have "take (Suc k * nat limit) ?rows = take (k * nat limit) ?rows @ take (nat limit) (drop (k * nat limit) ?rows)"
    by (metis add.commute mult_Suc take_add)
  ultimately show ?case by simp
qed

text \<open>Pages do not overlap and leave nothing out: the rows of the first \<open>k\<close> pages of the history,
  one after the other, are the first \<open>k * limit\<close> rows of the whole history, newest scan first, as
  long as the numbers fit an \<^verbatim>\<open>int\<close>.\<close>

theorem history_pages_partition:
  assumes "0 < limit" and "int k * limit < 2 ^ 31"
  shows "concat (map (\<lambda>page. ScanTable_get_all limit (page_offset (int page) limit) db) [1..<Suc k])
    = take (k * nat limit) (rev (sort_key (\<lambda>r. sint (st_scan_id r)) (map te_row (scan_task_table db))))"
  using pages_take [OF assms, of db] by (simp add: ScanTable_get_all_def sql_page_def Let_def)

theorem history_pages_partition_witness:
  "concat (map (\<lambda>page. ScanTable_get_all 2 (page_offset (int page) 2) empty_db) [1..<4]) = []"
  using history_pages_partition [of 2 3 empty_db] by (simp add: empty_db_def)

lemma query_page_of:
  assumes "HttpServer_parse_int a = Some page" and "HttpServer_parse_int b = Some limit"
    and "a \<noteq> []" and "b \<noteq> []"
  shows "query_page (query_string [(''page'', a), (''limit'', b)]) = Some (page, limit)"
proof -
  have "HttpServer_get_query_value (query_string [(''page'', a), (''limit'', b)]) ''page'' = Some a"
    using assms(3) by (intro query_value_first) (simp_all add: key_ok_def)
  moreover have "HttpServer_get_query_value (query_string ([(''page'', a)] @ [(''limit'', b)])) ''limit'' = Some b"
    using assms(4) by (intro query_value) (simp_all add: key_ok_def ends_with_def)
  ultimately show ?thesis using assms(1,2) by (simp add: query_page_def)
qed

lemma parse_int_to_string:
  "0 < n \<Longrightarrow> n < 2 ^ 31 \<Longrightarrow> HttpServer_parse_int (to_string_nat n) = Some (int n)"
  by (simp add: HttpServer_parse_int_def atoll_to_string Let_def INT_MAX_def)

text \<open>Beyond that the offset wraps (the standard leaves the multiplication undefined), SQLite takes
  a negative offset for 0, and the third page of a large enough size is the first one again.\<close>

theorem history_page_overflow:
  "HttpServer_response_scans_history (query_string [(''page'', to_string_nat 3), (''limit'', to_string_nat (2 ^ 30))]) s
   = HttpServer_response_scans_history (query_string [(''page'', to_string_nat 1), (''limit'', to_string_nat (2 ^ 30))]) s"
proof -
  have p: "HttpServer_parse_int (to_string_nat 3) = Some 3" "HttpServer_parse_int (to_string_nat 1) = Some 1"
      "HttpServer_parse_int (to_string_nat (2 ^ 30)) = Some (2 ^ 30)"
    using parse_int_to_string [of 3] parse_int_to_string [of 1] parse_int_to_string [of "2 ^ 30"] by simp_all
  have ne: "to_string_nat n \<noteq> []" for n using to_string_digits by blast
  have o: "page_offset 3 (2 ^ 30) = - (2 ^ 31)" "page_offset 1 (2 ^ 30) = 0"
    by (simp_all add: page_offset_def)
  have "ScanTable_get_all (2 ^ 30) (- (2 ^ 31)) (ex_db (dm_export s)) = ScanTable_get_all (2 ^ 30) 0 (ex_db (dm_export s))"
    by (simp add: ScanTable_get_all_def sql_page_def)
  then show ?thesis
    unfolding HttpServer_response_scans_history_def query_page_of [OF p(1,3) ne ne] query_page_of [OF p(2,3) ne ne]
      option.case prod.case o by simp
qed

subsection \<open>The texts\<close>

lemma span_unique:
  assumes "a @ c # t = a' @ c' # t'" and "\<forall>x \<in> set a. P x" and "\<forall>x \<in> set a'. P x" and "\<not> P c" and "\<not> P c'"
  shows "a = a' \<and> c = c' \<and> t = t'"
proof -
  have "takeWhile P (a @ c # t) = a" "takeWhile P (a' @ c' # t') = a'"
    using assms(2-5) by (auto simp: takeWhile_append)
  with assms(1) have "a = a'" by simp
  with assms(1) show ?thesis by simp
qed

lemma to_string_inject: "to_string_nat m = to_string_nat n \<Longrightarrow> m = n"
  using digits_value_to_string by (metis of_nat_eq_iff)

lemma number_unique:
  assumes "to_string_nat m @ c # t = to_string_nat n @ c' # t'" and "\<not> is_digit c" and "\<not> is_digit c'"
  shows "m = n \<and> t = t'"
  using span_unique [OF assms(1), of is_digit] assms(2,3) to_string_digits to_string_inject
  by (auto simp: list_all_iff)

lemma text_unique:
  assumes "p @ CHR 0x22 # t = q @ CHR 0x22 # t'" and "CHR 0x22 \<notin> set p" and "CHR 0x22 \<notin> set q"
  shows "p = q \<and> t = t'"
  using span_unique [OF assms(1), of "\<lambda>x. x \<noteq> CHR 0x22"] assms(2,3) by auto

definition diff_key :: "diff_row \<times> history_row \<Rightarrow> scan_state \<times> string \<times> u64 \<times> u64" where
  "diff_key r = (dr_state (fst r), hr_path (snd r), hr_msize (snd r), dr_old_size (fst r))"

lemma scan_state_code_inject: "scan_state_code a = scan_state_code b \<Longrightarrow> a = b"
  by (cases a; cases b) simp_all

lemma diff_item_unique:
  assumes "diff_item r @ t = diff_item r' @ t'"
    and "CHR 0x22 \<notin> set (hr_path (snd r))" and "CHR 0x22 \<notin> set (hr_path (snd r'))"
  shows "diff_key r = diff_key r' \<and> t = t'"
proof -
  have nd: "\<not> is_digit (CHR '','')" "\<not> is_digit (CHR ''}'')" by (simp_all add: is_digit_def)
  have "to_string_nat (scan_state_code (dr_state (fst r))) @ CHR '','' # ''\"path\":\"'' @ hr_path (snd r)
        @ CHR 0x22 # '',\"size\":'' @ to_string_u64 (hr_msize (snd r)) @ CHR '','' # ''\"old_size\":''
        @ to_string_u64 (dr_old_size (fst r)) @ CHR ''}'' # t
      = to_string_nat (scan_state_code (dr_state (fst r'))) @ CHR '','' # ''\"path\":\"'' @ hr_path (snd r')
        @ CHR 0x22 # '',\"size\":'' @ to_string_u64 (hr_msize (snd r')) @ CHR '','' # ''\"old_size\":''
        @ to_string_u64 (dr_old_size (fst r')) @ CHR ''}'' # t'"
    using assms(1) by (simp add: diff_item_def)
  from number_unique [OF this nd(1) nd(1)]
  have s: "dr_state (fst r) = dr_state (fst r')" and
    "hr_path (snd r) @ CHR 0x22 # '',\"size\":'' @ to_string_u64 (hr_msize (snd r)) @ CHR '','' # ''\"old_size\":''
        @ to_string_u64 (dr_old_size (fst r)) @ CHR ''}'' # t
      = hr_path (snd r') @ CHR 0x22 # '',\"size\":'' @ to_string_u64 (hr_msize (snd r')) @ CHR '','' # ''\"old_size\":''
        @ to_string_u64 (dr_old_size (fst r')) @ CHR ''}'' # t'"
    using scan_state_code_inject by auto
  from text_unique [OF this(2) assms(2,3)]
  have p: "hr_path (snd r) = hr_path (snd r')" and
    "to_string_nat (unat (hr_msize (snd r))) @ CHR '','' # ''\"old_size\":''
        @ to_string_u64 (dr_old_size (fst r)) @ CHR ''}'' # t
      = to_string_nat (unat (hr_msize (snd r'))) @ CHR '','' # ''\"old_size\":''
        @ to_string_u64 (dr_old_size (fst r')) @ CHR ''}'' # t'"
    by (simp_all add: to_string_u64_def word_unat_eq_iff)
  from number_unique [OF this(2) nd(1) nd(1)]
  have m: "hr_msize (snd r) = hr_msize (snd r')" and
    "to_string_nat (unat (dr_old_size (fst r))) @ CHR ''}'' # t
      = to_string_nat (unat (dr_old_size (fst r'))) @ CHR ''}'' # t'"
    by (simp_all add: to_string_u64_def word_unat_eq_iff)
  from number_unique [OF this(2) nd(2) nd(2)] s p m show ?thesis by (simp add: diff_key_def word_unat_eq_iff)
qed

lemma comma_join_Cons:
  "comma_join (x # xs) = x @ (if xs = [] then [] else CHR '','' # comma_join xs)"
  by (cases xs) simp_all

lemma diff_item_ne: "diff_item r \<noteq> []"
  by (simp add: diff_item_def)

text \<open>The list of differences that a client reads is unambiguous: for paths without a quotation
  mark, two lists of rows with the same text have the same states, paths and sizes in the same
  order.\<close>

theorem diff_detail_unambiguous:
  assumes "comma_join (map diff_item rs) = comma_join (map diff_item rs')"
    and "\<forall>r \<in> set rs \<union> set rs'. CHR 0x22 \<notin> set (hr_path (snd r))"
  shows "map diff_key rs = map diff_key rs'"
  using assms
proof (induction rs arbitrary: rs')
  case Nil
  then show ?case by (cases rs') (auto simp: comma_join_Cons diff_item_ne)
next
  case (Cons r rs)
  then obtain r' rs'' where r': "rs' = r' # rs''"
    by (cases rs') (auto simp: comma_join_Cons diff_item_ne)
  have "diff_item r @ (if rs = [] then [] else CHR '','' # comma_join (map diff_item rs))
      = diff_item r' @ (if rs'' = [] then [] else CHR '','' # comma_join (map diff_item rs''))"
    using Cons.prems(1) by (simp only: r' list.map comma_join_Cons map_is_Nil_conv)
  from diff_item_unique [OF this] Cons.prems(2) r' have key: "diff_key r = diff_key r'"
      and t: "(if rs = [] then [] else CHR '','' # comma_join (map diff_item rs))
        = (if rs'' = [] then [] else CHR '','' # comma_join (map diff_item rs''))" by auto
  from t have "comma_join (map diff_item rs) = comma_join (map diff_item rs'')"
    by (auto split: if_splits)
  from Cons.IH [OF this] Cons.prems(2) r' key show ?case by auto
qed

text \<open>But nothing is escaped: a file whose name contains a quotation mark can make one row look
  like two, with states and sizes of its own choice.\<close>

theorem diff_detail_injection:
  "comma_join (map diff_item
      [(d, h\<lparr>hr_path := x @ ''\",\"size\":1,\"old_size\":2},{\"state\":0,\"path\":\"'' @ y\<rparr>)])
   = comma_join (map diff_item
      [(d\<lparr>dr_old_size := 2\<rparr>, h\<lparr>hr_path := x, hr_msize := 1\<rparr>), (d\<lparr>dr_state := New\<rparr>, h\<lparr>hr_path := y\<rparr>)])"
proof -
  have "to_string_nat 1 = ''1''" "to_string_nat 2 = ''2''" "to_string_nat 0 = ''0''"
    by (simp_all add: to_string_nat.simps char_of_def bit_0)
  then show ?thesis by (simp add: diff_item_def to_string_u64_def)
qed

end
