(* ===== verification/Http_Connections.thy ===== *)
theory Http_Connections
  imports Thread_Pool
begin

section \<open>The connections of HttpServer (run and shutdown, src/daemon\_system/httpserver.cpp)\<close>

text \<open>
  The accept loop of \<^verbatim>\<open>HttpServer::run\<close> beside the pool that handles the requests and the thread
  that calls \<^verbatim>\<open>shutdown\<close>. A connection is named by the order in which it was accepted, since the
  kernel reuses descriptors. A finished job of the pool is a \<^verbatim>\<open>handle_request\<close> that returned; each of
  its paths ends with \<^verbatim>\<open>::close\<close>. Of the listening socket it is counted how often one was opened and
  closed.
\<close>

subsection \<open>The accept loop\<close>

datatype accept_pc =
    A_begin
  | A_socket
  | A_option
  | A_bind
  | A_listen
  | A_publish
  | A_pool
  | A_loop
  | A_server_fd
  | A_no_fd
  | A_accept
  | A_setup nat
  | A_submit nat
  | A_reject nat nat
  | A_joining
  | A_done

record http_connections =
  hc_pool :: "nat thread_pool"
  hc_stop_flag :: bool
  hc_drain_flag :: bool
  hc_listen_opened :: nat
  hc_listen_closed :: nat
  hc_server_open :: bool
  hc_pc :: accept_pc
  hc_accepted :: nat
  hc_pushed :: "nat list"
  hc_refused :: "(nat \<times> nat) list"
  hc_closed :: "nat list"

definition http_connections_init :: "queue_metrics \<Rightarrow> nat \<Rightarrow> nat \<Rightarrow> http_connections" where
  "http_connections_init m queue_size num_threads =
     \<lparr>hc_pool = ThreadPool_init Fifo m queue_size num_threads, hc_stop_flag = False,
      hc_drain_flag = False, hc_listen_opened = 0, hc_listen_closed = 0, hc_server_open = False,
      hc_pc = A_begin, hc_accepted = 0, hc_pushed = [], hc_refused = [], hc_closed = []\<rparr>"

text \<open>\<^verbatim>\<open>setup_server_socket\<close>: the flag is whether the call of this point succeeded. Every failure closes
  the socket, and so does a shutdown that came in between.\<close>

definition close_listening :: "http_connections \<Rightarrow> http_connections" where
  "close_listening s = s\<lparr>hc_listen_closed := hc_listen_closed s + 1, hc_pc := A_done\<rparr>"

definition setup_server_socket :: "bool \<Rightarrow> http_connections \<Rightarrow> http_connections" where
  "setup_server_socket ok s =
     (case hc_pc s of
        A_socket \<Rightarrow>
          (if ok then s\<lparr>hc_listen_opened := hc_listen_opened s + 1, hc_pc := A_option\<rparr>
           else s\<lparr>hc_pc := A_done\<rparr>)
      | A_option \<Rightarrow> (if ok then s\<lparr>hc_pc := A_bind\<rparr> else close_listening s)
      | A_bind \<Rightarrow> (if ok then s\<lparr>hc_pc := A_listen\<rparr> else close_listening s)
      | A_listen \<Rightarrow> (if ok then s\<lparr>hc_pc := A_publish\<rparr> else close_listening s)
      | A_publish \<Rightarrow>
          (if hc_stop_flag s then close_listening s else s\<lparr>hc_server_open := True, hc_pc := A_pool\<rparr>)
      | _ \<Rightarrow> s)"

text \<open>\<^verbatim>\<open>fd_pool.start\<close>: the flag is whether the threads can be created.\<close>

definition start_pool :: "bool \<Rightarrow> http_connections \<Rightarrow> http_connections" where
  "start_pool ok s =
     (case ThreadPool_start (\<lambda>i. ok) (hc_pool s) of
        (True, p) \<Rightarrow> s\<lparr>hc_pool := p, hc_pc := A_loop\<rparr>
      | (False, p) \<Rightarrow> s\<lparr>hc_pool := p, hc_pc := A_done\<rparr>)"

text \<open>The end of the loop: \<^verbatim>\<open>fd_pool.shutdown()\<close>, whose join is a step of its own.\<close>

definition leave_loop :: "http_connections \<Rightarrow> http_connections" where
  "leave_loop s = s\<lparr>hc_pool := ThreadPool_shutdown_begin (hc_pool s), hc_pc := A_joining\<rparr>"

definition setup_client_socket :: "bool \<Rightarrow> nat \<Rightarrow> http_connections \<Rightarrow> http_connections" where
  "setup_client_socket ok fd s =
     (if ok then s\<lparr>hc_pc := A_submit fd\<rparr> else s\<lparr>hc_closed := hc_closed s @ [fd], hc_pc := A_loop\<rparr>)"

definition submit_client :: "nat \<Rightarrow> http_connections \<Rightarrow> http_connections" where
  "submit_client fd s =
     (case ThreadPool_submit fd (hc_pool s) of
        (Pushed, p) \<Rightarrow> s\<lparr>hc_pool := p, hc_pushed := hc_pushed s @ [fd], hc_pc := A_loop\<rparr>
      | (Full, p) \<Rightarrow> s\<lparr>hc_pool := p, hc_pc := A_reject fd 429\<rparr>
      | (Shutdown, p) \<Rightarrow> s\<lparr>hc_pool := p, hc_pc := A_reject fd 503\<rparr>)"

text \<open>One step of \<^verbatim>\<open>run\<close>. The flag is what the environment answers where it is asked: whether
  the calls of the set-up succeed, \<^verbatim>\<open>::accept\<close> delivered a socket, \<^verbatim>\<open>::setsockopt\<close> succeeded.\<close>

definition HttpServer_run_step :: "bool \<Rightarrow> http_connections \<Rightarrow> http_connections option" where
  "HttpServer_run_step answer s =
     (case hc_pc s of
        A_begin \<Rightarrow> Some (s\<lparr>hc_drain_flag := False, hc_pc := A_socket\<rparr>)
      | A_pool \<Rightarrow> Some (start_pool answer s)
      | A_loop \<Rightarrow> Some (if hc_stop_flag s then leave_loop s else s\<lparr>hc_pc := A_server_fd\<rparr>)
      | A_server_fd \<Rightarrow> Some (s\<lparr>hc_pc := (if hc_server_open s then A_accept else A_no_fd)\<rparr>)
      | A_no_fd \<Rightarrow> Some (if hc_stop_flag s then leave_loop s else s\<lparr>hc_pc := A_loop\<rparr>)
      | A_accept \<Rightarrow>
          Some (if answer then s\<lparr>hc_accepted := hc_accepted s + 1, hc_pc := A_setup (hc_accepted s)\<rparr>
                else if hc_stop_flag s then leave_loop s else s\<lparr>hc_pc := A_loop\<rparr>)
      | A_setup fd \<Rightarrow> Some (setup_client_socket answer fd s)
      | A_submit fd \<Rightarrow> Some (submit_client fd s)
      | A_reject fd code \<Rightarrow>
          Some (s\<lparr>hc_refused := hc_refused s @ [(fd, code)], hc_closed := hc_closed s @ [fd], hc_pc := A_loop\<rparr>)
      | A_joining \<Rightarrow> map_option (\<lambda>p. s\<lparr>hc_pool := p, hc_pc := A_done\<rparr>) (ThreadPool_join (hc_pool s))
      | A_done \<Rightarrow> None
      | _ \<Rightarrow> Some (setup_server_socket answer s))"

definition HttpServer_shutdown :: "http_connections \<Rightarrow> http_connections" where
  "HttpServer_shutdown s = s\<lparr>hc_stop_flag := True, hc_server_open := False,
     hc_listen_closed := hc_listen_closed s + of_bool (hc_server_open s)\<rparr>"

definition HttpServer_drain :: "http_connections \<Rightarrow> http_connections" where
  "HttpServer_drain s = s\<lparr>hc_drain_flag := True\<rparr>"

datatype http_move = Run_loop bool | Handle nat | Http_shutdown | Http_drain

fun http_step :: "http_move \<Rightarrow> http_connections \<Rightarrow> http_connections option" where
  "http_step (Run_loop answer) s = HttpServer_run_step answer s"
| "http_step (Handle i) s = map_option (\<lambda>p. s\<lparr>hc_pool := p\<rparr>) (ThreadPool_work_step i (hc_pool s))"
| "http_step Http_shutdown s = Some (HttpServer_shutdown s)"
| "http_step Http_drain s = Some (HttpServer_drain s)"

subsection \<open>Where a connection is\<close>

fun held :: "accept_pc \<Rightarrow> nat multiset" where
  "held (A_setup fd) = {#fd#}"
| "held (A_submit fd) = {#fd#}"
| "held (A_reject fd code) = {#fd#}"
| "held _ = {#}"

fun setting_up :: "accept_pc \<Rightarrow> bool" where
  "setting_up A_begin = True"
| "setting_up A_socket = True"
| "setting_up A_option = True"
| "setting_up A_bind = True"
| "setting_up A_listen = True"
| "setting_up A_publish = True"
| "setting_up A_pool = True"
| "setting_up _ = False"

fun has_socket :: "accept_pc \<Rightarrow> bool" where
  "has_socket A_option = True"
| "has_socket A_bind = True"
| "has_socket A_listen = True"
| "has_socket A_publish = True"
| "has_socket _ = False"

definition listening_ok :: "http_connections \<Rightarrow> bool" where
  "listening_ok s \<longleftrightarrow> hc_listen_opened s = hc_listen_closed s + of_bool (has_socket (hc_pc s)) + of_bool (hc_server_open s)
     \<and> hc_listen_opened s \<le> 1 \<and> (hc_pc s = A_begin \<or> hc_pc s = A_socket \<longrightarrow> hc_listen_opened s = 0)
     \<and> (hc_stop_flag s \<longrightarrow> \<not> hc_server_open s)"

definition connections_ok :: "nat \<Rightarrow> http_connections \<Rightarrow> bool" where
  "connections_ok n s \<longleftrightarrow> pool_ok (hc_pool s, hc_pushed s) \<and> NUM_THREADS (hc_pool s) = n
     \<and> mset [0..<hc_accepted s] = mset (hc_pushed s) + mset (hc_closed s) + held (hc_pc s)
     \<and> (setting_up (hc_pc s) \<longrightarrow> tp_pool (hc_pool s) = [] \<and> tp_done (hc_pool s) = [] \<and> hc_pushed s = [])
     \<and> (\<not> setting_up (hc_pc s) \<and> hc_pc s \<noteq> A_done \<longrightarrow> length (tp_pool (hc_pool s)) = n)
     \<and> (hc_pc s = A_done \<longrightarrow> tp_pool (hc_pool s) = [] \<and>
          (0 < n \<longrightarrow> mset (tp_done (hc_pool s)) = mset (hc_pushed s)))"

lemma pool_ok_leave: "pool_ok (p, acc) \<Longrightarrow> pool_ok (ThreadPool_shutdown_begin p, acc)"
  using pool_ok_step [of "(p, acc)" Stop] by simp

lemma shutdown_begin_pool [simp]: "tp_pool (ThreadPool_shutdown_begin p) = tp_pool p"
  by (simp add: ThreadPool_shutdown_begin_def)

lemma submit_pool:
  assumes "ThreadPool_submit x p = (r, p')" and "pool_ok (p, acc)"
  shows "pool_ok (p', if r = Pushed then acc @ [x] else acc)" and "tp_pool p' = tp_pool p"
    and "NUM_THREADS p' = NUM_THREADS p"
proof -
  show "pool_ok (p', if r = Pushed then acc @ [x] else acc)"
    by (rule pool_ok_step [OF assms(2), of "Submit x"]) (simp add: assms(1))
  show "tp_pool p' = tp_pool p" "NUM_THREADS p' = NUM_THREADS p"
    using assms(1) by (auto simp: ThreadPool_submit_def split: prod.splits)
qed

lemma work_step_length:
  "ThreadPool_work_step i p = Some p' \<Longrightarrow>
   length (tp_pool p') = length (tp_pool p) \<and> NUM_THREADS p' = NUM_THREADS p"
  by (elim ThreadPool_work_step_cases) auto

lemma joined_pool_ok: "ThreadPool_join p = Some p' \<Longrightarrow> pool_ok (p, acc) \<Longrightarrow> pool_ok (p', acc)"
proof -
  assume j: "ThreadPool_join p = Some p'" and ok: "pool_ok (p, acc)"
  then have ex: "\<forall>w \<in> set (tp_pool p). w = Exited" and p': "p' = p\<lparr>tp_pool := []\<rparr>"
    by (auto simp: ThreadPool_join_def list_all_iff split: if_splits)
  have "sum_list (map running_job ws) = {#}" if "\<forall>w \<in> set ws. w = Exited" for ws :: "'a worker list"
    using that by (induction ws) auto
  with ex have "in_progress p = {#}" by (simp add: in_progress_def)
  with ok show ?thesis by (simp add: p' pool_ok_def in_progress_def)
qed

lemma start_pool_eq:
  assumes "tp_pool (hc_pool s) = []" and "NUM_THREADS (hc_pool s) = n"
  shows "start_pool ok s =
    (if ok \<or> n = 0
     then s\<lparr>hc_pool := (hc_pool s)\<lparr>tp_pool := replicate n Popping\<rparr>, hc_pc := A_loop\<rparr>
     else s\<lparr>hc_pool := (hc_pool s)\<lparr>tp_queue := fst (JobQueue_shutdown (tp_queue (hc_pool s))), tp_pool := []\<rparr>,
            hc_pc := A_done\<rparr>)"
proof -
  have "ThreadPool_spawn (\<lambda>i. True) 0 n = Some (replicate n Popping :: nat worker list)"
    "ThreadPool_spawn (\<lambda>i. False) 0 n = (if n = 0 then Some ([] :: nat worker list) else None)"
    by (auto simp: ThreadPool_spawn_eq)
  with assms show ?thesis by (cases ok; simp add: start_pool_def ThreadPool_start_def)
qed

lemma start_pool_ok:
  assumes "connections_ok n s" and "hc_pc s = A_pool"
  shows "connections_ok n (start_pool ok s)"
proof -
  let ?p = "hc_pool s"
  have s: "pool_ok (?p, [])" "tp_pool ?p = []" "tp_done ?p = []" "hc_pushed s = []" "NUM_THREADS ?p = n"
      "mset [0..<hc_accepted s] = mset (hc_closed s)"
    using assms by (auto simp: connections_ok_def)
  then have q: "jq_container (tp_queue ?p) = []" by (simp add: pool_ok_def in_progress_def)
  have "in_progress (?p\<lparr>tp_pool := replicate n Popping\<rparr>) = {#}"
    by (rule in_progress_Popping [of _ n]) simp
  then have "pool_ok (?p\<lparr>tp_pool := replicate n Popping\<rparr>, [])" using s(3) q by (simp add: pool_ok_def)
  moreover have "pool_ok (?p\<lparr>tp_queue := fst (JobQueue_shutdown (tp_queue ?p)), tp_pool := []\<rparr>, [])"
    using s(3) q by (simp add: pool_ok_def in_progress_def JobQueue_shutdown_def)
  ultimately show ?thesis using s by (simp add: start_pool_eq [OF s(2,5)] connections_ok_def)
qed

lemma setup_ok: "connections_ok n s \<Longrightarrow> setting_up (hc_pc s) \<Longrightarrow> connections_ok n (setup_server_socket ok s)"
  by (cases "hc_pc s") (auto simp: setup_server_socket_def close_listening_def connections_ok_def)

lemma leave_loop_ok:
  "connections_ok n s \<Longrightarrow> hc_pc s \<in> {A_loop, A_no_fd, A_accept} \<Longrightarrow> connections_ok n (leave_loop s)"
  by (auto simp: leave_loop_def connections_ok_def pool_ok_leave ThreadPool_shutdown_begin_def [of "hc_pool s"]
      dest: pool_ok_leave)

lemma connections_run:
  assumes "HttpServer_run_step answer s = Some t" and "connections_ok n s"
  shows "connections_ok n t"
proof (cases "hc_pc s")
  case (A_submit fd)
  obtain r p where r: "ThreadPool_submit fd (hc_pool s) = (r, p)" by (cases "ThreadPool_submit fd (hc_pool s)")
  have "pool_ok (hc_pool s, hc_pushed s)" using assms(2) by (simp add: connections_ok_def)
  from submit_pool [OF r this] A_submit assms r show ?thesis
    by (cases r) (auto simp: HttpServer_run_step_def submit_client_def connections_ok_def)
next
  case A_joining
  then obtain p where p: "ThreadPool_join (hc_pool s) = Some p" "t = s\<lparr>hc_pool := p, hc_pc := A_done\<rparr>"
    using assms(1) by (auto simp: HttpServer_run_step_def)
  note ok = assms(2) [unfolded connections_ok_def]
  then have pool: "pool_ok (hc_pool s, hc_pushed s)" "length (tp_pool (hc_pool s)) = n" using A_joining by simp_all
  then have "pool_ok (p, hc_pushed s)" using joined_pool_ok [OF p(1)] by simp
  moreover have "0 < n \<longrightarrow> mset (tp_done p) = mset (hc_pushed s)"
    using pool_joined [OF pool _ p(1)] by simp
  moreover have "tp_pool p = []" "NUM_THREADS p = NUM_THREADS (hc_pool s)"
    using p(1) by (auto simp: ThreadPool_join_def split: if_splits)
  ultimately show ?thesis using ok A_joining by (simp add: p(2) connections_ok_def)
next
  case A_pool
  then show ?thesis using assms start_pool_ok by (simp add: HttpServer_run_step_def) metis
next
  case A_loop
  then show ?thesis using assms leave_loop_ok
    by (auto simp: HttpServer_run_step_def connections_ok_def split: if_splits)
next
  case A_no_fd
  then show ?thesis using assms leave_loop_ok
    by (auto simp: HttpServer_run_step_def connections_ok_def split: if_splits)
next
  case A_accept
  then show ?thesis using assms leave_loop_ok
    by (auto simp: HttpServer_run_step_def connections_ok_def atLeast0_lessThan_Suc split: if_splits)
next
  case (A_setup fd)
  then show ?thesis using assms
    by (auto simp: HttpServer_run_step_def setup_client_socket_def connections_ok_def split: if_splits)
next
  case A_begin
  then show ?thesis using assms by (auto simp: HttpServer_run_step_def connections_ok_def)
next
  case A_server_fd
  then show ?thesis using assms by (cases "hc_server_open s") (auto simp: HttpServer_run_step_def connections_ok_def)
next
  case (A_reject fd code)
  then show ?thesis using assms by (auto simp: HttpServer_run_step_def connections_ok_def)
next
  case A_done
  then show ?thesis using assms(1) by (simp add: HttpServer_run_step_def)
qed (use assms setup_ok in \<open>auto simp: HttpServer_run_step_def\<close>)

lemma connections_step: "connections_ok n s \<Longrightarrow> http_step m s = Some t \<Longrightarrow> connections_ok n t"
proof (cases m)
  case (Run_loop answer)
  moreover assume "connections_ok n s" "http_step m s = Some t"
  ultimately show ?thesis using connections_run by simp
next
  case (Handle i)
  moreover assume a: "connections_ok n s" "http_step m s = Some t"
  ultimately obtain p where p: "ThreadPool_work_step i (hc_pool s) = Some p" "t = s\<lparr>hc_pool := p\<rparr>" by auto
  have "tp_pool (hc_pool s) \<noteq> []" using p by (auto simp: ThreadPool_work_step_def split: if_splits)
  with a pool_ok_work [OF p(1), of "hc_pushed s"] work_step_length [OF p(1)] show ?thesis
    by (auto simp: p(2) connections_ok_def)
next
  case Http_shutdown
  moreover assume ok: "connections_ok n s" and "http_step m s = Some t"
  ultimately have t: "t = HttpServer_shutdown s" by simp
  show ?thesis using ok by (simp add: t HttpServer_shutdown_def connections_ok_def)
next
  case Http_drain
  moreover assume ok: "connections_ok n s" and "http_step m s = Some t"
  ultimately have t: "t = HttpServer_drain s" by simp
  show ?thesis using ok by (simp add: t HttpServer_drain_def connections_ok_def)
qed

lemma listening_setup:
  "listening_ok s \<Longrightarrow> hc_pc s = A_socket \<or> has_socket (hc_pc s) \<Longrightarrow> listening_ok (setup_server_socket ok s)"
  by (cases "hc_pc s") (auto simp: setup_server_socket_def close_listening_def listening_ok_def)

text \<open>The other steps do not touch the socket: they keep its fields and lead to no point of the set-up.\<close>

lemma listening_same:
  assumes "listening_ok s" and "\<not> has_socket (hc_pc s)" and "\<not> has_socket (hc_pc t)" and "\<not> setting_up (hc_pc t)"
    and "hc_listen_opened t = hc_listen_opened s" and "hc_listen_closed t = hc_listen_closed s"
    and "hc_server_open t = hc_server_open s" and "hc_stop_flag t = hc_stop_flag s"
  shows "listening_ok t"
proof -
  have "hc_pc t \<noteq> A_begin" "hc_pc t \<noteq> A_socket" using assms(4) by auto
  then show ?thesis using assms by (simp add: listening_ok_def)
qed

lemma listening_frame:
  assumes "listening_ok s" and "\<not> has_socket (hc_pc s)"
  shows "listening_ok (start_pool ok s)" "listening_ok (leave_loop s)" "listening_ok (setup_client_socket ok fd s)"
    "listening_ok (submit_client fd s)"
  by (rule listening_same [OF assms];
      simp add: start_pool_def leave_loop_def setup_client_socket_def submit_client_def
        split: prod.split bool.split submit_result.split)+

lemma listening_run:
  assumes "HttpServer_run_step answer s = Some t" and "listening_ok s"
  shows "listening_ok t"
proof (cases "setting_up (hc_pc s) \<and> hc_pc s \<noteq> A_pool")
  case True
  then consider (first) "hc_pc s = A_begin" | (call) "hc_pc s = A_socket \<or> has_socket (hc_pc s)"
    by (cases "hc_pc s") simp_all
  then show ?thesis
  proof cases
    case first
    with assms show ?thesis by (auto simp: HttpServer_run_step_def listening_ok_def)
  next
    case call
    then have "t = setup_server_socket answer s"
      using assms(1) by (cases "hc_pc s") (simp_all add: HttpServer_run_step_def)
    with listening_setup [OF assms(2) call] show ?thesis by simp
  qed
next
  case False
  then have no: "\<not> has_socket (hc_pc s)" by (cases "hc_pc s") simp_all
  note frame = listening_frame [OF assms(2) no] and same = listening_same [OF assms(2) no]
  show ?thesis
  proof (cases "hc_pc s")
    case A_accept
    with assms(1) frame show ?thesis
      by (auto simp: HttpServer_run_step_def split: if_splits intro: same)
  next
    case A_joining
    with assms(1) show ?thesis by (intro same) (auto simp: HttpServer_run_step_def)
  next
    case A_loop
    with assms(1) frame show ?thesis
      by (cases "hc_stop_flag s") (auto simp: HttpServer_run_step_def intro: same)
  next
    case A_no_fd
    with assms(1) frame show ?thesis
      by (cases "hc_stop_flag s") (auto simp: HttpServer_run_step_def intro: same)
  next
    case A_server_fd
    with assms(1) show ?thesis by (cases "hc_server_open s"; intro same) (auto simp: HttpServer_run_step_def)
  next
    case (A_reject fd code)
    with assms(1) show ?thesis by (intro same) (auto simp: HttpServer_run_step_def)
  qed (use assms(1) frame False in \<open>auto simp: HttpServer_run_step_def\<close>)
qed

lemma listening_step: "listening_ok s \<Longrightarrow> http_step m s = Some t \<Longrightarrow> listening_ok t"
proof (cases m)
  case (Run_loop answer)
  moreover assume "listening_ok s" "http_step m s = Some t"
  ultimately show ?thesis using listening_run by simp
next
  case (Handle i)
  moreover assume "listening_ok s" "http_step m s = Some t"
  ultimately show ?thesis by (simp add: listening_ok_def) force
next
  case Http_shutdown
  moreover assume ok: "listening_ok s" and "http_step m s = Some t"
  ultimately have t: "t = HttpServer_shutdown s" by simp
  show ?thesis using ok by (cases "hc_server_open s") (auto simp: t HttpServer_shutdown_def listening_ok_def)
next
  case Http_drain
  moreover assume ok: "listening_ok s" and "http_step m s = Some t"
  ultimately have t: "t = HttpServer_drain s" by simp
  show ?thesis using ok by (auto simp: t HttpServer_drain_def listening_ok_def)
qed

interpretation connections: invariant http_step "connections_ok n" for n
  by unfold_locales (rule connections_step)

interpretation listening: invariant http_step listening_ok
  by unfold_locales (rule listening_step)

lemma connections_start: "connections_ok n (http_connections_init m queue_size n)"
  by (simp add: connections_ok_def http_connections_init_def ThreadPool_init_def JobQueue_init_def pool_ok_def
      in_progress_def)

lemma listening_start: "listening_ok (http_connections_init m queue_size n)"
  by (simp add: listening_ok_def http_connections_init_def)

lemmas connections_reach = connections.reach_keeps [OF _ connections_start]
lemmas listening_reach = listening.reach_keeps [OF _ listening_start]

text \<open>The seven steps from the start of \<^verbatim>\<open>run\<close> to its loop, when every call succeeds.\<close>

definition setup_moves :: "http_move list" where
  "setup_moves = replicate 7 (Run_loop True)"

definition http_serving :: "queue_metrics \<Rightarrow> nat \<Rightarrow> nat \<Rightarrow> http_connections" where
  "http_serving m queue_size num_threads =
     \<lparr>hc_pool = started Fifo m queue_size num_threads, hc_stop_flag = False,
      hc_drain_flag = False, hc_listen_opened = 1, hc_listen_closed = 0, hc_server_open = True,
      hc_pc = A_loop, hc_accepted = 0, hc_pushed = [], hc_refused = [], hc_closed = []\<rparr>"

lemma run_setup:
  "run http_step (setup_moves @ ms) (http_connections_init m queue_size n)
   = run http_step ms (http_serving m queue_size n)"
proof -
  have s: "ThreadPool_start (\<lambda>i. True) (ThreadPool_init Fifo m queue_size n) = (True, started Fifo m queue_size n)"
    by (simp add: started_eq ThreadPool_start_def ThreadPool_spawn_eq ThreadPool_init_def)
  have r: "setup_moves = [Run_loop True, Run_loop True, Run_loop True, Run_loop True, Run_loop True,
      Run_loop True, Run_loop True]"
    by (simp add: setup_moves_def numeral_eq_Suc)
  show ?thesis
    unfolding r http_connections_init_def http_serving_def
    by (simp add: HttpServer_run_step_def setup_server_socket_def start_pool_def s)
qed

subsection \<open>Properties\<close>

text \<open>C26: No connection is lost or closed twice. At every moment of every interleaving of the accept loop,
  the workers and \<^verbatim>\<open>shutdown\<close>, the accepted connections are those closed by the loop, closed by a
  worker, queued, being handled, and the one the loop has in hand, each exactly once.\<close>

theorem http_connections_accounted:
  assumes "reach http_step (http_connections_init m queue_size n) s"
  shows "mset [0..<hc_accepted s] = mset (hc_closed s) + mset (tp_done (hc_pool s))
      + mset (jq_container (tp_queue (hc_pool s))) + in_progress (hc_pool s) + held (hc_pc s)
    \<and> distinct (hc_closed s @ tp_done (hc_pool s))"
proof -
  have eq: "mset [0..<hc_accepted s] = mset (hc_closed s) + mset (tp_done (hc_pool s))
      + mset (jq_container (tp_queue (hc_pool s))) + in_progress (hc_pool s) + held (hc_pc s)"
    using connections_reach [OF assms] by (simp add: connections_ok_def pool_ok_def ac_simps)
  then have "mset (hc_closed s @ tp_done (hc_pool s)) \<subseteq># mset [0..<hc_accepted s]" by simp
  then have "distinct (hc_closed s @ tp_done (hc_pool s))"
    by (rule distinct_submultiset) simp
  with eq show ?thesis by blast
qed

text \<open>C27: When \<^verbatim>\<open>run\<close> has returned, every accepted connection has been closed, those still queued at the
  shutdown included, provided that the pool has a thread; and once \<^verbatim>\<open>shutdown\<close> was called, the listening
  socket, if one was opened, has been closed exactly once, wherever in the set-up it came.\<close>

theorem http_run_closes_all:
  assumes "reach http_step (http_connections_init m queue_size n) s" and "hc_pc s = A_done" and "0 < n"
  shows "mset (hc_closed s @ tp_done (hc_pool s)) = mset [0..<hc_accepted s]
    \<and> (hc_stop_flag s \<longrightarrow> hc_listen_closed s = hc_listen_opened s \<and> hc_listen_opened s \<le> 1)"
proof
  show "mset (hc_closed s @ tp_done (hc_pool s)) = mset [0..<hc_accepted s]"
    using connections_reach [OF assms(1)] assms(2,3) by (simp add: connections_ok_def ac_simps)
  show "hc_stop_flag s \<longrightarrow> hc_listen_closed s = hc_listen_opened s \<and> hc_listen_opened s \<le> 1"
    using listening_reach [OF assms(1)] assms(2) by (simp add: listening_ok_def)
qed

lemma drain_flag_frame [simp]:
  "hc_drain_flag (setup_server_socket ok s) = hc_drain_flag s"
  "hc_drain_flag (start_pool ok s) = hc_drain_flag s"
  "hc_drain_flag (leave_loop s) = hc_drain_flag s"
  "hc_drain_flag (setup_client_socket ok fd s) = hc_drain_flag s"
  "hc_drain_flag (submit_client fd s) = hc_drain_flag s"
  by (simp_all add: setup_server_socket_def close_listening_def start_pool_def leave_loop_def
      setup_client_socket_def submit_client_def split: accept_pc.split prod.split bool.split submit_result.split)

lemma drain_flag_step:
  assumes "http_step m s = Some t" and "m \<noteq> Http_drain" and "\<not> hc_drain_flag s"
  shows "\<not> hc_drain_flag t"
proof (cases m)
  case (Run_loop answer)
  with assms show ?thesis
    by (cases "hc_pc s") (auto simp: HttpServer_run_step_def split: if_splits)
qed (use assms in \<open>auto simp: HttpServer_shutdown_def\<close>)

lemma drain_flag_stays:
  "run http_step ms s = Some t \<Longrightarrow> Http_drain \<notin> set ms \<Longrightarrow> \<not> hc_drain_flag s \<Longrightarrow> \<not> hc_drain_flag t"
  by (induction ms arbitrary: s) (auto split: option.splits dest: drain_flag_step)

text \<open>A drain that comes before the thread of \<^verbatim>\<open>run\<close> has taken its first step is lost: that step resets the
  flag, and however the server goes on, it takes new scans until it is closed.\<close>

theorem http_early_drain_lost:
  assumes "run http_step (Http_drain # Run_loop answer # ms) (http_connections_init m queue_size n) = Some s"
    and "Http_drain \<notin> set ms"
  shows "\<not> hc_drain_flag s"
proof (rule drain_flag_stays)
  show "run http_step ms ((http_connections_init m queue_size n)\<lparr>hc_pc := A_socket\<rparr>) = Some s"
    using assms(1) by (simp add: HttpServer_drain_def HttpServer_run_step_def http_connections_init_def)
qed (use assms(2) in \<open>simp_all add: http_connections_init_def\<close>)

definition leaked :: "http_connections \<Rightarrow> bool" where
  "leaked s \<longleftrightarrow> hc_pc s = A_done \<and> tp_pool (hc_pool s) = [] \<and> jq_container (tp_queue (hc_pool s)) = [0]
     \<and> hc_closed s = [] \<and> tp_done (hc_pool s) = []"

lemma leaked_step: "leaked s \<Longrightarrow> http_step m s = Some t \<Longrightarrow> leaked t"
  by (cases m) (auto simp: leaked_def HttpServer_run_step_def HttpServer_shutdown_def HttpServer_drain_def
      ThreadPool_work_step_def)

interpretation leak: invariant http_step leaked
  by unfold_locales (rule leaked_step)

text \<open>Without a thread, which the configuration allows, a client can wait for ever: its connection is
  accepted and queued, \<^verbatim>\<open>run\<close> returns after a shutdown with it in the queue, neither answered nor
  closed, and nothing that happens later changes this.\<close>

theorem http_no_worker_leaks:
  "\<exists>s. reach http_step (http_connections_init m 1 0) s \<and> hc_accepted s = 1
     \<and> (\<forall>t. reach http_step s t \<longrightarrow> hc_pc t = A_done \<and> jq_container (tp_queue (hc_pool t)) = [0]
          \<and> hc_closed t @ tp_done (hc_pool t) = [])"
proof -
  let ?ms = "setup_moves @ [Run_loop False, Run_loop False, Run_loop True, Run_loop True, Run_loop False,
    Http_shutdown, Run_loop False, Run_loop False]"
  obtain s where s: "run http_step ?ms (http_connections_init m 1 0) = Some s" "hc_accepted s = 1" "leaked s"
    unfolding run_setup
    by (simp add: http_serving_def HttpServer_run_step_def setup_client_socket_def submit_client_def
        leave_loop_def HttpServer_shutdown_def started_eq ThreadPool_init_def ThreadPool_submit_def
        JobQueue_init_def jq_op_defs ThreadPool_shutdown_begin_def ThreadPool_join_def leaked_def)
  then have "reach http_step (http_connections_init m 1 0) s" by (blast intro: run_reach_start)
  with s(2,3) leak.reach_keeps show ?thesis by (auto simp: leaked_def)
qed

subsection \<open>Witnesses\<close>

text \<open>Two clients and room for one: the first is handled, the second refused with 429.\<close>

definition demo_clients :: "http_move list" where
  "demo_clients = setup_moves @ concat (replicate 2 [Run_loop False, Run_loop False, Run_loop True, Run_loop True, Run_loop False])
     @ [Run_loop False]"

lemmas demo_http = http_serving_def HttpServer_run_step_def setup_client_socket_def
  submit_client_def leave_loop_def HttpServer_shutdown_def started_eq ThreadPool_init_def ThreadPool_submit_def
  JobQueue_init_def jq_op_defs ThreadPool_shutdown_begin_def ThreadPool_join_def ThreadPool_work_step_def
  numeral_2_eq_2

theorem http_connections_accounted_witness:
  "\<exists>s. reach http_step (http_connections_init zero_metrics 1 1) s \<and> hc_refused s = [(1, 429)]
     \<and> mset [0..<2] = mset (hc_closed s) + mset (tp_done (hc_pool s))
         + mset (jq_container (tp_queue (hc_pool s))) + in_progress (hc_pool s) + held (hc_pc s)"
proof -
  obtain s where s: "run http_step demo_clients (http_connections_init zero_metrics 1 1) = Some s"
      "hc_accepted s = 2" "hc_refused s = [(1, 429)]"
    unfolding demo_clients_def append_assoc run_setup by (simp add: demo_http)
  note r = run_reach_start [OF s(1)]
  from http_connections_accounted [OF r] r s show ?thesis by auto
qed

theorem http_run_closes_all_witness:
  "\<exists>s. reach http_step (http_connections_init zero_metrics 1 1) s \<and> hc_pc s = A_done
     \<and> mset (hc_closed s @ tp_done (hc_pool s)) = mset [0..<2] \<and> hc_listen_closed s = hc_listen_opened s"
proof -
  obtain s where s: "run http_step (demo_clients @ [Http_shutdown, Run_loop False, Handle 0, Handle 0, Handle 0, Handle 0,
        Run_loop False]) (http_connections_init zero_metrics 1 1) = Some s" "hc_pc s = A_done" "hc_accepted s = 2"
      "hc_stop_flag s"
    unfolding demo_clients_def append_assoc run_setup by (simp add: demo_http)
  note r = run_reach_start [OF s(1)]
  from http_run_closes_all [OF r s(2)] r s(2-4) show ?thesis by auto
qed

theorem http_no_worker_leaks_witness:
  "\<exists>s. reach http_step (http_connections_init zero_metrics 1 0) s \<and> hc_accepted s = 1
     \<and> hc_pc s = A_done \<and> jq_container (tp_queue (hc_pool s)) = [0] \<and> hc_closed s = []"
proof -
  obtain s where "reach http_step (http_connections_init zero_metrics 1 0) s" "hc_accepted s = 1"
      "\<forall>t. reach http_step s t \<longrightarrow> hc_pc t = A_done \<and> jq_container (tp_queue (hc_pool t)) = [0]
          \<and> hc_closed t @ tp_done (hc_pool t) = []"
    using http_no_worker_leaks [of zero_metrics] by blast
  then show ?thesis by (blast intro: reach_start)
qed

theorem http_early_drain_lost_witness:
  "\<exists>s. run http_step [Http_drain, Run_loop True] (http_connections_init zero_metrics 1 1) = Some s
     \<and> \<not> hc_drain_flag s"
proof -
  obtain s where s: "run http_step [Http_drain, Run_loop True] (http_connections_init zero_metrics 1 1) = Some s"
    by (simp add: HttpServer_run_step_def HttpServer_drain_def http_connections_init_def)
  with http_early_drain_lost [of True "[]" zero_metrics 1 1 s] show ?thesis by simp
qed

end
