(* ===== verification/Config.thy ===== *)
theory Config
  imports Text_Numbers
begin

section \<open>Configuration (src/utils/config.h, config.cpp)\<close>

text \<open>
  The settings and \<^verbatim>\<open>Config::load\<close>: an INI file read line by line into them. A setting is a
  field at its width; \<^verbatim>\<open>size_t\<close> is \<^typ>\<open>u64\<close>, the \<^verbatim>\<open>int\<close> \<^typ>\<open>i32\<close>. An exception of a conversion
  leaves the settings as they are; the key that \<^verbatim>\<open>std::cerr\<close> then reports is kept.
\<close>

subsection \<open>The settings\<close>

record daemon_config =
  user_download_sec :: u16

record http_server_config =
  fd_queue_max_size :: u64
  fd_pool_num_threads :: u64
  cfg_frontend_path :: string
  cfg_server_port :: u16

record manager_config =
  scan_queue_max_size :: u64
  scan_pool_num_threads :: u64

record scheduler_config =
  sched_queue_max_size :: u64
  cfg_max_concurrent_scan :: i32

record async_logger_config =
  log_queue_max_size :: u64
  log_dir :: string

record export_manager_config =
  cfg_que_size :: u64

record db_config =
  cfg_db_path :: string
  cfg_batch_size :: u16
  cfg_fsync :: bool

record config =
  c_daemon :: daemon_config
  c_httpserver :: http_server_config
  c_scheduler :: scheduler_config
  c_manager :: manager_config
  c_asynclogger :: async_logger_config
  c_exportmanager :: export_manager_config
  c_db :: db_config

definition Config_default :: config where
  "Config_default = \<lparr>
     c_daemon = \<lparr>user_download_sec = 300\<rparr>,
     c_httpserver = \<lparr>fd_queue_max_size = 1024, fd_pool_num_threads = 4,
       cfg_frontend_path = ''./web/index.html'', cfg_server_port = 8080\<rparr>,
     c_scheduler = \<lparr>sched_queue_max_size = 64, cfg_max_concurrent_scan = 3\<rparr>,
     c_manager = \<lparr>scan_queue_max_size = 1024, scan_pool_num_threads = 4\<rparr>,
     c_asynclogger = \<lparr>log_queue_max_size = 8192, log_dir = []\<rparr>,
     c_exportmanager = \<lparr>cfg_que_size = 524288\<rparr>,
     c_db = \<lparr>cfg_db_path = [], cfg_batch_size = 16384, cfg_fsync = False\<rparr>\<rparr>"

subsection \<open>Text\<close>

definition blank :: "char \<Rightarrow> bool" where
  "blank c \<longleftrightarrow> c = CHR '' '' \<or> c = CHR 0x09 \<or> c = CHR 0x0D \<or> c = CHR 0x0A"

definition trim :: "string \<Rightarrow> string" where
  "trim str = rev (dropWhile blank (rev (dropWhile blank str)))"

definition to_lower :: "string \<Rightarrow> string" where
  "to_lower s = map (\<lambda>c. if is_upper c then char_of ((of_char c :: nat) + 32) else c) s"

text \<open>\<^verbatim>\<open>clamp\<close>; the numbers compared are those of the wider type, the result is cast to the narrower.\<close>

definition Config_clamp :: "int \<Rightarrow> int \<Rightarrow> int \<Rightarrow> 'a::len word" where
  "Config_clamp old new_min new_max =
     word_of_int (if old < new_min then new_min else if new_max < old then new_max else old)"

definition clamp_u16 :: "int \<Rightarrow> u16" where
  "clamp_u16 n = Config_clamp n 0 (2 ^ 16 - 1)"

definition clamp_size :: "int \<Rightarrow> u64" where
  "clamp_size n = Config_clamp n 0 (2 ^ 64 - 1)"

subsection \<open>One setting\<close>

text \<open>The chain of sections and keys inside the \<^verbatim>\<open>try\<close>; \<^term>\<open>None\<close> is the exception. A section or key
  that is not known changes nothing.\<close>

definition Config_daemon_key :: "string \<Rightarrow> string \<Rightarrow> daemon_config \<Rightarrow> daemon_config option" where
  "Config_daemon_key key val d =
     (if key = ''user_download_sec''
      then map_option (\<lambda>n. d\<lparr>user_download_sec := clamp_u16 n\<rparr>) (stoi val)
      else Some d)"

definition Config_httpserver_key ::
    "string \<Rightarrow> string \<Rightarrow> http_server_config \<Rightarrow> http_server_config option" where
  "Config_httpserver_key key val h =
     (if key = ''server_port''
      then map_option (\<lambda>n. h\<lparr>cfg_server_port := clamp_u16 n\<rparr>) (stoi val)
      else if key = ''frontend_path'' then Some (h\<lparr>cfg_frontend_path := val\<rparr>)
      else if key = ''fd_queue_max_size'' \<or> key = ''queue_max_size''
      then map_option (\<lambda>n. h\<lparr>fd_queue_max_size := clamp_size n\<rparr>) (stoull val)
      else if key = ''fd_pool_num_threads'' \<or> key = ''pool_num_threads''
      then map_option (\<lambda>n. h\<lparr>fd_pool_num_threads := clamp_size n\<rparr>) (stoull val)
      else Some h)"

definition Config_scheduler_key :: "string \<Rightarrow> string \<Rightarrow> scheduler_config \<Rightarrow> scheduler_config option" where
  "Config_scheduler_key key val s =
     (if key = ''max_concurrent_scan''
      then map_option (\<lambda>n. s\<lparr>cfg_max_concurrent_scan := (if 0 < n then word_of_int n else 1)\<rparr>) (stoi val)
      else if key = ''queue_max_size'' \<or> key = ''pending_queue_max_size''
      then map_option (\<lambda>n. s\<lparr>sched_queue_max_size := clamp_size n\<rparr>) (stoull val)
      else Some s)"

definition Config_asynclogger_key ::
    "string \<Rightarrow> string \<Rightarrow> async_logger_config \<Rightarrow> async_logger_config option" where
  "Config_asynclogger_key key val l =
     (if key = ''log_dir'' then Some (l\<lparr>log_dir := val\<rparr>)
      else if key = ''queue_max_size''
      then map_option (\<lambda>n. l\<lparr>log_queue_max_size := clamp_size n\<rparr>) (stoull val)
      else Some l)"

definition Config_exportmanager_key ::
    "string \<Rightarrow> string \<Rightarrow> export_manager_config \<Rightarrow> export_manager_config option" where
  "Config_exportmanager_key key val e =
     (if key = ''que_size'' \<or> key = ''queue_size''
      then map_option (\<lambda>n. e\<lparr>cfg_que_size := clamp_size n\<rparr>) (stoull val)
      else Some e)"

definition Config_manager_key :: "string \<Rightarrow> string \<Rightarrow> manager_config \<Rightarrow> manager_config option" where
  "Config_manager_key key val m =
     (if key = ''scan_queue_max_size'' \<or> key = ''queue_max_size''
      then map_option (\<lambda>n. m\<lparr>scan_queue_max_size := clamp_size n\<rparr>) (stoull val)
      else if key = ''scan_pool_num_threads'' \<or> key = ''pool_num_threads''
      then map_option (\<lambda>n. m\<lparr>scan_pool_num_threads := clamp_size n\<rparr>) (stoull val)
      else Some m)"

definition Config_db_key :: "string \<Rightarrow> string \<Rightarrow> db_config \<Rightarrow> db_config option" where
  "Config_db_key key val d =
     (if key = ''db_path'' \<or> key = ''path'' then Some (d\<lparr>cfg_db_path := val\<rparr>)
      else if key = ''batch_size'' \<or> key = ''batch''
      then map_option (\<lambda>n. d\<lparr>cfg_batch_size := clamp_u16 n\<rparr>) (stoull val)
      else if key = ''fsync'' \<or> key = ''synchronous''
      then Some (d\<lparr>cfg_fsync := (to_lower val \<noteq> ''false'')\<rparr>)
      else Some d)"

definition Config_apply :: "string \<Rightarrow> string \<Rightarrow> string \<Rightarrow> config \<Rightarrow> config option" where
  "Config_apply sec key val c =
     (if sec = ''daemon''
      then map_option (\<lambda>d. c\<lparr>c_daemon := d\<rparr>) (Config_daemon_key key val (c_daemon c))
      else if sec = ''httpserver''
      then map_option (\<lambda>h. c\<lparr>c_httpserver := h\<rparr>) (Config_httpserver_key key val (c_httpserver c))
      else if sec = ''scheduler''
      then map_option (\<lambda>s. c\<lparr>c_scheduler := s\<rparr>) (Config_scheduler_key key val (c_scheduler c))
      else if sec = ''asynclogger'' \<or> sec = ''async_logger''
      then map_option (\<lambda>l. c\<lparr>c_asynclogger := l\<rparr>) (Config_asynclogger_key key val (c_asynclogger c))
      else if sec = ''exportmanager'' \<or> sec = ''export_manager''
      then map_option (\<lambda>e. c\<lparr>c_exportmanager := e\<rparr>)
             (Config_exportmanager_key key val (c_exportmanager c))
      else if sec = ''manager''
      then map_option (\<lambda>m. c\<lparr>c_manager := m\<rparr>) (Config_manager_key key val (c_manager c))
      else if sec = ''db'' \<or> sec = ''DB''
      then map_option (\<lambda>d. c\<lparr>c_db := d\<rparr>) (Config_db_key key val (c_db c))
      else if sec = ''threadpool''
      then (if key = ''num_threads'' \<or> key = ''pool_num_threads''
            then map_option (\<lambda>i. let n = clamp_size i in
                   c\<lparr>c_manager := (c_manager c)\<lparr>scan_pool_num_threads := n\<rparr>,
                     c_httpserver := (c_httpserver c)\<lparr>fd_pool_num_threads := n\<rparr>\<rparr>) (stoull val)
            else Some c)
      else if sec = ''jobqueue''
      then (if key = ''max_size'' \<or> key = ''queue_max_size''
            then map_option (\<lambda>i. let n = clamp_size i in
                   c\<lparr>c_manager := (c_manager c)\<lparr>scan_queue_max_size := n\<rparr>,
                     c_httpserver := (c_httpserver c)\<lparr>fd_queue_max_size := n\<rparr>\<rparr>) (stoull val)
            else Some c)
      else Some c)"

subsection \<open>The loop over the lines\<close>

record config_loading =
  cl_section :: string
  cl_config :: config
  cl_invalid :: "string list"

definition Config_cut_comment :: "string \<Rightarrow> string" where
  "Config_cut_comment line = takeWhile (\<lambda>c. c \<noteq> CHR ''#'' \<and> c \<noteq> CHR '';'') line"

definition Config_unquote :: "string \<Rightarrow> string" where
  "Config_unquote val =
     (if 2 \<le> length val \<and> hd val = CHR 0x22 \<and> last val = CHR 0x22
      then substr val 1 (length val - 2) else val)"

definition Config_set :: "string \<Rightarrow> string \<Rightarrow> config_loading \<Rightarrow> config_loading" where
  "Config_set key val l =
     (let (sec, key') =
        (if cl_section l = [] then
           (case str_find ''.'' key of
              None \<Rightarrow> ([], key)
            | Some dot \<Rightarrow> (take dot key, drop (dot + 1) key))
         else (cl_section l, key))
      in case Config_apply sec key' val (cl_config l) of
           None \<Rightarrow> l\<lparr>cl_invalid := cl_invalid l @ [key']\<rparr>
         | Some c \<Rightarrow> l\<lparr>cl_config := c\<rparr>)"

definition Config_line :: "string \<Rightarrow> config_loading \<Rightarrow> config_loading" where
  "Config_line raw l =
     (let line = trim (Config_cut_comment raw) in
      if line = [] then l
      else if hd line = CHR ''['' \<and> last line = CHR '']''
      then l\<lparr>cl_section := to_lower (trim (substr line 1 (length line - 2)))\<rparr>
      else (case str_find ''='' line of
              None \<Rightarrow> l
            | Some equal_pos \<Rightarrow>
                Config_set (to_lower (trim (take equal_pos line)))
                  (Config_unquote (trim (drop (equal_pos + 1) line))) l))"

text \<open>\<^verbatim>\<open>load\<close>: \<open>file\<close> is the text of the file, \<^term>\<open>None\<close> if it cannot be opened.\<close>

definition Config_load :: "string option \<Rightarrow> config \<Rightarrow> bool \<times> config \<times> string list" where
  "Config_load file c =
     (case file of
        None \<Rightarrow> (False, c, [])
      | Some text \<Rightarrow>
          (let l = fold Config_line (getline_tokens (CHR 0x0A) [] text)
                     \<lparr>cl_section = [], cl_config = c, cl_invalid = []\<rparr>
           in (True, cl_config l, cl_invalid l)))"

end
