(* ===== verification/Config_Properties.thy ===== *)
theory Config_Properties
  imports Config Job_Queue
begin

section \<open>Configuration: what loading guarantees\<close>

text \<open>
  Lines of a given form and what one of them does to the settings; from these the round trip of a
  complete file, the settings that no file can spoil, and the values that are accepted although
  the program cannot work with them.
\<close>

subsection \<open>Lines of a given form\<close>

definition plain_char :: "char \<Rightarrow> bool" where
  "plain_char c \<longleftrightarrow> 97 \<le> (of_char c :: nat) \<and> (of_char c :: nat) \<le> 122 \<or> c = CHR ''_''"

definition plain_name :: "string \<Rightarrow> bool" where
  "plain_name k \<longleftrightarrow> k \<noteq> [] \<and> list_all plain_char k"

text \<open>A text that a value may have as it stands: no comment in it, no blank at its ends.\<close>

definition value_ok :: "string \<Rightarrow> bool" where
  "value_ok v \<longleftrightarrow> v \<noteq> [] \<and> \<not> blank (hd v) \<and> \<not> blank (last v)
     \<and> CHR ''#'' \<notin> set v \<and> CHR '';'' \<notin> set v"

lemma plain_char_not:
  "plain_char c \<Longrightarrow> \<not> blank c \<and> \<not> is_upper c \<and> c \<noteq> CHR ''#'' \<and> c \<noteq> CHR '';'' \<and> c \<noteq> CHR ''=''
     \<and> c \<noteq> CHR ''['' \<and> c \<noteq> CHR ''.'' \<and> c \<noteq> CHR 0x0A"
  by (auto simp: plain_char_def blank_def is_upper_def)

lemma trim_id: "s \<noteq> [] \<Longrightarrow> \<not> blank (hd s) \<Longrightarrow> \<not> blank (last s) \<Longrightarrow> trim s = s"
proof -
  assume a: "s \<noteq> []" "\<not> blank (hd s)" "\<not> blank (last s)"
  then have "dropWhile blank s = s" by (cases s) auto
  moreover have "dropWhile blank (rev s) = rev s" using a by (cases s rule: rev_cases) auto
  ultimately show ?thesis by (simp add: trim_def)
qed

lemma trim_blanks:
  assumes "s \<noteq> []" and "\<not> blank (hd s)" and "\<not> blank (last s)"
  shows "trim ('' '' @ s) = s" and "trim (s @ '' '') = s"
proof -
  have "dropWhile blank s = s" using assms by (cases s) auto
  moreover have "dropWhile blank (rev s) = rev s" using assms by (cases s rule: rev_cases) auto
  moreover have "dropWhile blank (s @ '' '') = s @ '' ''" using assms by (cases s) auto
  ultimately show "trim ('' '' @ s) = s" and "trim (s @ '' '') = s" by (simp_all add: trim_def blank_def)
qed

lemma plain_name_facts:
  assumes "plain_name k"
  shows "k \<noteq> []" "\<not> blank (hd k)" "\<not> blank (last k)" "to_lower k = k" "CHR ''='' \<notin> set k"
    "CHR ''#'' \<notin> set k" "CHR '';'' \<notin> set k" "hd k \<noteq> CHR ''[''" "CHR 0x0A \<notin> set k"
proof -
  have p: "plain_char c" if "c \<in> set k" for c using assms that by (auto simp: plain_name_def list_all_iff)
  show ne: "k \<noteq> []" using assms by (simp add: plain_name_def)
  show "\<not> blank (hd k)" "\<not> blank (last k)" "hd k \<noteq> CHR ''[''" using ne p plain_char_not by auto
  show "CHR ''='' \<notin> set k" "CHR ''#'' \<notin> set k" "CHR '';'' \<notin> set k" "CHR 0x0A \<notin> set k"
    using p plain_char_not by blast+
  show "to_lower k = k" using p plain_char_not by (auto simp: to_lower_def intro!: map_idI)
qed

lemma cut_comment_id:
  "CHR ''#'' \<notin> set s \<Longrightarrow> CHR '';'' \<notin> set s \<Longrightarrow> Config_cut_comment s = s"
  by (auto simp: Config_cut_comment_def)

lemma section_line:
  assumes "plain_name s"
  shows "Config_line (''['' @ s @ '']'') l = l\<lparr>cl_section := s\<rparr>"
proof -
  note f = plain_name_facts [OF assms]
  have "Config_cut_comment (''['' @ s @ '']'') = ''['' @ s @ '']''"
    using f by (intro cut_comment_id) auto
  moreover have "trim (''['' @ s @ '']'') = ''['' @ s @ '']''" by (intro trim_id) (simp_all add: blank_def)
  moreover have "substr (''['' @ s @ '']'') 1 (length (''['' @ s @ '']'') - 2) = s" by (simp add: substr_def)
  ultimately show ?thesis
    unfolding Config_line_def Let_def using f by (simp add: trim_id)
qed

lemma key_line:
  assumes "plain_name k" and "value_ok v"
  shows "Config_line (k @ '' = '' @ v) l = Config_set k (Config_unquote v) l"
proof -
  note f = plain_name_facts [OF assms(1)]
  note v = assms(2) [unfolded value_ok_def]
  let ?x = "k @ '' = '' @ v"
  have "Config_cut_comment ?x = ?x" using f v by (intro cut_comment_id) auto
  moreover have "trim ?x = ?x" using f v by (intro trim_id) auto
  moreover have "str_find ''='' (k @ '' '' @ ''='' @ '' '' @ v) = Some (length (k @ '' ''))"
  proof -
    have "c \<noteq> CHR ''=''" if "c \<in> set (k @ '' '')" for c using f(5) that by auto
    then show ?thesis using str_find_skip [of "k @ '' ''" "''=''" "'' '' @ v"] by simp
  qed
  ultimately show ?thesis
    unfolding Config_line_def Let_def using f v trim_blanks [of k] trim_blanks [of v] by simp
qed

subsection \<open>Writing the settings\<close>

definition quoted :: "string \<Rightarrow> string" where
  "quoted s = CHR 0x22 # s @ [CHR 0x22]"

definition section_head :: "string \<Rightarrow> string" where
  "section_head s = ''['' @ s @ '']''"

definition setting :: "string \<Rightarrow> string \<Rightarrow> string" where
  "setting k v = k @ '' = '' @ v"

definition size_text :: "u64 \<Rightarrow> string" where
  "size_text w = to_string_nat (unat w)"

text \<open>The file that an operator writes for given settings, one line for each.\<close>

definition config_lines :: "config \<Rightarrow> string list" where
  "config_lines c =
    [section_head ''daemon'',
     setting ''user_download_sec'' (to_string_nat (unat (user_download_sec (c_daemon c)))),
     section_head ''httpserver'',
     setting ''server_port'' (to_string_nat (unat (cfg_server_port (c_httpserver c)))),
     setting ''frontend_path'' (quoted (cfg_frontend_path (c_httpserver c))),
     setting ''fd_queue_max_size'' (size_text (fd_queue_max_size (c_httpserver c))),
     setting ''fd_pool_num_threads'' (size_text (fd_pool_num_threads (c_httpserver c))),
     section_head ''scheduler'',
     setting ''max_concurrent_scan'' (to_string (sint (cfg_max_concurrent_scan (c_scheduler c)))),
     setting ''queue_max_size'' (size_text (sched_queue_max_size (c_scheduler c))),
     section_head ''manager'',
     setting ''scan_queue_max_size'' (size_text (scan_queue_max_size (c_manager c))),
     setting ''scan_pool_num_threads'' (size_text (scan_pool_num_threads (c_manager c))),
     section_head ''asynclogger'',
     setting ''log_dir'' (quoted (log_dir (c_asynclogger c))),
     setting ''queue_max_size'' (size_text (log_queue_max_size (c_asynclogger c))),
     section_head ''export_manager'',
     setting ''que_size'' (size_text (cfg_que_size (c_exportmanager c))),
     section_head ''db'',
     setting ''db_path'' (quoted (cfg_db_path (c_db c))),
     setting ''batch_size'' (to_string_nat (unat (cfg_batch_size (c_db c)))),
     setting ''fsync'' (if cfg_fsync (c_db c) then ''true'' else ''false'')]"

definition config_text :: "config \<Rightarrow> string" where
  "config_text c = concat (map (\<lambda>l. l @ [CHR 0x0A]) (config_lines c))"

text \<open>A path that an INI line can hold.\<close>

definition path_value :: "string \<Rightarrow> bool" where
  "path_value s \<longleftrightarrow> CHR ''#'' \<notin> set s \<and> CHR '';'' \<notin> set s \<and> CHR 0x0A \<notin> set s"

lemma getline_lines:
  "list_all (\<lambda>l. d \<notin> set l) ls \<Longrightarrow> getline_tokens d [] (concat (map (\<lambda>l. l @ [d]) ls)) = ls"
  by (induction ls) (simp_all add: getline_token)

lemma quoted_ok: "path_value s \<Longrightarrow> value_ok (quoted s) \<and> Config_unquote (quoted s) = s"
  by (simp add: path_value_def value_ok_def quoted_def blank_def Config_unquote_def substr_def)

lemma number_ok:
  "value_ok (to_string_nat n) \<and> Config_unquote (to_string_nat n) = to_string_nat n
     \<and> CHR 0x0A \<notin> set (to_string_nat n)"
proof -
  have d: "list_all is_digit (to_string_nat n)" "to_string_nat n \<noteq> []" using to_string_digits by simp_all
  have c: "\<not> blank c \<and> c \<noteq> CHR ''#'' \<and> c \<noteq> CHR '';'' \<and> c \<noteq> CHR 0x22 \<and> c \<noteq> CHR 0x0A"
    if "is_digit c" for c using that by (auto simp: is_digit_def blank_def)
  have "is_digit c" if "c \<in> set (to_string_nat n)" for c using d that by (simp add: list_all_iff)
  with c d show ?thesis by (auto simp: value_ok_def Config_unquote_def)
qed

lemma clamp_size_eq: "0 \<le> n \<Longrightarrow> n < 2 ^ 64 \<Longrightarrow> clamp_size n = word_of_int n"
  by (simp add: clamp_size_def Config_clamp_def)

lemma clamp_size_id: "clamp_size (uint w) = w"
proof -
  have "uint w < 2 ^ 64" using unsigned_less [of w, where 'a = int] by simp
  then show ?thesis by (simp add: clamp_size_def Config_clamp_def)
qed

lemma clamp_u16_id: "clamp_u16 (uint w) = w"
proof -
  have "uint w < 2 ^ 16" using unsigned_less [of w, where 'a = int] by simp
  then show ?thesis by (simp add: clamp_u16_def Config_clamp_def)
qed

lemma stoull_size: "stoull (size_text w) = Some (int (unat w))"
  using unsigned_less [of w, where 'a = nat] by (simp add: size_text_def stoull_to_string)

lemma stoi_u16: "stoi (to_string_nat (unat (w :: u16))) = Some (int (unat w))"
  and stoull_u16: "stoull (to_string_nat (unat (w :: u16))) = Some (int (unat w))"
  using unsigned_less [of w, where 'a = nat] by (simp_all add: stoi_to_string stoull_to_string)

lemma stoi_i32:
  assumes "0 < sint (w :: i32)"
  shows "stoi (to_string (sint w)) = Some (sint w)"
proof -
  have "sint w < 2 ^ 31" using sint_lt [of w] by simp
  then show ?thesis using assms by (simp add: to_string_def stoi_to_string nat_less_iff)
qed

lemma to_string_ok:
  "0 \<le> n \<Longrightarrow> value_ok (to_string n) \<and> Config_unquote (to_string n) = to_string n
     \<and> CHR 0x0A \<notin> set (to_string n)"
  using number_ok [of "nat n"] by (simp add: to_string_def)

lemmas config_lines_read = section_line [folded section_head_def] key_line [folded setting_def]

lemma config_lines_plain:
  assumes "path_value (cfg_frontend_path (c_httpserver c))" and "path_value (log_dir (c_asynclogger c))"
    and "path_value (cfg_db_path (c_db c))" and "0 < sint (cfg_max_concurrent_scan (c_scheduler c))"
  shows "list_all (\<lambda>l. CHR 0x0A \<notin> set l) (config_lines c)"
  using assms number_ok to_string_ok
  by (simp add: config_lines_def section_head_def setting_def size_text_def path_value_def quoted_def)

lemma config_lines_load:
  assumes "path_value (cfg_frontend_path (c_httpserver c))" and "path_value (log_dir (c_asynclogger c))"
    and "path_value (cfg_db_path (c_db c))" and "0 < sint (cfg_max_concurrent_scan (c_scheduler c))"
  shows "fold Config_line (config_lines c) \<lparr>cl_section = [], cl_config = c0, cl_invalid = []\<rparr>
    = \<lparr>cl_section = ''db'', cl_config = c, cl_invalid = []\<rparr>"
proof -
  note numbers = number_ok to_string_ok [OF less_imp_le [OF assms(4)]] stoi_i32 [OF assms(4)]
    stoull_size stoi_u16 stoull_u16 clamp_size_id clamp_u16_id
  note paths = quoted_ok [OF assms(1)] quoted_ok [OF assms(2)] quoted_ok [OF assms(3)]
  note keys = Config_daemon_key_def Config_httpserver_key_def Config_scheduler_key_def
    Config_asynclogger_key_def Config_exportmanager_key_def Config_manager_key_def Config_db_key_def
  have flag: "value_ok (if b then ''true'' else ''false'')"
      "to_lower (Config_unquote (if b then ''true'' else ''false'')) \<noteq> ''false'' \<longleftrightarrow> b" for b
    by (simp_all add: value_ok_def blank_def Config_unquote_def to_lower_def is_upper_def)
  have sz: "value_ok (size_text w) \<and> Config_unquote (size_text w) = size_text w" for w
    using number_ok by (simp add: size_text_def)
  show ?thesis
    using assms(4)
    by (simp add: config_lines_def config_lines_read plain_name_def plain_char_def numbers paths flag sz
        Config_set_def Config_apply_def keys)
qed

text \<open>A file of one section.\<close>

definition section_text :: "string \<Rightarrow> string list \<Rightarrow> string" where
  "section_text sec ls = concat (map (\<lambda>l. l @ [CHR 0x0A]) (section_head sec # ls))"

subsection \<open>What loading guarantees\<close>



lemma map_option_SomeE: "map_option f x = Some y \<Longrightarrow> (\<And>z. x = Some z \<Longrightarrow> y = f z \<Longrightarrow> P) \<Longrightarrow> P"
  by (cases x) auto

lemma apply_keeps_concurrency:
  assumes "Config_apply sec key val c = Some c'" and "0 < sint (cfg_max_concurrent_scan (c_scheduler c))"
  shows "0 < sint (cfg_max_concurrent_scan (c_scheduler c'))"
proof (cases "sec = ''scheduler''")
  case True
  have "0 < n \<Longrightarrow> n < 2 ^ 31 \<Longrightarrow> sint (word_of_int n :: i32) = n" for n
    by (simp add: sint_sbintrunc' signed_take_bit_int_eq_self)
  moreover have "n < 2 ^ 31" if "stoi val = Some n" for n
    using that by (auto simp: stoi_def Let_def split: prod.splits if_splits)
  ultimately show ?thesis
    using assms True by (auto simp: Config_apply_def Config_scheduler_key_def split: if_splits)
next
  case False
  have "c_scheduler c' = c_scheduler c"
    using assms(1) False unfolding Config_apply_def Let_def
    by (simp only: if_False split: if_split_asm) ((erule map_option_SomeE, simp) | simp)+
  with assms(2) show ?thesis by simp
qed

lemma line_keeps_concurrency:
  "0 < sint (cfg_max_concurrent_scan (c_scheduler (cl_config l))) \<Longrightarrow>
   0 < sint (cfg_max_concurrent_scan (c_scheduler (cl_config (Config_line raw l))))"
  by (auto simp: Config_line_def Config_set_def Let_def apply_keeps_concurrency split: option.splits prod.splits)

text \<open>Whatever the file says, at least one scan may run at a time.\<close>

theorem config_concurrency_positive:
  "0 < sint (cfg_max_concurrent_scan (c_scheduler (fst (snd (Config_load ini Config_default)))))"
proof -
  have "0 < sint (cfg_max_concurrent_scan (c_scheduler (cl_config (fold Config_line ls l))))"
    if "0 < sint (cfg_max_concurrent_scan (c_scheduler (cl_config l)))" for ls l
    using that by (induction ls arbitrary: l) (simp_all add: line_keeps_concurrency)
  then show ?thesis
    by (cases ini) (simp_all add: Config_load_def Let_def Config_default_def)
qed

lemma que_size_load:
  assumes "value_ok v" and "CHR 0x0A \<notin> set v" and "Config_unquote v = v" and "stoull v = Some n"
  shows "Config_load (Some (section_text ''export_manager'' [setting ''que_size'' v])) c
    = (True, c\<lparr>c_exportmanager := \<lparr>cfg_que_size = clamp_size n\<rparr>\<rparr>, [])"
proof -
  have "list_all (\<lambda>l. CHR 0x0A \<notin> set l) [section_head ''export_manager'', setting ''que_size'' v]"
    using assms(2) by (simp add: section_head_def setting_def)
  from getline_lines [OF this] show ?thesis
    using assms by (simp add: Config_load_def section_text_def config_lines_read plain_name_def
        plain_char_def Config_set_def Config_apply_def Config_exportmanager_key_def)
qed

text \<open>A size takes a signed number: a negative one is negated modulo \<open>2^64\<close> and accepted as a huge
  size, and no line is reported.\<close>

theorem config_negative_size:
  assumes "n < 2 ^ 64"
  shows "Config_load (Some (section_text ''export_manager'' [''que_size = -'' @ to_string_nat n])) c
    = (True, c\<lparr>c_exportmanager := \<lparr>cfg_que_size = - of_nat n\<rparr>\<rparr>, [])"
proof -
  let ?v = "CHR ''-'' # to_string_nat n"
  have "value_ok ?v \<and> Config_unquote ?v = ?v \<and> CHR 0x0A \<notin> set ?v"
    using number_ok [of n] by (simp add: value_ok_def blank_def Config_unquote_def)
  moreover have "clamp_size ((- int n) mod 2 ^ 64) = word_of_int ((- int n) mod 2 ^ 64)"
    by (rule clamp_size_eq) simp_all
  moreover have "word_of_int ((- int n) mod 2 ^ 64) = (- of_nat n :: u64)"
  proof -
    have "word_of_int ((- int n) mod 2 ^ 64) = (word_of_int (- int n) :: u64)"
      unfolding word_of_int_eq_iff by (simp add: take_bit_eq_mod)
    then show ?thesis by simp
  qed
  ultimately show ?thesis
    using que_size_load [of ?v "(- int n) mod 2 ^ 64" c] stoull_minus [OF assms]
    by (simp add: setting_def)
qed

theorem config_negative_size_witness:
  "Config_load (Some (section_text ''export_manager'' [''que_size = -'' @ to_string_nat 1])) Config_default
    = (True, Config_default\<lparr>c_exportmanager := \<lparr>cfg_que_size = 18446744073709551615\<rparr>\<rparr>, [])"
  using config_negative_size [of 1 Config_default] by simp

lemma zero_queue_step:
  "jq_step x q = Some (r, q') \<Longrightarrow> x \<noteq> Close \<Longrightarrow> QUEUE_SIZE q = 0 \<and> jq_container q = [] \<and> \<not> jq_stop_flag q
    \<Longrightarrow> QUEUE_SIZE q' = 0 \<and> jq_container q' = [] \<and> \<not> jq_stop_flag q'"
  by (cases x) (auto simp: jq_op_defs)

lemma zero_queue_exec:
  assumes "exec jq_step ops q = Some (rs, q')" and "Close \<notin> set ops"
    and "QUEUE_SIZE q = 0 \<and> jq_container q = [] \<and> \<not> jq_stop_flag q"
  shows "QUEUE_SIZE q' = 0 \<and> jq_container q' = [] \<and> \<not> jq_stop_flag q'"
  using assms
proof (induction rule: exec_induct)
  case (Cons x xs r rs s s' t)
  from Cons.prems(1) have "x \<noteq> Close" "Close \<notin> set xs" by auto
  with Cons.IH zero_queue_step [OF Cons.hyps(1) _ Cons.prems(2)] show ?case by blast
qed

text \<open>A queue size of zero is accepted too, and an export queue of that size blocks its producers for
  ever: after any calls other than \<^verbatim>\<open>shutdown\<close> a blocking push still finds no room.\<close>

theorem config_zero_queue_blocks:
  assumes "Config_load (Some (section_text ''export_manager'' [''que_size = 0''])) c0 = (True, c, invalid)"
    and "exec jq_step ops (JobQueue_init Fifo zero_metrics (unat (cfg_que_size (c_exportmanager c)))) = Some (rs, q)"
    and "Close \<notin> set ops"
  shows "invalid = [] \<and> jq_step (Push x) q = None"
proof -
  have "to_string_nat 0 = ''0''" by (simp add: to_string_nat.simps char_of_def bit_0)
  then have "Config_load (Some (section_text ''export_manager'' [''que_size = 0''])) c0
      = (True, c0\<lparr>c_exportmanager := \<lparr>cfg_que_size = 0\<rparr>\<rparr>, [])"
    using que_size_load [of "''0''" 0 c0] number_ok [of 0] stoull_to_string [of 0]
    by (simp add: setting_def clamp_size_eq)
  with assms(1) have c: "cfg_que_size (c_exportmanager c) = 0" "invalid = []" by auto
  have "QUEUE_SIZE q = 0 \<and> jq_container q = [] \<and> \<not> jq_stop_flag q"
    using assms(2,3) by (rule zero_queue_exec) (simp add: c(1) JobQueue_init_def)
  with c(2) show ?thesis by (simp add: JobQueue_push_def)
qed

theorem config_zero_queue_blocks_witness:
  "\<exists>c q. Config_load (Some (section_text ''export_manager'' [''que_size = 0''])) Config_default = (True, c, [])
     \<and> exec jq_step [Try_push 3, Size] (JobQueue_init Fifo zero_metrics (unat (cfg_que_size (c_exportmanager c))))
         = Some ([R_submit Full, R_size 0], q)
     \<and> jq_step (Push (5 :: nat)) q = None"
proof -
  have "to_string_nat 0 = ''0''" by (simp add: to_string_nat.simps char_of_def bit_0)
  then have l: "Config_load (Some (section_text ''export_manager'' [''que_size = 0''])) Config_default
      = (True, Config_default\<lparr>c_exportmanager := \<lparr>cfg_que_size = 0\<rparr>\<rparr>, [])" (is "_ = (_, ?c, _)")
    using que_size_load [of "''0''" 0 Config_default] number_ok [of 0] stoull_to_string [of 0]
    by (simp add: setting_def clamp_size_eq)
  obtain q where q: "exec jq_step [Try_push (3 :: nat), Size]
      (JobQueue_init Fifo zero_metrics (unat (cfg_que_size (c_exportmanager ?c)))) = Some ([R_submit Full, R_size 0], q)"
    by (simp add: JobQueue_init_def jq_op_defs JobQueue_jobs_in_queue_def)
  from config_zero_queue_blocks [OF l q] l q show ?thesis by fastforce
qed

text \<open>A comment sign inside quotes starts a comment all the same: of a quoted path only the part before
  it is kept, with the opening quote, and the line counts as valid.\<close>

theorem config_comment_in_quotes:
  assumes "path_value a" and "a \<noteq> []" and "\<not> blank (last a)" and "last a \<noteq> CHR 0x22"
    and "CHR 0x0A \<notin> set b"
  shows "Config_load (Some (section_text ''db'' [setting ''db_path'' (quoted (a @ ''#'' @ b))])) c
    = (True, c\<lparr>c_db := (c_db c)\<lparr>cfg_db_path := CHR 0x22 # a\<rparr>\<rparr>, [])"
proof -
  let ?v = "CHR 0x22 # a"
  have "list_all (\<lambda>l. CHR 0x0A \<notin> set l) [section_head ''db'', setting ''db_path'' (quoted (a @ ''#'' @ b))]"
    using assms by (simp add: section_head_def setting_def quoted_def path_value_def)
  note lines = getline_lines [OF this]
  have "Config_cut_comment (setting ''db_path'' (quoted (a @ ''#'' @ b))) = setting ''db_path'' ?v"
    using assms(1)
    by (auto simp: Config_cut_comment_def setting_def quoted_def path_value_def takeWhile_append)
  moreover have "Config_cut_comment (setting ''db_path'' ?v) = setting ''db_path'' ?v"
    using assms(1) by (intro cut_comment_id) (auto simp: setting_def path_value_def)
  ultimately have "Config_line (setting ''db_path'' (quoted (a @ ''#'' @ b))) = Config_line (setting ''db_path'' ?v)"
    by (intro ext) (simp only: Config_line_def)
  moreover have v: "value_ok ?v" "Config_unquote ?v = ?v"
    using assms by (simp_all add: value_ok_def path_value_def blank_def Config_unquote_def)
  moreover have "plain_name ''db''" "plain_name ''db_path''" by (simp_all add: plain_name_def plain_char_def)
  ultimately have f: "fold Config_line [section_head ''db'', setting ''db_path'' (quoted (a @ ''#'' @ b))] l
      = Config_set ''db_path'' ?v (l\<lparr>cl_section := ''db''\<rparr>)" for l
    by (simp only: fold_simps config_lines_read)
  show ?thesis
    unfolding Config_load_def section_text_def option.case lines f Let_def
    by (simp add: Config_set_def Config_apply_def Config_db_key_def)
qed

theorem config_comment_in_quotes_witness:
  "Config_load (Some (section_text ''db'' [setting ''db_path'' (quoted ''./db#1/scan.db'')])) Config_default
    = (True, Config_default\<lparr>c_db := (c_db Config_default)\<lparr>cfg_db_path := CHR 0x22 # ''./db''\<rparr>\<rparr>, [])"
  using config_comment_in_quotes [of "''./db''" "''1/scan.db''" Config_default]
  by (simp add: path_value_def blank_def)

end
