(* ===== verification/Async_Logger.thy ===== *)
theory Async_Logger
  imports Channel Transitions Text_Numbers Formater
begin

section \<open>AsyncLogger (src/utils/async\_logger.h, async\_logger.cpp)\<close>

text \<open>
  A bounded queue of log items between the threads that log and one worker that writes them. The
  critical sections of \<^verbatim>\<open>helper\<close>, \<^verbatim>\<open>consume\<close> and \<^verbatim>\<open>shutdown\<close> come first, with the outputs and the
  start; the threads are in \<open>Async_Logger_Threads\<close>. \<open>lg_out\<close> is what was written to the stream of
  the worker, the file or the standard error, \<open>lg_terminal\<close> what went to the standard error directly.
\<close>

subsection \<open>State and output\<close>

datatype log_level = Info | Warn | Debug | Error

record log_item =
  item_timestamp :: int
  item_tid :: nat
  item_msg :: string
  item_level :: log_level

record async_logger =
  MAX_QUEUE_SIZE :: nat
  log_queue :: "log_item list"
  log_stop :: bool
  logger_pending :: u64
  logger_finished :: u64
  logger_fallback :: u64
  lg_out :: string
  lg_terminal :: string

text \<open>The constructor; the configured size 0 counts as 1.\<close>

definition AsyncLogger_init :: "nat \<Rightarrow> async_logger" where
  "AsyncLogger_init queue_max_size =
     \<lparr>MAX_QUEUE_SIZE = (if queue_max_size = 0 then 1 else queue_max_size), log_queue = [],
      log_stop = False, logger_pending = 0, logger_finished = 0, logger_fallback = 0,
      lg_out = [], lg_terminal = []\<rparr>"

definition level_name :: "log_level \<Rightarrow> string" where
  "level_name l = (case l of Info \<Rightarrow> ''Info'' | Warn \<Rightarrow> ''Warn'' | Debug \<Rightarrow> ''Debug'' | Error \<Rightarrow> ''Error'')"

text \<open>What the lines take from the C++ library: the hash of a thread id, the text of a time.\<close>

record logger_env =
  env_hash :: "nat \<Rightarrow> nat"
  env_format_time :: "int \<Rightarrow> string"

definition log_line :: "logger_env \<Rightarrow> log_item \<Rightarrow> string" where
  "log_line env job = ''['' @ level_name (item_level job) @ '']'' @ '' ''
     @ ''[TID'' @ to_string_nat (env_hash env (item_tid job) mod 10000) @ ''] ''
     @ env_format_time env (item_timestamp job) @ '' '' @ item_msg job @ '' '' @ [CHR 0x0A]"

definition terminal_line :: "logger_env \<Rightarrow> log_item \<Rightarrow> string" where
  "terminal_line env item = ''['' @ level_name (item_level item) @ '']''
     @ ''[TID'' @ to_string_nat (env_hash env (item_tid item) mod 10000) @ '']''
     @ '' '' @ env_format_time env (item_timestamp item) @ '' '' @ item_msg item @ '' '' @ [CHR 0x0A]"

definition AsyncLogger_write_log :: "logger_env \<Rightarrow> log_item \<Rightarrow> async_logger \<Rightarrow> async_logger" where
  "AsyncLogger_write_log env job l =
     l\<lparr>lg_out := lg_out l @ log_line env job, logger_finished := logger_finished l + 1\<rparr>"

definition AsyncLogger_print_to_terminal :: "logger_env \<Rightarrow> log_item \<Rightarrow> async_logger \<Rightarrow> async_logger" where
  "AsyncLogger_print_to_terminal env item l =
     l\<lparr>lg_terminal := lg_terminal l @ terminal_line env item, logger_fallback := logger_fallback l + 1\<rparr>"

subsection \<open>The critical sections\<close>

text \<open>
  \<^verbatim>\<open>helper\<close> under the lock: \<^term>\<open>None\<close> is \<^verbatim>\<open>cv.wait\<close>; otherwise the flag says whether the item goes to the
  terminal. The loop is left by the \<^verbatim>\<open>break\<close> of the unimportant levels, by a stop or by room.
\<close>

definition AsyncLogger_helper :: "log_item \<Rightarrow> async_logger \<Rightarrow> (bool \<times> async_logger) option" where
  "AsyncLogger_helper item l =
     (let full = MAX_QUEUE_SIZE l \<le> length (log_queue l) \<and> \<not> log_stop l;
          minor = item_level item = Info \<or> item_level item = Debug in
      if full \<and> \<not> minor then None
      else if full \<or> log_stop l then Some (True, l)
      else Some (False, l\<lparr>log_queue := log_queue l @ [item], logger_pending := logger_pending l + 1\<rparr>))"

text \<open>\<^verbatim>\<open>consume\<close>: \<^term>\<open>None\<close> is \<^verbatim>\<open>cv.wait\<close>, an inner \<^term>\<open>None\<close> the return value \<^verbatim>\<open>false\<close>.\<close>

definition AsyncLogger_consume :: "async_logger \<Rightarrow> (log_item option \<times> async_logger) option" where
  "AsyncLogger_consume l =
     (case log_queue l of
        [] \<Rightarrow> if log_stop l then Some (None, l) else None
      | job # rest \<Rightarrow>
          Some (Some job, l\<lparr>log_queue := rest, logger_pending := logger_pending l - 1\<rparr>))"

text \<open>\<^verbatim>\<open>shutdown\<close>; the flag is \<^term>\<open>False\<close> at the early return.\<close>

definition AsyncLogger_shutdown :: "async_logger \<Rightarrow> bool \<times> async_logger" where
  "AsyncLogger_shutdown l = (if log_stop l then (False, l) else (True, l\<lparr>log_stop := True\<rparr>))"

text \<open>
  \<^verbatim>\<open>start\<close>: the result, the path of the log file (empty for none) and the logger. What the check of the
  directory logs goes through \<^verbatim>\<open>helper\<close>, before there is a worker; \<open>item\<close> makes the log item of an
  error line, \<open>joinable\<close> says whether the worker runs already, and \<^term>\<open>None\<close> stands for the wait in \<^verbatim>\<open>helper\<close>.
\<close>

definition AsyncLogger_error ::
    "logger_env \<Rightarrow> (string \<Rightarrow> log_item) \<Rightarrow> string \<Rightarrow> async_logger \<Rightarrow> async_logger option" where
  "AsyncLogger_error env item msg l =
     map_option (\<lambda>(direct, l'). if direct then AsyncLogger_print_to_terminal env (item msg) l' else l')
       (AsyncLogger_helper (item msg) l)"

definition AsyncLogger_start ::
    "logger_env \<Rightarrow> (string \<Rightarrow> log_item) \<Rightarrow> (string \<Rightarrow> int + file_mode) \<Rightarrow> (int \<Rightarrow> string \<Rightarrow> string) \<Rightarrow> string
     \<Rightarrow> int \<Rightarrow> bool \<Rightarrow> async_logger \<Rightarrow> (bool \<times> string \<times> async_logger) option" where
  "AsyncLogger_start env item lstat system_error dir now joinable l =
     (let l1 = l\<lparr>log_stop := False\<rparr>;
          (valid, errors) = validate_outdir lstat system_error dir;
          l2 = fold (\<lambda>msg s. Option.bind s (AsyncLogger_error env item msg)) errors (Some l1)
      in if \<not> valid
         then map_option (\<lambda>l'. (\<not> joinable, [],
                l'\<lparr>lg_terminal := lg_terminal l' @ ''Error: log directory is not found'' @ [CHR 0x0A]\<rparr>)) l2
         else map_option (\<lambda>l'. (\<not> joinable, dir @ ''/log-'' @ env_format_time env now @ ''.log'', l')) l2)"

text \<open>The stream that \<^verbatim>\<open>worker_loop\<close> chooses: whether it is the file, and the line on the standard error.\<close>

definition AsyncLogger_open :: "(string \<Rightarrow> bool) \<Rightarrow> string \<Rightarrow> async_logger \<Rightarrow> bool \<times> async_logger" where
  "AsyncLogger_open is_open log_path l =
     (if log_path = [] then (False, l)
      else if is_open log_path then (True, l)
      else (False, l\<lparr>lg_terminal := lg_terminal l @ ''[Error] Logger cannot open file; fallback to stderr'' @ [CHR 0x0A]\<rparr>))"

lemmas logger_ops = AsyncLogger_helper_def AsyncLogger_consume_def AsyncLogger_shutdown_def
  AsyncLogger_write_log_def AsyncLogger_print_to_terminal_def Let_def

subsection \<open>The start\<close>

text \<open>On a fresh logger \<^verbatim>\<open>start\<close> never waits, although nothing takes messages yet: the check of the
  directory logs at most one line and the queue has room for one. The log goes to a file just when the
  directory is one, and only then is the queue empty.\<close>

theorem logger_start_fresh:
  "\<exists>path l. AsyncLogger_start env item lstat system_error dir now False (AsyncLogger_init n) = Some (True, path, l)
    \<and> \<not> log_stop l \<and> length (log_queue l) \<le> MAX_QUEUE_SIZE l
    \<and> (if dir \<noteq> [] \<and> lstat dir = Inr Mode_dir then path = dir @ ''/log-'' @ env_format_time env now @ ''.log'' \<and> log_queue l = []
       else path = [] \<and> (\<exists>msg. log_queue l = [item msg]))"
proof -
  let ?l = "AsyncLogger_init n"
  have error: "AsyncLogger_error env item msg ?l = Some (?l\<lparr>log_queue := [item msg], logger_pending := 1\<rparr>)" for msg
    by (auto simp: AsyncLogger_error_def AsyncLogger_init_def logger_ops)
  have same: "?l\<lparr>log_stop := False\<rparr> = ?l" by (simp add: AsyncLogger_init_def)
  have fresh: "log_queue ?l = []" "\<not> log_stop ?l" "Suc 0 \<le> MAX_QUEUE_SIZE ?l"
    by (simp_all add: AsyncLogger_init_def)
  show ?thesis
  proof (cases "dir \<noteq> [] \<and> lstat dir = Inr Mode_dir")
    case True
    then show ?thesis by (simp add: AsyncLogger_start_def validate_outdir_def same fresh)
  next
    case False
    then have "\<exists>msg. validate_outdir lstat system_error dir = (False, [msg])"
      by (auto simp: validate_outdir_def split: sum.splits)
    then obtain msg where "validate_outdir lstat system_error dir = (False, [msg])" ..
    with False show ?thesis by (auto simp: AsyncLogger_start_def same error fresh)
  qed
qed

text \<open>With a queue that is already full it would wait for ever: there is no worker yet.\<close>

lemma logger_start_full:
  assumes "item_level (item ''Error: directory is empty'') = Error" "MAX_QUEUE_SIZE l \<le> length (log_queue l)"
  shows "AsyncLogger_start env item lstat system_error [] now joinable l = None"
  using assms by (simp add: AsyncLogger_start_def AsyncLogger_error_def validate_outdir_def logger_ops)

subsection \<open>The queue as a channel\<close>

datatype logger_op = Log log_item | Consume | Stop

datatype logger_ret = R_log bool | R_consume "log_item option" | R_stop bool

fun logger_step :: "logger_op \<Rightarrow> async_logger \<Rightarrow> (logger_ret \<times> async_logger) option" where
  "logger_step (Log item) l = map_option (map_prod R_log id) (AsyncLogger_helper item l)"
| "logger_step Consume l = map_option (map_prod R_consume id) (AsyncLogger_consume l)"
| "logger_step Stop l = Some (map_prod R_stop id (AsyncLogger_shutdown l))"

fun logger_ins :: "logger_op \<Rightarrow> logger_ret \<Rightarrow> log_item list" where
  "logger_ins (Log item) (R_log False) = [item]"
| "logger_ins _ _ = []"

fun logger_outs :: "logger_op \<Rightarrow> logger_ret \<Rightarrow> log_item list" where
  "logger_outs Consume (R_consume (Some job)) = [job]"
| "logger_outs _ _ = []"

definition queue_ok :: "async_logger \<Rightarrow> bool" where
  "queue_ok l \<longleftrightarrow> 0 < MAX_QUEUE_SIZE l \<and> length (log_queue l) \<le> MAX_QUEUE_SIZE l
     \<and> logger_pending l = of_nat (length (log_queue l))"

lemma queue_ok_init: "queue_ok (AsyncLogger_init n)"
  by (simp add: queue_ok_def AsyncLogger_init_def)

lemma queue_ok_step: "queue_ok l \<Longrightarrow> logger_step x l = Some (r, l') \<Longrightarrow> queue_ok l'"
  by (cases x) (auto simp: queue_ok_def logger_ops split: if_splits list.splits)

interpretation log_channel: fifo_channel logger_step queue_ok log_queue logger_ins logger_outs
proof unfold_locales
  fix l x r l'
  assume "queue_ok l" and s: "logger_step x l = Some (r, l')"
  then show "queue_ok l'" by (rule queue_ok_step)
  from s show "log_queue l @ logger_ins x r = logger_outs x r @ log_queue l'"
    by (cases x) (auto simp: logger_ops split: if_splits list.splits)
qed

end
