(* ===== verification/Async_Logger_Threads.thy ===== *)
theory Async_Logger_Threads
  imports Async_Logger
begin

section \<open>AsyncLogger: the threads around the queue\<close>

text \<open>
  Every logging thread, the worker and the thread that shuts down stand at one of their points
  before the lock, asleep on the condition variable, or past the lock with an output or a
  notification still to come. A move is one thread passing such a point. \<^verbatim>\<open>notify_one\<close> wakes any one
  sleeper, whichever the schedule says.
\<close>

subsection \<open>The threads\<close>

datatype logging_pc =
    P_idle
  | P_helper log_item
  | P_wait log_item
  | P_print log_item
  | P_notify

datatype worker_pc =
    W_consume
  | W_wait
  | W_notify log_item
  | W_write log_item
  | W_done

datatype closer_pc = C_idle | C_notify | C_join | C_return

text \<open>Beside the logger and the points, the items of all calls, those that were queued, written and
  printed, each in order. No operation reads these lists.\<close>

record logger_system =
  ls_logger :: async_logger
  ls_threads :: "logging_pc list"
  ls_worker :: worker_pc
  ls_closer :: closer_pc
  ls_called :: "log_item list"
  ls_queued :: "log_item list"
  ls_written :: "log_item list"
  ls_printed :: "log_item list"

definition logger_system_init :: "nat \<Rightarrow> nat \<Rightarrow> logger_system" where
  "logger_system_init cap n =
     \<lparr>ls_logger = AsyncLogger_init cap, ls_threads = replicate n P_idle, ls_worker = W_consume,
      ls_closer = C_idle, ls_called = [], ls_queued = [], ls_written = [], ls_printed = []\<rparr>"

fun wake_logging :: "logging_pc \<Rightarrow> logging_pc" where
  "wake_logging (P_wait item) = P_helper item"
| "wake_logging pc = pc"

definition wake_worker :: "worker_pc \<Rightarrow> worker_pc" where
  "wake_worker w = (if w = W_wait then W_consume else w)"

fun waiting_log :: "logging_pc \<Rightarrow> bool" where
  "waiting_log (P_wait item) = True"
| "waiting_log _ = False"

datatype waiter = Wake_thread nat | Wake_worker

text \<open>One sleeper wakes; \<^term>\<open>None\<close> if it is not asleep.\<close>

definition logger_wake :: "waiter \<Rightarrow> logger_system \<Rightarrow> logger_system option" where
  "logger_wake w s =
     (case w of
        Wake_thread j \<Rightarrow>
          (if j < length (ls_threads s) \<and> waiting_log (ls_threads s ! j)
           then Some (s\<lparr>ls_threads := (ls_threads s)[j := wake_logging (ls_threads s ! j)]\<rparr>) else None)
      | Wake_worker \<Rightarrow> (if ls_worker s = W_wait then Some (s\<lparr>ls_worker := W_consume\<rparr>) else None))"

text \<open>\<^verbatim>\<open>notify_one\<close>: the chosen sleeper wakes; without a choice nobody may be asleep.\<close>

definition logger_notify_one :: "waiter option \<Rightarrow> logger_system \<Rightarrow> logger_system option" where
  "logger_notify_one w s =
     (case w of
        None \<Rightarrow> if ls_worker s = W_wait \<or> list_ex waiting_log (ls_threads s) then None else Some s
      | Some v \<Rightarrow> logger_wake v s)"

definition set_logging :: "nat \<Rightarrow> logging_pc \<Rightarrow> logger_system \<Rightarrow> logger_system" where
  "set_logging i pc s = s\<lparr>ls_threads := (ls_threads s)[i := pc]\<rparr>"

definition logging_step :: "logger_env \<Rightarrow> nat \<Rightarrow> waiter option \<Rightarrow> logger_system \<Rightarrow> logger_system option" where
  "logging_step env i w s =
     (case ls_threads s ! i of
        P_helper item \<Rightarrow>
          (case AsyncLogger_helper item (ls_logger s) of
             None \<Rightarrow> Some (set_logging i (P_wait item) s)
           | Some (True, l) \<Rightarrow> Some (set_logging i (P_print item) (s\<lparr>ls_logger := l\<rparr>))
           | Some (False, l) \<Rightarrow>
               Some (set_logging i P_notify (s\<lparr>ls_logger := l, ls_queued := ls_queued s @ [item]\<rparr>)))
      | P_print item \<Rightarrow>
          Some (set_logging i P_idle
            (s\<lparr>ls_logger := AsyncLogger_print_to_terminal env item (ls_logger s),
               ls_printed := ls_printed s @ [item]\<rparr>))
      | P_notify \<Rightarrow> map_option (set_logging i P_idle) (logger_notify_one w s)
      | _ \<Rightarrow> None)"

definition worker_step :: "logger_env \<Rightarrow> waiter option \<Rightarrow> logger_system \<Rightarrow> logger_system option" where
  "worker_step env w s =
     (case ls_worker s of
        W_consume \<Rightarrow>
          (case AsyncLogger_consume (ls_logger s) of
             None \<Rightarrow> Some (s\<lparr>ls_worker := W_wait\<rparr>)
           | Some (None, l) \<Rightarrow> Some (s\<lparr>ls_logger := l, ls_worker := W_done\<rparr>)
           | Some (Some job, l) \<Rightarrow> Some (s\<lparr>ls_logger := l, ls_worker := W_notify job\<rparr>))
      | W_notify job \<Rightarrow> map_option (\<lambda>t. t\<lparr>ls_worker := W_write job\<rparr>) (logger_notify_one w s)
      | W_write job \<Rightarrow>
          Some (s\<lparr>ls_logger := AsyncLogger_write_log env job (ls_logger s), ls_worker := W_consume,
            ls_written := ls_written s @ [job]\<rparr>)
      | _ \<Rightarrow> None)"

definition closer_step :: "logger_system \<Rightarrow> logger_system option" where
  "closer_step s =
     (case ls_closer s of
        C_idle \<Rightarrow>
          (case AsyncLogger_shutdown (ls_logger s) of
             (False, l) \<Rightarrow> Some (s\<lparr>ls_logger := l, ls_closer := C_return\<rparr>)
           | (True, l) \<Rightarrow> Some (s\<lparr>ls_logger := l, ls_closer := C_notify\<rparr>))
      | C_notify \<Rightarrow>
          Some (s\<lparr>ls_threads := map wake_logging (ls_threads s), ls_worker := wake_worker (ls_worker s),
            ls_closer := C_join\<rparr>)
      | C_join \<Rightarrow> (if ls_worker s = W_done then Some (s\<lparr>ls_closer := C_return\<rparr>) else None)
      | C_return \<Rightarrow> None)"

datatype logger_move =
    Call nat log_item
  | Logging nat "waiter option"
  | Worker "waiter option"
  | Closer
  | Spurious waiter

definition logger_move :: "logger_env \<Rightarrow> logger_move \<Rightarrow> logger_system \<Rightarrow> logger_system option" where
  "logger_move env m s =
     (case m of
        Call i item \<Rightarrow>
          (if i < length (ls_threads s) \<and> ls_threads s ! i = P_idle
           then Some (set_logging i (P_helper item) (s\<lparr>ls_called := ls_called s @ [item]\<rparr>)) else None)
      | Logging i w \<Rightarrow> if i < length (ls_threads s) then logging_step env i w s else None
      | Worker w \<Rightarrow> worker_step env w s
      | Closer \<Rightarrow> closer_step s
      | Spurious w \<Rightarrow> logger_wake w s)"

subsection \<open>The invariant\<close>

fun underway :: "logging_pc \<Rightarrow> log_item multiset" where
  "underway (P_helper item) = {#item#}"
| "underway (P_wait item) = {#item#}"
| "underway (P_print item) = {#item#}"
| "underway _ = {#}"

fun in_hand :: "worker_pc \<Rightarrow> log_item list" where
  "in_hand (W_notify job) = [job]"
| "in_hand (W_write job) = [job]"
| "in_hand _ = []"

definition all_underway :: "logging_pc list \<Rightarrow> log_item multiset" where
  "all_underway ts = sum_list (map underway ts)"

fun may_wait :: "logging_pc \<Rightarrow> bool" where
  "may_wait (P_wait item) = (item_level item = Warn \<or> item_level item = Error)"
| "may_wait _ = True"

definition items_ok :: "logger_env \<Rightarrow> logger_system \<Rightarrow> bool" where
  "items_ok env s \<longleftrightarrow>
     queue_ok (ls_logger s)
     \<and> ls_queued s = ls_written s @ in_hand (ls_worker s) @ log_queue (ls_logger s)
     \<and> mset (ls_called s) = mset (ls_queued s) + mset (ls_printed s) + all_underway (ls_threads s)
     \<and> logger_finished (ls_logger s) = of_nat (length (ls_written s))
     \<and> logger_fallback (ls_logger s) = of_nat (length (ls_printed s))
     \<and> lg_out (ls_logger s) = concat (map (log_line env) (ls_written s))
     \<and> lg_terminal (ls_logger s) = concat (map (terminal_line env) (ls_printed s))"

definition threads_ok :: "logger_system \<Rightarrow> bool" where
  "threads_ok s \<longleftrightarrow>
     list_all may_wait (ls_threads s)
     \<and> (log_stop (ls_logger s) \<longleftrightarrow> ls_closer s \<noteq> C_idle)
     \<and> (ls_worker s = W_done \<longrightarrow> log_stop (ls_logger s) \<and> log_queue (ls_logger s) = [])
     \<and> (ls_closer s = C_join \<or> ls_closer s = C_return \<longrightarrow>
          ls_worker s \<noteq> W_wait \<and> list_all (\<lambda>pc. \<not> waiting_log pc) (ls_threads s))
     \<and> (ls_closer s = C_return \<longrightarrow> ls_worker s = W_done)"

lemma underway_wake [simp]: "underway (wake_logging pc) = underway pc"
  by (cases pc) simp_all

lemma all_underway_wake [simp]: "all_underway (map wake_logging ts) = all_underway ts"
  by (simp add: all_underway_def comp_def)

lemma may_wait_wake [simp]: "may_wait pc \<Longrightarrow> may_wait (wake_logging pc)"
  by (cases pc) simp_all

lemma not_waiting_wake [simp]: "\<not> waiting_log (wake_logging pc)"
  by (cases pc) simp_all

lemma underway_split:
  assumes "i < length ts"
  obtains M where "all_underway ts = M + underway (ts ! i)"
    and "\<And>v. all_underway (ts[i := v]) = M + underway v"
proof
  let ?M = "all_underway (take i ts @ drop (Suc i) ts)"
  show "all_underway ts = ?M + underway (ts ! i)"
    using assms by (subst id_take_nth_drop [OF assms]) (simp add: all_underway_def)
  show "all_underway (ts[i := v]) = ?M + underway v" for v
    using assms by (simp add: upd_conv_take_nth_drop all_underway_def)
qed

lemma all_underway_same:
  "i < length ts \<Longrightarrow> underway v = underway (ts ! i) \<Longrightarrow> all_underway (ts[i := v]) = all_underway ts"
  by (rule underway_split [of i ts]) simp_all

lemma list_all_update: "list_all P xs \<Longrightarrow> P v \<Longrightarrow> list_all P (xs[i := v])"
  by (auto simp: list_all_iff dest: set_update_subset_insert [THEN subsetD])

lemma logger_wake_frame:
  assumes "logger_wake w s = Some t"
  shows "items_ok env t = items_ok env s" "ls_worker s \<noteq> W_wait \<Longrightarrow> ls_worker t = ls_worker s"
    "length (ls_threads t) = length (ls_threads s)"
    "threads_ok s \<Longrightarrow> threads_ok t" "ls_threads s ! i = P_notify \<Longrightarrow> ls_threads t ! i = P_notify"
  using assms
  by (auto simp: logger_wake_def items_ok_def threads_ok_def all_underway_same list_all_update
      nth_list_update list_all_length split: waiter.splits if_splits)

lemma logger_notify_frame:
  assumes "logger_notify_one w s = Some t"
  shows "items_ok env t = items_ok env s" "ls_worker s \<noteq> W_wait \<Longrightarrow> ls_worker t = ls_worker s"
    "length (ls_threads t) = length (ls_threads s)"
    "threads_ok s \<Longrightarrow> threads_ok t" "ls_threads s ! i = P_notify \<Longrightarrow> ls_threads t ! i = P_notify"
  using assms logger_wake_frame [of _ s t]
  by (auto simp: logger_notify_one_def split: option.splits if_splits)

lemma items_logging:
  assumes "logging_step env i w s = Some t" and "i < length (ls_threads s)" and "items_ok env s"
  shows "items_ok env t"
proof -
  obtain M where M: "all_underway (ls_threads s) = M + underway (ls_threads s ! i)"
      "\<And>v. all_underway ((ls_threads s)[i := v]) = M + underway v"
    using underway_split [OF assms(2)] by metis
  show ?thesis
  proof (cases "ls_threads s ! i")
    case (P_helper item)
    with assms M show ?thesis
      by (auto simp: logging_step_def items_ok_def set_logging_def queue_ok_def AsyncLogger_helper_def Let_def
          split: if_splits)
  next
    case P_notify
    then obtain u where u: "logger_notify_one w s = Some u" "t = set_logging i P_idle u"
      using assms(1) by (auto simp: logging_step_def)
    have "ls_threads u ! i = P_notify" "i < length (ls_threads u)" "items_ok env u"
      using logger_notify_frame [OF u(1)] P_notify assms by auto
    then show ?thesis by (simp add: u(2) items_ok_def set_logging_def all_underway_same)
  qed (use assms M in \<open>auto simp: logging_step_def items_ok_def set_logging_def queue_ok_def
      AsyncLogger_print_to_terminal_def\<close>)
qed

lemma may_wait_awake: "\<not> waiting_log pc \<Longrightarrow> may_wait pc"
  by (cases pc) simp_all

lemma threads_ok_set:
  assumes "threads_ok s" and "\<not> waiting_log pc" and "ls_threads t = (ls_threads s)[i := pc]"
    and "ls_worker t = ls_worker s" and "ls_closer t = ls_closer s"
    and "log_stop (ls_logger t) = log_stop (ls_logger s)"
    and "log_stop (ls_logger s) \<Longrightarrow> log_queue (ls_logger t) = log_queue (ls_logger s)"
  shows "threads_ok t"
proof -
  note s = assms(1) [unfolded threads_ok_def]
  have "list_all may_wait (ls_threads t)"
    unfolding assms(3) using s assms(2) by (intro list_all_update may_wait_awake) simp_all
  moreover have "ls_closer t = C_join \<or> ls_closer t = C_return \<longrightarrow>
      ls_worker t \<noteq> W_wait \<and> list_all (\<lambda>pc. \<not> waiting_log pc) (ls_threads t)"
    unfolding assms(3-5) using s assms(2) by (intro impI conjI list_all_update) simp_all
  moreover have "ls_worker t = W_done \<longrightarrow> log_stop (ls_logger t) \<and> log_queue (ls_logger t) = []"
    unfolding assms(4,6) using s assms(7) by (intro impI) (metis (no_types, lifting))
  moreover have "(log_stop (ls_logger t) \<longleftrightarrow> ls_closer t \<noteq> C_idle)
      \<and> (ls_closer t = C_return \<longrightarrow> ls_worker t = W_done)"
    unfolding assms(4-6) using s by simp
  ultimately show ?thesis unfolding threads_ok_def by (intro conjI) (elim conjE; assumption)+
qed

lemma threads_logging:
  assumes "logging_step env i w s = Some t" and "i < length (ls_threads s)" and "threads_ok s"
  shows "threads_ok t"
proof (cases "ls_threads s ! i")
  case (P_helper item)
  show ?thesis
  proof (cases "AsyncLogger_helper item (ls_logger s)")
    case None
    then have "item_level item = Warn \<or> item_level item = Error" "\<not> log_stop (ls_logger s)"
      by (cases "item_level item"; auto simp: AsyncLogger_helper_def Let_def split: if_splits)+
    with None P_helper assms show ?thesis
      by (auto simp: logging_step_def threads_ok_def set_logging_def list_all_update)
  next
    case (Some a)
    obtain b l where a: "a = (b, l)" by (cases a)
    have "log_stop l = log_stop (ls_logger s)" "log_stop (ls_logger s) \<Longrightarrow> log_queue l = log_queue (ls_logger s)"
      using Some a by (auto simp: AsyncLogger_helper_def Let_def split: if_splits)
    with Some a P_helper assms(1) show ?thesis
      by (intro threads_ok_set [OF assms(3), of "if b then P_print item else P_notify" t i])
        (auto simp: logging_step_def set_logging_def split: bool.splits)
  qed
next
  case P_notify
  then obtain u where u: "logger_notify_one w s = Some u" "t = set_logging i P_idle u"
    using assms(1) by (auto simp: logging_step_def)
  have "threads_ok u" using logger_notify_frame(4) [OF u(1)] assms(3) .
  then show ?thesis by (rule threads_ok_set [where pc = P_idle and i = i]) (simp_all add: u(2) set_logging_def)
next
  case (P_print item)
  with assms(1) show ?thesis
    by (intro threads_ok_set [OF assms(3), of P_idle t i])
      (auto simp: logging_step_def set_logging_def AsyncLogger_print_to_terminal_def)
qed (use assms in \<open>simp_all add: logging_step_def\<close>)

lemma items_worker: "worker_step env w s = Some t \<Longrightarrow> items_ok env s \<Longrightarrow> items_ok env t"
proof (cases "ls_worker s")
  case W_consume
  moreover assume "worker_step env w s = Some t" "items_ok env s"
  ultimately show ?thesis
    by (auto simp: worker_step_def items_ok_def queue_ok_def AsyncLogger_consume_def split: list.splits if_splits)
next
  case (W_notify job)
  moreover assume "worker_step env w s = Some t" "items_ok env s"
  ultimately obtain u where u: "logger_notify_one w s = Some u" "t = u\<lparr>ls_worker := W_write job\<rparr>"
    by (auto simp: worker_step_def)
  have "items_ok env u" "ls_worker u = W_notify job"
    using logger_notify_frame [OF u(1)] W_notify \<open>items_ok env s\<close> by auto
  then show ?thesis by (simp add: u(2) items_ok_def)
qed (auto simp: worker_step_def items_ok_def queue_ok_def AsyncLogger_write_log_def)

lemma threads_worker: "worker_step env w s = Some t \<Longrightarrow> threads_ok s \<Longrightarrow> threads_ok t"
proof (cases "ls_worker s")
  case W_consume
  moreover assume "worker_step env w s = Some t" "threads_ok s"
  ultimately show ?thesis
    by (auto simp: worker_step_def threads_ok_def AsyncLogger_consume_def split: list.splits if_splits)
next
  case (W_notify job)
  moreover assume "worker_step env w s = Some t" "threads_ok s"
  ultimately obtain u where u: "logger_notify_one w s = Some u" "t = u\<lparr>ls_worker := W_write job\<rparr>"
    by (auto simp: worker_step_def)
  have "threads_ok u" "ls_worker u = W_notify job"
    using logger_notify_frame [OF u(1)] W_notify \<open>threads_ok s\<close> by auto
  then show ?thesis by (auto simp: u(2) threads_ok_def)
qed (auto simp: worker_step_def threads_ok_def AsyncLogger_write_log_def)

lemma items_closer: "closer_step s = Some t \<Longrightarrow> items_ok env s \<Longrightarrow> items_ok env t"
  by (cases "ls_worker s")
    (auto simp: closer_step_def items_ok_def queue_ok_def AsyncLogger_shutdown_def wake_worker_def
      split: closer_pc.splits if_splits)

lemma threads_closer: "closer_step s = Some t \<Longrightarrow> threads_ok s \<Longrightarrow> threads_ok t"
  by (auto simp: closer_step_def threads_ok_def AsyncLogger_shutdown_def wake_worker_def list_all_iff
      split: closer_pc.splits if_splits)

lemma logger_inv_move:
  assumes "logger_move env m s = Some t" and "items_ok env s \<and> threads_ok s"
  shows "items_ok env t \<and> threads_ok t"
proof (cases m)
  case (Call i item)
  with assms obtain M where "i < length (ls_threads s)" "ls_threads s ! i = P_idle"
      "all_underway (ls_threads s) = M + underway (ls_threads s ! i)"
      "\<And>v. all_underway ((ls_threads s)[i := v]) = M + underway v"
    using underway_split [of i "ls_threads s"] by (auto simp: logger_move_def split: if_splits)
  with Call assms have "items_ok env t"
    by (auto simp: logger_move_def items_ok_def set_logging_def)
  moreover from Call assms have "threads_ok t"
    by (intro threads_ok_set [of s "P_helper item" t i]) (auto simp: logger_move_def set_logging_def split: if_splits)
  ultimately show ?thesis ..
next
  case (Logging i w)
  with assms show ?thesis
    using items_logging threads_logging by (auto simp: logger_move_def split: if_splits)
next
  case (Worker w)
  with assms show ?thesis using items_worker threads_worker by (auto simp: logger_move_def)
next
  case Closer
  with assms show ?thesis using items_closer threads_closer by (auto simp: logger_move_def)
next
  case (Spurious w)
  with assms show ?thesis using logger_wake_frame by (auto simp: logger_move_def)
qed

interpretation logging: invariant "logger_move env" "\<lambda>s. items_ok env s \<and> threads_ok s" for env
  by unfold_locales (rule logger_inv_move)

lemma all_underway_idle: "all_underway (replicate n P_idle) = {#}"
  by (induction n) (simp_all add: all_underway_def)

lemma logger_inv_init: "items_ok env (logger_system_init cap n) \<and> threads_ok (logger_system_init cap n)"
  by (simp add: items_ok_def threads_ok_def logger_system_init_def queue_ok_init all_underway_idle
      list_all_iff) (simp add: AsyncLogger_init_def)

lemmas logger_reach_inv = logging.reach_keeps [OF _ logger_inv_init]

subsection \<open>Properties\<close>

text \<open>C22: The messages that came out of the queue, then the one the worker holds, then those queued are
  the accepted ones in the order of acceptance; each message of a call is exactly once accepted,
  printed or still in its thread; the log is the lines of what was written, in order. The gauge
  and the bound hold at every moment.\<close>

theorem logger_exactly_once:
  assumes "reach (logger_move env) (logger_system_init cap n) s"
  shows "ls_queued s = ls_written s @ in_hand (ls_worker s) @ log_queue (ls_logger s)
    \<and> mset (ls_called s) = mset (ls_queued s) + mset (ls_printed s) + all_underway (ls_threads s)
    \<and> lg_out (ls_logger s) = concat (map (log_line env) (ls_written s))
    \<and> lg_terminal (ls_logger s) = concat (map (terminal_line env) (ls_printed s))
    \<and> length (log_queue (ls_logger s)) \<le> MAX_QUEUE_SIZE (ls_logger s)
    \<and> logger_pending (ls_logger s) = of_nat (length (log_queue (ls_logger s)))"
  using logger_reach_inv [OF assms] by (simp add: items_ok_def queue_ok_def)

text \<open>A thread that sleeps for room has a warning or an error to log; information and debug messages never
  wait.\<close>

theorem logger_minor_never_waits:
  assumes "reach (logger_move env) (logger_system_init cap n) s" and "P_wait item \<in> set (ls_threads s)"
  shows "item_level item = Warn \<or> item_level item = Error"
proof -
  have "list_all may_wait (ls_threads s)" using logger_reach_inv [OF assms(1)] by (simp add: threads_ok_def)
  with assms(2) show ?thesis by (auto simp: list_all_iff)
qed

text \<open>C23: When \<^verbatim>\<open>shutdown\<close> has returned the worker has written every accepted message, and no thread is asleep;
  once the threads are idle, every message of a call has been written or printed exactly once.\<close>

theorem logger_shutdown_complete:
  assumes "reach (logger_move env) (logger_system_init cap n) s" and "ls_closer s = C_return"
  shows "ls_written s = ls_queued s \<and> log_queue (ls_logger s) = []
    \<and> list_all (\<lambda>pc. \<not> waiting_log pc) (ls_threads s)
    \<and> (list_all (\<lambda>pc. pc = P_idle) (ls_threads s) \<longrightarrow>
         mset (ls_called s) = mset (ls_written s) + mset (ls_printed s))"
proof -
  have i: "items_ok env s" "threads_ok s" using logger_reach_inv [OF assms(1)] by simp_all
  then have w: "ls_worker s = W_done" "log_queue (ls_logger s) = []"
      "list_all (\<lambda>pc. \<not> waiting_log pc) (ls_threads s)"
    using assms(2) by (simp_all add: threads_ok_def)
  have "all_underway ts = {#}" if "list_all (\<lambda>pc. pc = P_idle) ts" for ts
    using that by (induction ts) (simp_all add: all_underway_def)
  with i(1) w show ?thesis by (simp add: items_ok_def)
qed

text \<open>What the worker has left to do.\<close>

definition worker_work :: "logger_system \<Rightarrow> nat" where
  "worker_work s = 3 * length (log_queue (ls_logger s)) +
     (case ls_worker s of W_consume \<Rightarrow> 1 | W_wait \<Rightarrow> 0 | W_notify _ \<Rightarrow> 3 | W_write _ \<Rightarrow> 2 | W_done \<Rightarrow> 0)"

lemma worker_progress:
  assumes "threads_ok s" and "ls_closer s = C_join" and "ls_worker s \<noteq> W_done"
  obtains t where "worker_step env None s = Some t" "worker_work t < worker_work s" "ls_closer t = C_join"
proof -
  have w: "ls_worker s \<noteq> W_wait" "log_stop (ls_logger s)" "\<not> list_ex waiting_log (ls_threads s)"
    using assms by (auto simp: threads_ok_def list_all_iff list_ex_iff)
  with assms(2,3) that show thesis
    by (cases "ls_worker s"; cases "log_queue (ls_logger s)")
      (auto simp: worker_step_def AsyncLogger_consume_def AsyncLogger_write_log_def logger_notify_one_def
        worker_work_def)
qed

lemma worker_finishes:
  assumes "items_ok env s \<and> threads_ok s" and "ls_closer s = C_join"
  shows "\<exists>k t. run (logger_move env) (replicate k (Worker None) @ [Closer]) s = Some t
    \<and> ls_closer t = C_return \<and> k \<le> worker_work s"
  using assms
proof (induction "worker_work s" arbitrary: s rule: less_induct)
  case less
  show ?case
  proof (cases "ls_worker s = W_done")
    case True
    with less.prems show ?thesis
      by (intro exI [of _ 0]) (simp add: logger_move_def closer_step_def)
  next
    case False
    with less.prems obtain u where u: "worker_step env None s = Some u" "worker_work u < worker_work s"
        "ls_closer u = C_join"
      using worker_progress by metis
    then have m: "logger_move env (Worker None) s = Some u" by (simp add: logger_move_def)
    with less u obtain k t where "run (logger_move env) (replicate k (Worker None) @ [Closer]) u = Some t"
        "ls_closer t = C_return" "k \<le> worker_work u"
      using logger_inv_move [OF m] by blast
    with m u show ?thesis by (intro exI [of _ "Suc k"] exI [of _ t]) simp
  qed
qed

text \<open>C24: The join of \<^verbatim>\<open>shutdown\<close> returns: once everybody has been notified, the worker needs no other thread
  and at most three steps for each queued message and three more.\<close>

theorem logger_shutdown_returns:
  assumes "reach (logger_move env) (logger_system_init cap n) s" and "ls_closer s = C_join"
  shows "\<exists>k t. run (logger_move env) (replicate k (Worker None) @ [Closer]) s = Some t
    \<and> ls_closer t = C_return \<and> k \<le> 3 * length (log_queue (ls_logger s)) + 3"
proof -
  have "worker_work s \<le> 3 * length (log_queue (ls_logger s)) + 3"
    by (simp add: worker_work_def split: worker_pc.splits)
  with worker_finishes [OF logger_reach_inv [OF assms(1)] assms(2)] show ?thesis by (meson le_trans)
qed

subsection \<open>The lost wake-up\<close>

text \<open>The moves of a logger that is not shut down and in which no sleeper wakes without a notification.\<close>

definition calm_move :: "logger_env \<Rightarrow> logger_move \<Rightarrow> logger_system \<Rightarrow> logger_system option" where
  "calm_move env m s =
     (case m of Closer \<Rightarrow> None | Spurious w \<Rightarrow> None | _ \<Rightarrow> logger_move env m s)"

definition stuck :: "log_item list \<Rightarrow> log_item list \<Rightarrow> logger_system \<Rightarrow> bool" where
  "stuck written queue s \<longleftrightarrow> ls_worker s = W_wait \<and> \<not> log_stop (ls_logger s)
     \<and> log_queue (ls_logger s) = queue \<and> MAX_QUEUE_SIZE (ls_logger s) \<le> length queue
     \<and> P_notify \<notin> set (ls_threads s) \<and> ls_written s = written"

lemma not_notify_update: "P_notify \<notin> set ts \<Longrightarrow> pc \<noteq> P_notify \<Longrightarrow> P_notify \<notin> set (ts[i := pc])"
  by (auto dest: set_update_subset_insert [THEN subsetD])

lemma stuck_move: "stuck w q s \<Longrightarrow> calm_move env m s = Some t \<Longrightarrow> stuck w q t"
proof (cases m)
  case (Call i item)
  moreover assume "stuck w q s" "calm_move env m s = Some t"
  ultimately show ?thesis
    by (auto simp: calm_move_def logger_move_def stuck_def set_logging_def not_notify_update split: if_splits)
next
  case (Logging i v)
  moreover assume a: "stuck w q s" "calm_move env m s = Some t"
  ultimately have i: "i < length (ls_threads s)" "logging_step env i v s = Some t"
    by (auto simp: calm_move_def logger_move_def split: if_splits)
  then have "ls_threads s ! i \<noteq> P_notify" using a(1) i(1) unfolding stuck_def by (metis nth_mem)
  with i a(1) show ?thesis
    by (auto simp: logging_step_def stuck_def set_logging_def not_notify_update AsyncLogger_helper_def
        AsyncLogger_print_to_terminal_def Let_def split: logging_pc.splits if_splits)
next
  case (Worker v)
  moreover assume "stuck w q s" "calm_move env m s = Some t"
  ultimately show ?thesis by (auto simp: calm_move_def logger_move_def worker_step_def stuck_def)
qed (simp_all add: calm_move_def)

interpretation stuck: invariant "calm_move env" "stuck w q" for env w q
  by unfold_locales (rule stuck_move)

text \<open>C25: One condition variable serves both sides, and \<^verbatim>\<open>notify_one\<close> may wake the wrong one. With room for one
  message and two threads an interleaving leaves the worker asleep beside a queued message; until a
  shutdown or a spurious wake-up nothing is ever written again, whatever the threads log.\<close>

theorem logger_lost_wakeup:
  assumes "item_level warning = Warn"
  shows "\<exists>s. reach (logger_move env) (logger_system_init 1 2) s
    \<and> log_queue (ls_logger s) = [item] \<and> ls_threads s = [P_idle, P_wait warning]
    \<and> (\<forall>t. reach (calm_move env) s t \<longrightarrow> ls_written t = [] \<and> log_queue (ls_logger t) = [item] \<and> ls_worker t = W_wait)"
proof -
  let ?ms = "[Worker None, Call 0 item, Call 1 warning, Logging 0 None, Logging 1 None,
    Logging 0 (Some (Wake_thread 1)), Logging 1 None]"
  obtain s where s: "run (logger_move env) ?ms (logger_system_init 1 2) = Some s"
      "stuck [] [item] s" "ls_threads s = [P_idle, P_wait warning]"
    using assms
    by (simp add: logger_move_def logger_system_init_def AsyncLogger_init_def worker_step_def logging_step_def
        logger_ops set_logging_def logger_notify_one_def logger_wake_def numeral_2_eq_2 stuck_def)
  have "stuck [] [item] t" if "reach (calm_move env) s t" for t
    using stuck.reach_keeps [OF that s(2)] .
  then have "\<forall>t. reach (calm_move env) s t \<longrightarrow> ls_written t = [] \<and> log_queue (ls_logger t) = [item] \<and> ls_worker t = W_wait"
    by (simp add: stuck_def)
  with run_reach_start [OF s(1)] s(2,3) show ?thesis by (auto simp: stuck_def)
qed

subsection \<open>Witnesses\<close>

text \<open>Room for one message; the second thread's information message finds the queue full and is printed,
  and the logger is shut down.\<close>

definition demo_env :: logger_env where
  "demo_env = \<lparr>env_hash = id, env_format_time = (\<lambda>_. ''now'')\<rparr>"

definition demo_item :: "log_level \<Rightarrow> string \<Rightarrow> log_item" where
  "demo_item level msg = \<lparr>item_timestamp = 0, item_tid = 1, item_msg = msg, item_level = level\<rparr>"

definition demo_moves :: "logger_move list" where
  "demo_moves = [Call 0 (demo_item Warn ''a''), Logging 0 None, Call 1 (demo_item Info ''b''), Logging 1 None,
     Logging 1 None, Logging 0 None, Closer, Closer]"

lemmas demo_logger = demo_env_def demo_item_def demo_moves_def logger_move_def logger_system_init_def
  AsyncLogger_init_def worker_step_def logging_step_def closer_step_def wake_worker_def logger_ops
  set_logging_def logger_notify_one_def logger_wake_def numeral_2_eq_2

theorem logger_exactly_once_witness:
  "\<exists>s. reach (logger_move demo_env) (logger_system_init 1 2) s
    \<and> length (ls_queued s) = 1 \<and> mset (ls_called s) = mset (ls_queued s) + mset (ls_printed s)"
proof -
  obtain s where s: "run (logger_move demo_env) demo_moves (logger_system_init 1 2) = Some s"
      "length (ls_queued s) = 1" "ls_threads s = replicate 2 P_idle"
    by (simp add: demo_logger)
  note r = run_reach_start [OF s(1)]
  from logger_exactly_once [OF r] r s(2,3) all_underway_idle [of 2] show ?thesis by auto
qed

theorem logger_minor_never_waits_witness:
  "\<exists>s. reach (logger_move demo_env) (logger_system_init 1 2) s
    \<and> P_wait (demo_item Error ''b'') \<in> set (ls_threads s)
    \<and> (item_level (demo_item Error ''b'') = Warn \<or> item_level (demo_item Error ''b'') = Error)"
proof -
  let ?ms = "[Call 0 (demo_item Warn ''a''), Logging 0 None, Call 1 (demo_item Error ''b''), Logging 1 None]"
  obtain s where s: "run (logger_move demo_env) ?ms (logger_system_init 1 2) = Some s"
      "P_wait (demo_item Error ''b'') \<in> set (ls_threads s)"
    by (simp add: demo_logger)
  note r = run_reach_start [OF s(1)]
  from logger_minor_never_waits [OF r s(2)] r s(2) show ?thesis by blast
qed

theorem logger_shutdown_complete_witness:
  "\<exists>s. reach (logger_move demo_env) (logger_system_init 1 2) s \<and> ls_closer s = C_return
    \<and> length (ls_called s) = 2 \<and> mset (ls_called s) = mset (ls_written s) + mset (ls_printed s)"
proof -
  obtain s where s: "run (logger_move demo_env) (demo_moves @ replicate 4 (Worker None) @ [Closer])
        (logger_system_init 1 2) = Some s"
      "ls_closer s = C_return" "ls_threads s = replicate 2 P_idle" "length (ls_called s) = 2"
    by (simp add: demo_logger numeral_eq_Suc)
  note r = run_reach_start [OF s(1)]
  from logger_shutdown_complete [OF r s(2)] r s(2-4) show ?thesis by (auto simp: list_all_iff)
qed

theorem logger_shutdown_returns_witness:
  "\<exists>s k t. reach (logger_move demo_env) (logger_system_init 1 2) s \<and> length (log_queue (ls_logger s)) = 1
    \<and> run (logger_move demo_env) (replicate k (Worker None) @ [Closer]) s = Some t
    \<and> ls_closer t = C_return \<and> k \<le> 6"
proof -
  obtain s where s: "run (logger_move demo_env) demo_moves (logger_system_init 1 2) = Some s"
      "ls_closer s = C_join" "length (log_queue (ls_logger s)) = 1"
    by (simp add: demo_logger)
  note r = run_reach_start [OF s(1)]
  from logger_shutdown_returns [OF r s(2)] r s(3) show ?thesis by fastforce
qed

theorem logger_lost_wakeup_witness:
  "\<exists>s. reach (logger_move demo_env) (logger_system_init 1 2) s
    \<and> log_queue (ls_logger s) = [demo_item Error ''x'']
    \<and> (\<forall>t. reach (calm_move demo_env) s t \<longrightarrow> ls_written t = [])"
  using logger_lost_wakeup [of "demo_item Warn ''y''" demo_env "demo_item Error ''x''"]
  by (auto simp: demo_item_def)

end
