(* ===== verification/Daemon.thy ===== *)
theory Daemon
  imports Metrics Dispatch_Faults
begin

section \<open>Daemon::run and main (src/daemon\_system/daemon.cpp, src/main.cpp)\<close>

text \<open>
  The life of the daemon as the sequence of what its main thread does. What it reads on the way is an
  input: the shutdown flag, asked once a second, and the metrics, read once a second after the
  shutdown has begun. The signal handler is a write to that flag.
\<close>

datatype daemon_action =
    Start_manager
  | Init_history u64
  | Start_scheduler
  | Start_httpserver
  | Sleep nat
  | Http_drain
  | Scheduler_stop
  | Http_stop
  | Log_error string
  | Join_scheduler
  | Join_httpserver

text \<open>\<^verbatim>\<open>while (!shutdown_flag.load()) sleep\<close>; no result stands for a loop that does not end.\<close>

partial_function (option) Daemon_await :: "(nat \<Rightarrow> bool) \<Rightarrow> nat \<Rightarrow> daemon_action list option" where
  "Daemon_await flag k =
     (if flag k then Some []
      else Option.bind (Daemon_await flag (Suc k)) (\<lambda>as. Some (Sleep 1000 # as)))"

text \<open>The drain loop: \<open>readings k\<close> is what the loads of round \<open>k\<close> deliver. The flag is \<^verbatim>\<open>server_stopped\<close>.\<close>

fun Daemon_drain_loop :: "nat \<Rightarrow> u16 \<Rightarrow> (nat \<Rightarrow> metrics) \<Rightarrow> nat \<Rightarrow> daemon_action list \<times> bool" where
  "Daemon_drain_loop 0 sec readings k = ([], False)"
| "Daemon_drain_loop (Suc drain_time) sec readings k =
     (if metrics_drained (readings k) then ([Sleep (1000 * unat sec), Http_stop], True)
      else let (as, server_stopped) = Daemon_drain_loop drain_time sec readings (Suc k)
           in (Sleep 1000 # as, server_stopped))"

definition not_drained :: string where
  "not_drained = ''metrics value not drained; stop httpserver unexpectedly.''"

definition Daemon_end :: "u16 \<Rightarrow> (nat \<Rightarrow> metrics) \<Rightarrow> daemon_action list" where
  "Daemon_end sec readings =
     (let (as, server_stopped) = Daemon_drain_loop 1000 sec readings 0
      in [Http_drain, Scheduler_stop] @ as
         @ (if server_stopped then [] else [Http_stop, Log_error not_drained])
         @ [Join_scheduler, Join_httpserver])"

definition Daemon_run ::
    "u16 \<Rightarrow> u64 \<Rightarrow> (nat \<Rightarrow> bool) \<Rightarrow> (nat \<Rightarrow> metrics) \<Rightarrow> daemon_action list option" where
  "Daemon_run sec max_id flag readings =
     Option.bind (Daemon_await flag 0) (\<lambda>as. Some
       ([Start_manager, Init_history max_id, Start_scheduler, Start_httpserver] @ as
        @ Daemon_end sec readings))"

text \<open>\<^verbatim>\<open>main\<close>: the exit code, and whether the logger was shut down, given what its calls do.\<close>

datatype daemon_outcome = Returned | Threw_std string | Threw_other

definition main :: "bool \<Rightarrow> bool \<Rightarrow> daemon_outcome \<Rightarrow> int \<times> bool" where
  "main config_loaded logger_started outcome =
     (if \<not> config_loaded then (1, False)
      else if \<not> logger_started then (1, False)
      else (case outcome of Returned \<Rightarrow> 0 | Threw_std what \<Rightarrow> 1 | Threw_other \<Rightarrow> 1, True))"

subsection \<open>The loops\<close>

lemma await_Some: "(\<forall>j < n. \<not> flag (k + j)) \<Longrightarrow> flag (k + n) \<Longrightarrow>
    Daemon_await flag k = Some (replicate n (Sleep 1000))"
proof (induction n arbitrary: k)
  case 0
  then show ?case by (subst Daemon_await.simps) simp
next
  case (Suc n)
  from Suc.prems(1) have "\<not> flag k" by (metis add.right_neutral zero_less_Suc)
  moreover have "Daemon_await flag (Suc k) = Some (replicate n (Sleep 1000))"
    using Suc.prems by (intro Suc.IH) auto
  ultimately show ?case by (subst Daemon_await.simps) simp
qed

lemma await_ends:
  assumes "Daemon_await flag k = Some as"
  shows "\<exists>j. flag j"
proof (rule Daemon_await.raw_induct [where P = "\<lambda>flag k as. \<exists>j. flag j", OF _ assms])
  fix rec :: "(nat \<Rightarrow> bool) \<Rightarrow> nat \<Rightarrow> daemon_action list option" and flag k as
  assume h: "\<And>flag k as. rec flag k = Some as \<Longrightarrow> \<exists>j. flag j"
    and r: "(if flag k then Some [] else Option.bind (rec flag (Suc k)) (\<lambda>as. Some (Sleep 1000 # as))) = Some as"
  show "\<exists>j. flag j"
  proof (cases "flag k")
    case False
    with r obtain bs where "rec flag (Suc k) = Some bs" by (auto split: bind_splits)
    then show ?thesis by (rule h)
  qed blast
qed

lemma await_iff:
  "Daemon_await flag 0 = (if \<exists>j. flag j then Some (replicate (LEAST j. flag j) (Sleep 1000)) else None)"
proof (cases "\<exists>j. flag j")
  case True
  have "Daemon_await flag 0 = Some (replicate (LEAST j. flag j) (Sleep 1000))"
  proof (rule await_Some; unfold add_0)
    show "flag (LEAST j. flag j)" using True by (rule LeastI_ex)
    show "\<forall>j < (LEAST j. flag j). \<not> flag j" using not_less_Least by blast
  qed
  with True show ?thesis by (simp only: if_True)
next
  case False
  then have "Daemon_await flag 0 = None" using await_ends by (cases "Daemon_await flag 0") auto
  with False show ?thesis by (simp only: if_False)
qed

fun slept :: "daemon_action \<Rightarrow> nat" where
  "slept (Sleep ms) = ms"
| "slept _ = 0"

lemma drain_loop:
  "Daemon_drain_loop n sec readings k = (as, b) \<Longrightarrow>
     (b \<longleftrightarrow> (\<exists>j < n. metrics_drained (readings (k + j)))) \<and> count_list as Http_stop = of_bool b
     \<and> Log_error not_drained \<notin> set as \<and> sum_list (map slept as) \<le> 1000 * (n + unat sec)"
proof (induction n arbitrary: k as b)
  case 0
  then show ?case by simp
next
  case (Suc n)
  have ex: "(\<exists>j < Suc n. P (k + j)) \<longleftrightarrow> P k \<or> (\<exists>j < n. P (Suc k + j))" for P
    by (auto simp: less_Suc_eq_0_disj)
  show ?case
  proof (cases "metrics_drained (readings k)")
    case True
    with Suc.prems show ?thesis by (auto simp: ex)
  next
    case False
    obtain bs b' where r: "Daemon_drain_loop n sec readings (Suc k) = (bs, b')"
      by (cases "Daemon_drain_loop n sec readings (Suc k)")
    with Suc.prems False have "as = Sleep 1000 # bs" "b = b'" by simp_all
    with Suc.IH [OF r] False show ?thesis
      unfolding ex [where P = "\<lambda>i. metrics_drained (readings i)"] by simp
  qed
qed

lemma drain_loop_never:
  "(\<And>j. \<not> metrics_drained (readings j)) \<Longrightarrow> Daemon_drain_loop n sec readings k = (replicate n (Sleep 1000), False)"
  by (induction n arbitrary: k) simp_all

subsection \<open>Properties\<close>



text \<open>C29: The counter that a shutdown during a dispatch leaves at -1 makes the daemon wait in vain: whatever
  happens after it, every reading of \<^verbatim>\<open>scan_running\<close> differs from 0, so the daemon sleeps a thousand seconds,
  gives no time for the download and logs the error.\<close>

theorem daemon_waits_in_vain:
  "\<exists>s. run ds_step late_shutdown (ds_init (Scheduler_init 2 8)) = Some s
     \<and> (\<forall>readings sec. (\<forall>k. \<exists>ms t. run ds_step ms s = Some t
            \<and> scan_running (readings k) = word_of_int (metric_scan_running (ds_sched t)))
          \<longrightarrow> Daemon_end sec readings = [Http_drain, Scheduler_stop] @ replicate 1000 (Sleep 1000)
                @ [Http_stop, Log_error not_drained, Join_scheduler, Join_httpserver])"
proof -
  obtain s where s: "run ds_step late_shutdown (ds_init (Scheduler_init 2 8)) = Some s" "underflown s"
    using late_shutdown_underflown by blast
  have "Daemon_end sec readings = [Http_drain, Scheduler_stop] @ replicate 1000 (Sleep 1000)
      @ [Http_stop, Log_error not_drained, Join_scheduler, Join_httpserver]"
    if r: "\<forall>k. \<exists>ms t. run ds_step ms s = Some t
      \<and> scan_running (readings k) = word_of_int (metric_scan_running (ds_sched t))" for readings sec
  proof -
    have "\<not> metrics_drained (readings k)" for k
    proof -
      from r obtain ms t where t: "run ds_step ms s = Some t"
          "scan_running (readings k) = word_of_int (metric_scan_running (ds_sched t))" by blast
      have "metric_scan_running (ds_sched t) = -1"
        using underflow.run_keeps [OF t(1) s(2)] by (simp add: underflown_def)
      with t(2) show ?thesis by (simp add: metrics_drained_def)
    qed
    then show ?thesis by (simp add: Daemon_end_def drain_loop_never)
  qed
  with s(1) show ?thesis by blast
qed

theorem daemon_waits_in_vain_witness:
  "Daemon_end 5 (\<lambda>k. Metrics_init\<lparr>scan_running := -1\<rparr>) = [Http_drain, Scheduler_stop] @ replicate 1000 (Sleep 1000)
     @ [Http_stop, Log_error not_drained, Join_scheduler, Join_httpserver]"
proof -
  obtain s where s: "run ds_step late_shutdown (ds_init (Scheduler_init 2 8)) = Some s" "underflown s"
    using late_shutdown_underflown by blast
  have "\<exists>ms t. run ds_step ms s = Some t
      \<and> scan_running (Metrics_init\<lparr>scan_running := -1\<rparr>) = word_of_int (metric_scan_running (ds_sched t))"
    using s(2) by (intro exI [of _ "[]"] exI [of _ s]) (simp add: underflown_def)
  with daemon_waits_in_vain s(1) show ?thesis by fastforce
qed

end
