(* ===== verification/Restart.thy ===== *)
theory Restart
  imports Scheduler Export_Manager
begin

section \<open>Scan ids across a restart (Daemon::run, Scheduler, ScanTable, ExportManager)\<close>

text \<open>
  At its start the daemon reads the largest id of the table of finished scans and lets the scheduler
  count on from there. The row of a scan is written when the scan is finalised; its index rows are
  committed before, batch by batch. So the ids of finished scans are never used again, but the id
  of a scan that a crash interrupted is.
\<close>

definition Daemon_init_history :: "index_db \<Rightarrow> scheduler \<Rightarrow> scheduler" where
  "Daemon_init_history db s = Scheduler_init_history_scan_id (ScanTable_get_max_id db) s"

definition gen_ids :: "nat \<Rightarrow> scheduler \<Rightarrow> scheduler" where
  "gen_ids n s = ((snd \<circ> Scheduler_gen_scan_id) ^^ n) s"

lemma gen_ids_next: "next_scan_id (gen_ids n s) = next_scan_id s + of_nat n"
  by (induction n) (simp_all add: gen_ids_def Scheduler_gen_scan_id_def ac_simps)

lemma max_id_ge:
  assumes "t \<in> set (scan_task_table db)"
  shows "sint (st_scan_id (te_row t)) \<le> sint (ScanTable_get_max_id db)"
proof -
  let ?max = "\<lambda>(m :: u64) i. if sint m < sint i then i else m"
  have grows: "sint m \<le> sint (foldl ?max m is)" for m "is"
  proof (induction "is" arbitrary: m)
    case (Cons i "is")
    have "sint m \<le> sint (?max m i)" by simp
    also have "\<dots> \<le> sint (foldl ?max (?max m i) is)" by (rule Cons.IH)
    finally show ?case by simp
  qed simp
  have "i \<in> set is \<Longrightarrow> sint i \<le> sint (foldl ?max m is)" for m i "is"
  proof (induction "is" arbitrary: m)
    case (Cons j "is")
    show ?case
    proof (cases "i = j")
      case True
      have "sint i \<le> sint (?max m i)" by simp
      also have "\<dots> \<le> sint (foldl ?max (?max m i) is)" by (rule grows)
      finally show ?thesis unfolding True by (simp only: foldl_Cons)
    next
      case False
      with Cons show ?thesis by simp
    qed
  qed simp
  with assms show ?thesis by (simp add: ScanTable_get_max_id_def)
qed

lemma sint_add_nat:
  assumes "sint (w :: u64) + int n < 2 ^ 63"
  shows "sint (w + of_nat n) = sint w + int n"
proof -
  have "- (2 ^ 63) \<le> sint w" using sint_ge [of w] by simp
  moreover have "sint (word_of_int k :: u64) = k" if "- (2 ^ 63) \<le> k" "k < 2 ^ 63" for k
    using that by (simp add: sint_sbintrunc' signed_take_bit_int_eq_self)
  moreover have "w + of_nat n = word_of_int (sint w + int n)" by simp
  ultimately show ?thesis using assms by (metis add_increasing2 of_nat_0_le_iff)
qed

text \<open>C30: After a restart the scheduler gives ids larger than those of all finished scans, until the signed
  64-bit range that the database stores is used up.\<close>

theorem restart_ids_fresh:
  assumes "t \<in> set (scan_task_table db)"
    and "sint (ScanTable_get_max_id db) + 1 + int n < 2 ^ 63"
  shows "sint (st_scan_id (te_row t)) < sint (fst (Scheduler_gen_scan_id (gen_ids n (Daemon_init_history db s))))"
proof -
  have "next_scan_id (gen_ids n (Daemon_init_history db s)) = ScanTable_get_max_id db + of_nat (Suc n)"
    by (simp add: gen_ids_next Daemon_init_history_def Scheduler_init_history_scan_id_def ac_simps)
  then have "sint (fst (Scheduler_gen_scan_id (gen_ids n (Daemon_init_history db s))))
      = sint (ScanTable_get_max_id db) + int (Suc n)"
    using sint_add_nat [of "ScanTable_get_max_id db" "Suc n"] assms(2)
    by (simp add: Scheduler_gen_scan_id_def)
  with max_id_ge [OF assms(1)] show ?thesis by simp
qed

definition demo_task :: "u64 \<Rightarrow> scan_task_row" where
  "demo_task i = \<lparr>st_scan_id = i, st_start_time = 2, st_finish_time = 3, st_submit_root = ''/r'', st_end_state = DONE\<rparr>"

theorem restart_ids_fresh_witness:
  "sint (7 :: u64) < sint (fst (Scheduler_gen_scan_id
     (gen_ids 2 (Daemon_init_history (ScanTable_upsert (demo_task 7) empty_db) (Scheduler_init 2 8)))))"
proof -
  let ?db = "ScanTable_upsert (demo_task 7) empty_db"
  have t: "scan_task_table ?db = [\<lparr>te_row = demo_task 7, te_dir_count = None, te_file_count = None,
      te_link_count = None, te_total_size = None\<rparr>]"
    by (simp add: ScanTable_upsert_def empty_db_def)
  have "ScanTable_get_max_id ?db = 7" unfolding ScanTable_get_max_id_def ScanTable_stmt_get_max_id_def t by (simp add: demo_task_def)
  then have "sint (ScanTable_get_max_id ?db) + 1 + int 2 < 2 ^ 63" by simp
  moreover obtain x where "x \<in> set (scan_task_table ?db)" "st_scan_id (te_row x) = 7"
    unfolding t by (simp add: demo_task_def)
  ultimately show ?thesis using restart_ids_fresh [of x ?db 2 "Scheduler_init 2 8"] by (simp only:)
qed

lemma upsert_all_other:
  "\<forall>e \<in> set es. fe_path e \<noteq> p \<Longrightarrow>
   current_at (index_current (upsert_all message es db)) p = current_at (index_current db) p"
  unfolding upsert_all_def by (induction es arbitrary: db) (auto simp: upsert_eq)

lemma current_at_keep: "current_at c p = Some r \<Longrightarrow> P r \<Longrightarrow> current_at (filter P c) p = Some r"
  by (induction c) (auto simp: current_at_def split: if_splits)

lemma write_result_event:
  assumes "\<not> is_sentinel (fe_end_signal e)"
  shows "ex_db (ExportManager_write_result message glob e x) = IndexWriter_upsert message e (ex_db x)"
  using assms by (simp add: ExportManager_write_result_def ExportManager_commit_batch_def Let_def)

text \<open>C31: A crash while a scan is exported makes a later index wrong. The scan wrote the row of a path and
  the batch was committed, but its own row was not yet; after the restart the next scan gets the
  same id, and a scan of that root that no longer meets the path leaves it in the index, since
  \<^verbatim>\<open>mark_deleted\<close> takes the row for one of its own.\<close>

theorem restart_reuses_interrupted_id:
  assumes "fe_scan_id e = ScanTable_get_max_id (ex_db x) + 1" and "\<not> is_sentinel (fe_end_signal e)"
    and "x' = ExportManager_write_result message glob e x" and "ex_batch_count x' = 0"
    and "\<forall>e' \<in> set es. fe_path e' \<noteq> fe_path e"
  shows "fst (Scheduler_gen_scan_id (Daemon_init_history (ex_db x') s)) = fe_scan_id e
    \<and> current_at (index_current (export_scan message glob
         \<lparr>dt_scan_id = fe_scan_id e, dt_submit_root = r, dt_canceled = False\<rparr> es (ex_db x'))) (fe_path e)
       = Some (event_current message e)"
proof
  have db: "ex_db x' = IndexWriter_upsert message e (ex_db x)"
    using assms(3) write_result_event [OF assms(2)] by simp
  then have "ScanTable_get_max_id (ex_db x') = ScanTable_get_max_id (ex_db x)"
    by (simp add: upsert_eq ScanTable_get_max_id_def)
  then show "fst (Scheduler_gen_scan_id (Daemon_init_history (ex_db x') s)) = fe_scan_id e"
    using assms(1) by (simp add: Daemon_init_history_def Scheduler_init_history_scan_id_def Scheduler_gen_scan_id_def)
  have "current_at (index_current (upsert_all message es (ex_db x'))) (fe_path e) = Some (event_current message e)"
    using upsert_all_other [OF assms(5)] by (simp add: db upsert_eq)
  then show "current_at (index_current (export_scan message glob
      \<lparr>dt_scan_id = fe_scan_id e, dt_submit_root = r, dt_canceled = False\<rparr> es (ex_db x'))) (fe_path e)
    = Some (event_current message e)"
    by (simp add: export_scan_def IndexWriter_mark_deleted_def Let_def current_at_keep unseen_under_def)
qed

theorem restart_reuses_interrupted_id_witness:
  "map_option cr_path (current_at (index_current (export_scan (\<lambda>n. []) (\<lambda>p t. True)
       \<lparr>dt_scan_id = 1, dt_submit_root = ''/r'', dt_canceled = False\<rparr> [demo_event 1 ''/r/b'' 5]
       (ex_db (ExportManager_write_result (\<lambda>n. []) (\<lambda>p t. True) (demo_event 1 ''/r/a'' 5)
         (ExportManager_init 1 empty_db))))) ''/r/a'')
    = Some ''/r/a''"
proof -
  let ?e = "demo_event 1 ''/r/a'' 5" and ?x = "ExportManager_init 1 empty_db"
  have e: "fe_scan_id ?e = 1" "fe_path ?e = ''/r/a''" "\<not> is_sentinel (fe_end_signal ?e)"
    by (simp_all add: demo_event_def Sentinel_init_def)
  have "fe_scan_id ?e = ScanTable_get_max_id (ex_db ?x) + 1"
    by (simp add: e ExportManager_init_def empty_db_def ScanTable_get_max_id_def)
  moreover have "ex_batch_count (ExportManager_write_result (\<lambda>n. []) (\<lambda>p t. True) ?e ?x) = 0"
    by (simp add: e ExportManager_init_def ExportManager_write_result_def ExportManager_commit_batch_def Let_def)
  moreover have "\<forall>e' \<in> set [demo_event 1 ''/r/b'' 5]. fe_path e' \<noteq> fe_path ?e" by (simp add: demo_event_def)
  ultimately have "current_at (index_current (export_scan (\<lambda>n. []) (\<lambda>p t. True)
      \<lparr>dt_scan_id = fe_scan_id ?e, dt_submit_root = ''/r'', dt_canceled = False\<rparr> [demo_event 1 ''/r/b'' 5]
      (ex_db (ExportManager_write_result (\<lambda>n. []) (\<lambda>p t. True) ?e ?x)))) (fe_path ?e)
      = Some (event_current (\<lambda>n. []) ?e)"
    by (rule restart_reuses_interrupted_id [OF _ e(3) refl, THEN conjunct2])
  then show ?thesis by (simp only: e option.map event_current_simps)
qed

end
