(* ===== verification/Pipeline.thy ===== *)
theory Pipeline
  imports Manager_Properties Export_Manager
begin

section \<open>From the file tree to the index: Manager and ExportManager together\<close>

text \<open>
  What the scan system pushes to the export queue is what the exporter pops from it. This theory
  composes the two: the scan's tree has each path once, the sentinel carries the cancellation, and
  the export of the events of a completed scan makes the index the tree.
\<close>

subsection \<open>The paths of a tree\<close>

text \<open>What \<^verbatim>\<open>readdir\<close> promises: the names of a directory differ, and none holds a slash.\<close>

definition names_ok :: "file_system \<Rightarrow> bool" where
  "names_ok fs \<longleftrightarrow> (\<forall>p. distinct (snd (fs_readdir fs p)) \<and> (\<forall>name \<in> set (snd (fs_readdir fs p)). CHR ''/'' \<notin> set name))"

lemma scan_children_distinct: "distinct names \<Longrightarrow> distinct (scan_children d names)"
  by (induction names) (auto simp: scan_children_set)

lemma node_children_form:
  assumes "names_ok fs"
  shows "distinct (node_children fs d)"
    and "c \<in> set (node_children fs d) \<Longrightarrow>
      \<exists>name. CHR ''/'' \<notin> set name \<and> c = \<lparr>sd_scan_id = sd_scan_id d, sd_path = sd_path d @ ''/'' @ name\<rparr>"
proof -
  obtain names where n: "node_children fs d = [] \<or> node_children fs d = scan_children d names"
      "names = snd (fs_readdir fs (sd_path d))"
    by (auto simp: node_children_def MultiScanner_scan_one_node_def Let_def
        split: sum.splits option.splits prod.splits list.splits)
  then have ok: "distinct names" "\<forall>name \<in> set names. CHR ''/'' \<notin> set name"
    using assms by (auto simp: names_ok_def)
  with n scan_children_distinct show "distinct (node_children fs d)" by auto
  show "c \<in> set (node_children fs d) \<Longrightarrow>
      \<exists>name. CHR ''/'' \<notin> set name \<and> c = \<lparr>sd_scan_id = sd_scan_id d, sd_path = sd_path d @ ''/'' @ name\<rparr>"
    using n(1) ok(2) by (auto simp: scan_children_set)
qed

lemma set_mset_sum_list: "set_mset (sum_list (map f xs)) = (\<Union>x \<in> set xs. set_mset (f x))"
  by (induction xs) auto

lemma node_event_signal: "fe_end_signal (node_event fs d) = Sentinel_init"
  by (auto simp: node_event_def MultiScanner_scan_one_node_def Let_def
      split: sum.splits option.splits prod.splits list.splits)

lemma tree_event:
  "e \<in># tree_events fs n d \<Longrightarrow> fe_scan_id e = sd_scan_id d \<and> \<not> is_sentinel (fe_end_signal e)
     \<and> (names_ok fs \<longrightarrow> fe_path e = sd_path d \<or> starts_with (sd_path d @ ''/'') (fe_path e))"
proof (induction n arbitrary: d)
  case 0
  then show ?case by simp
next
  case (Suc n)
  then consider "e = node_event fs d" | c where "c \<in> set (node_children fs d)" "e \<in># tree_events fs n c"
    by (auto simp: set_mset_sum_list)
  then show ?case
  proof cases
    case 2
    with Suc.IH [OF 2(2)] node_children_id [OF 2(1)] node_children_form(2) [OF _ 2(1)] show ?thesis
      by (fastforce simp: starts_with_iff)
  qed simp
qed

lemma tree_event_signal: "e \<in># tree_events fs n d \<Longrightarrow> fe_end_signal e = Sentinel_init"
proof (induction n arbitrary: d)
  case (Suc n)
  then show ?case by (auto simp: set_mset_sum_list node_event_signal)
qed simp

lemma sum_at_most_one:
  assumes "distinct cs" and "\<forall>c \<in> set cs. f c \<le> (1 :: nat)"
    and "\<forall>c \<in> set cs. \<forall>c' \<in> set cs. 0 < f c \<and> 0 < f c' \<longrightarrow> c = c'"
  shows "sum_list (map f cs) \<le> 1"
  using assms
proof (induction cs)
  case (Cons c cs)
  show ?case
  proof (cases "f c = 0")
    case True
    with Cons show ?thesis by simp
  next
    case False
    with Cons.prems have "\<forall>c' \<in> set cs. f c' = 0" by (metis distinct.simps(2) gr0I list.set_intros(1,2))
    then have "sum_list (map f cs) = 0" by (induction cs) auto
    moreover have "f c \<le> 1" using Cons.prems(2) by simp
    ultimately show ?thesis by (simp only: list.map sum_list.Cons add_0_right)
  qed
qed simp

lemma count_path_sum:
  "count (image_mset fe_path (sum_list (map f xs))) p = sum_list (map (\<lambda>x. count (image_mset fe_path (f x)) p) xs)"
  by (induction xs) simp_all

lemma same_child:
  assumes "starts_with (d @ ''/'' @ a @ ''/'') p \<or> p = d @ ''/'' @ a"
    and "starts_with (d @ ''/'' @ b @ ''/'') p \<or> p = d @ ''/'' @ b"
    and "CHR ''/'' \<notin> set a" and "CHR ''/'' \<notin> set b"
  shows "a = b"
proof -
  have "takeWhile (\<lambda>c. c \<noteq> CHR ''/'') (drop (length d + 1) p) = x"
    if "starts_with (d @ ''/'' @ x @ ''/'') p \<or> p = d @ ''/'' @ x" "CHR ''/'' \<notin> set x" for x
    using that by (auto simp: starts_with_iff takeWhile_append)
  with assms show ?thesis by metis
qed

lemma tree_path_once:
  assumes "names_ok fs"
  shows "count (image_mset fe_path (tree_events fs n d)) p \<le> 1"
proof (induction n arbitrary: d)
  case 0
  then show ?case by simp
next
  case (Suc n)
  let ?f = "\<lambda>c. count (image_mset fe_path (tree_events fs n c)) p"
  have below: "starts_with (sd_path c @ ''/'') p \<or> p = sd_path c" if "0 < ?f c" for c
  proof -
    from that have "p \<in># image_mset fe_path (tree_events fs n c)" by (simp only: count_greater_zero_iff)
    with assms tree_event show ?thesis by fastforce
  qed
  have one: "sum_list (map ?f (node_children fs d)) \<le> 1"
  proof (rule sum_at_most_one)
    show "distinct (node_children fs d)" using assms by (rule node_children_form)
    show "\<forall>c \<in> set (node_children fs d). ?f c \<le> 1" using Suc by blast
    show "\<forall>c \<in> set (node_children fs d). \<forall>c' \<in> set (node_children fs d). 0 < ?f c \<and> 0 < ?f c' \<longrightarrow> c = c'"
    proof (intro ballI impI, elim conjE)
      fix c c' assume c: "c \<in> set (node_children fs d)" "0 < ?f c" and c': "c' \<in> set (node_children fs d)" "0 < ?f c'"
      obtain a b where a: "CHR ''/'' \<notin> set a" "c = \<lparr>sd_scan_id = sd_scan_id d, sd_path = sd_path d @ ''/'' @ a\<rparr>"
        and b: "CHR ''/'' \<notin> set b" "c' = \<lparr>sd_scan_id = sd_scan_id d, sd_path = sd_path d @ ''/'' @ b\<rparr>"
        using node_children_form(2) [OF assms c(1)] node_children_form(2) [OF assms c'(1)] by blast
      have "a = b"
        using below [OF c(2)] below [OF c'(2)] a b by (intro same_child [of "sd_path d" a p b]) simp_all
      then show "c = c'" using a b by simp
    qed
  qed
  show ?case
  proof (cases "p = sd_path d")
    case True
    have "?f c = 0" if "c \<in> set (node_children fs d)" for c
    proof (rule ccontr)
      assume "?f c \<noteq> 0"
      then have "starts_with (sd_path c @ ''/'') p \<or> p = sd_path c" using below by blast
      with node_children_form(2) [OF assms that] True show False by (auto simp: starts_with_iff)
    qed
    then have "sum_list (map ?f (node_children fs d)) = 0" by simp
    with True show ?thesis by (simp add: count_path_sum)
  next
    case False
    with one show ?thesis by (simp add: count_path_sum)
  qed
qed

lemma tree_paths_distinct:
  assumes "names_ok fs" and "mset es = tree_events fs n d"
  shows "distinct (map fe_path es)"
proof -
  have "count (mset (map fe_path es)) p \<le> 1" for p
    using tree_path_once [OF assms(1), of n d p] by (simp add: assms(2))
  then show ?thesis
    unfolding distinct_count_atmost_1 by (metis Suc_eq_plus1 add_0 count_eq_zero_iff le_SucE le_zero_eq One_nat_def set_mset_mset)
qed

subsection \<open>What the sentinel says\<close>

text \<open>A sentinel that says cancelled, pushed or about to be, belongs to a scan that is cancelled.\<close>

fun signal_ok :: "u64 \<Rightarrow> manager \<Rightarrow> frame \<Rightarrow> bool" where
  "signal_ok i s (Signalling d sc t) = (sd_scan_id d = i \<and> sc \<longrightarrow> ctx_canceled i s)"
| "signal_ok i s _ = True"

definition signals_ok :: "u64 \<Rightarrow> manager \<Rightarrow> bool" where
  "signals_ok i s \<longleftrightarrow> mg_ctx s i \<noteq> None
     \<and> (\<forall>fr \<in> set (mg_threads s). list_all (signal_ok i s) fr)
     \<and> (\<forall>e \<in> set (mg_results s). fe_scan_id e = i \<and> is_canceled (fe_end_signal e) \<longrightarrow> ctx_canceled i s)"

lemma signal_ok_mono:
  "(ctx_canceled i s \<Longrightarrow> ctx_canceled i t) \<Longrightarrow> signal_ok i s f \<Longrightarrow> signal_ok i t f"
  by (cases f) auto

lemma not_canceled_init [simp]: "\<not> is_canceled Sentinel_init"
  by (simp add: Sentinel_init_def)

lemma signals_ok_frame:
  assumes "signals_ok i s" and "Manager_frame_step fs now f s = (new, s1)" and "k < length (mg_threads s)"
    and "mg_threads s ! k = f # fr"
  shows "signals_ok i (set_thread k (new @ fr) s1)"
proof -
  have c: "ctx_canceled i s1 = ctx_canceled i s" "(mg_ctx s1 i = None) = (mg_ctx s i = None)"
    using assms(2) by (cases f; auto simp: manager_defs ctx_canceled_def ctx_add_def Let_def
        split: if_splits prod.splits submit_result.splits option.splits)+
  have th: "mg_threads s1 = mg_threads s"
    using assms(2) by (cases f) (auto simp: manager_defs ctx_add_def Let_def
        split: if_splits prod.splits submit_result.splits option.splits)
  have new: "list_all (signal_ok i s) new"
    using assms(2) by (cases f) (auto simp: manager_defs Let_def
        split: if_splits prod.splits submit_result.splits option.splits)
  have f: "list_all (signal_ok i s) (f # fr)"
    using assms(1,3,4) by (metis nth_mem signals_ok_def)
  have old: "\<forall>e \<in> set (mg_results s). fe_scan_id e = i \<and> is_canceled (fe_end_signal e) \<longrightarrow> ctx_canceled i s"
    using assms(1) by (simp add: signals_ok_def)
  have res: "\<forall>e \<in> set (mg_results s1). fe_scan_id e = i \<and> is_canceled (fe_end_signal e) \<longrightarrow> ctx_canceled i s"
  proof (cases f)
    case (Begin d)
    with assms(2) old show ?thesis by (auto simp: begin_step node_event_signal split: if_splits)
  next
    case (Signalling d sc t)
    with assms(2) old f show ?thesis
      by (auto simp: manager_defs sentinel_event_def Let_def split: if_splits option.splits)
  qed (use assms(2) old in \<open>auto simp: manager_defs ctx_add_def Let_def
        split: if_splits prod.splits submit_result.splits option.splits\<close>)
  have "list_all (signal_ok i (set_thread k (new @ fr) s1)) x"
    if "x \<in> set (mg_threads (set_thread k (new @ fr) s1))" for x
  proof -
    have "x = new @ fr \<or> x \<in> set (mg_threads s)"
      using that set_update_subset_insert [of "mg_threads s" k "new @ fr"] by (auto simp: set_thread_def th)
    then have "list_all (signal_ok i s) x" using new f assms(1) by (auto simp: signals_ok_def)
    moreover have "ctx_canceled i (set_thread k (new @ fr) s1) = ctx_canceled i s"
      unfolding c(1) [symmetric] by (simp add: set_thread_def ctx_canceled_def)
    ultimately show ?thesis
      using signal_ok_mono [of i s "set_thread k (new @ fr) s1"] by (simp add: list_all_iff)
  qed
  then show ?thesis using assms(1) c res by (simp add: signals_ok_def set_thread_def ctx_canceled_def)
qed

lemma signals_ok_move:
  assumes "signals_ok i s" and "manager_inv s" and "manager_step fs m s = Some t"
  shows "signals_ok i t"
proof (cases m)
  case (Start_scan j r now)
  with assms have fresh: "mg_ctx s j = None" and t: "t = snd (Manager_start_new_scan j r now s)"
    by (auto split: if_splits)
  have ij: "i \<noteq> j" using assms(1) fresh by (auto simp: signals_ok_def)
  have "scan_ok j s" using assms(2) by (simp add: manager_inv_def)
  then have n: "map_of (mg_registry s) j = None" using fresh by (simp add: scan_ok_def phase_ok_def)
  have same: "ctx_canceled i t = ctx_canceled i s" "mg_threads t = mg_threads s" "(mg_ctx t i = None) = (mg_ctx s i = None)"
      "set (mg_results t) \<subseteq> insert (sentinel_event j r False) (set (mg_results s))"
    by (cases rule: start_cases [OF n, of r now]; use ij t in \<open>simp add: ctx_canceled_def\<close>; auto)+
  then have "signal_ok i t f = signal_ok i s f" for f by (cases f) simp_all
  with same assms(1) show ?thesis by (auto simp: signals_ok_def sentinel_event_def list_all_iff)
next
  case (Cancel_scan j)
  then have t: "t = snd (Manager_cancel_scan j s)" using assms(3) by simp
  then have "ctx_canceled i s \<Longrightarrow> ctx_canceled i t" "mg_threads t = mg_threads s" "(mg_ctx t i = None) = (mg_ctx s i = None)"
      "mg_results t = mg_results s"
    by (auto simp: Manager_cancel_scan_def ctx_canceled_def split: option.splits)
  with assms(1) signal_ok_mono [of i s t] show ?thesis by (auto simp: signals_ok_def list_all_iff)
next
  case Shutdown_pool
  then have t: "t = Manager_shutdown_pool s" using assms(3) by simp
  then have "signal_ok i t f = signal_ok i s f" for f
    by (cases f) (simp_all add: Manager_shutdown_pool_def ctx_canceled_def)
  with t assms(1) show ?thesis by (auto simp: signals_ok_def Manager_shutdown_pool_def ctx_canceled_def list_all_iff)
next
  case (Work k now)
  then have w: "Manager_work fs k now s = Some t" using assms(3) by simp
  then have k: "k < length (mg_threads s)" by (simp add: Manager_work_def split: if_splits)
  show ?thesis
  proof (cases "mg_threads s ! k")
    case Nil
    with w k obtain d q where t: "t = set_thread k [Begin d] (s\<lparr>mg_queue := q\<rparr>)"
      by (auto simp: Manager_work_def split: option.splits prod.splits)
    have "signal_ok i t f = signal_ok i s f" for f by (cases f) (simp_all add: t set_thread_def ctx_canceled_def)
    with t assms(1) set_update_subset_insert [of "mg_threads s" k "[Begin d]"] show ?thesis
      by (auto simp: signals_ok_def set_thread_def ctx_canceled_def list_all_iff)
  next
    case (Cons f fr)
    obtain new s1 where st: "Manager_frame_step fs now f s = (new, s1)" by (cases "Manager_frame_step fs now f s")
    with Cons w k have "t = set_thread k (new @ fr) s1" by (auto simp: Manager_work_def)
    with signals_ok_frame [OF assms(1) st k Cons] show ?thesis by simp
  qed
qed

interpretation signals: invariant "manager_step fs" "\<lambda>s. manager_inv s \<and> signals_ok i s" for fs i
  by unfold_locales (blast intro: manager_inv_step signals_ok_move)

lemma no_closing:
  assumes "closing i s = 0" and "fr \<in> set (mg_threads s)" and "f \<in> set fr"
  shows "frame_closing i f = 0"
proof -
  have "sum_list (map (frame_closing i) fr) = 0"
    using assms(1,2) unfolding closing_def thread_sum_def
    by (intro sum_zero_mem [of "mg_threads s" "\<lambda>fr. sum_list (map (frame_closing i) fr)"])
      (auto intro!: sum_list_nonneg)
  with assms(3) show ?thesis by (intro sum_zero_mem [of fr "frame_closing i"]) auto
qed

lemma signals_ok_start:
  assumes "manager_inv s" and "mg_ctx s i = None" and "Manager_start_new_scan i root now s = ((True, False), s1)"
  shows "signals_ok i s1"
proof -
  have "scan_ok i s" using assms(1) by (simp add: manager_inv_def)
  then have n: "map_of (mg_registry s) i = None" "results_of i s = []" "closing i s = 0"
    using assms(2) by (simp_all add: scan_ok_def phase_ok_def)
  have s1: "mg_threads s1 = mg_threads s" "mg_results s1 = mg_results s" "mg_ctx s1 i \<noteq> None"
    by (cases rule: start_cases [OF n(1), of root now]; use assms(3) in simp)+
  have "signal_ok i s1 f" if "fr \<in> set (mg_threads s)" "f \<in> set fr" for fr f
    using no_closing [OF n(3) that] by (cases f) (auto split: if_splits)
  moreover have "fe_scan_id e \<noteq> i" if "e \<in> set (mg_results s)" for e
    using n(2) that by (auto simp: results_of_def filter_empty_conv)
  ultimately show ?thesis using s1 by (auto simp: signals_ok_def list_all_iff)
qed

subsection \<open>The index of a completed scan\<close>

lemma event_at_member: "distinct (map fe_path es) \<Longrightarrow> e \<in> set es \<Longrightarrow> event_at es (fe_path e) = Some e"
  unfolding event_at_def by (induction es) auto

lemma event_at_absent: "p \<notin> fe_path ` set es \<Longrightarrow> event_at es p = None"
  by (auto simp: event_at_def find_None_iff)

text \<open>The results of such a scan: the events of the tree, one for each path, then its sentinel.\<close>

lemma scan_results:
  assumes scan: "reach (manager_step fs) (Manager_init m q k metrics) s" "mg_ctx s i = None"
      "Manager_start_new_scan i root now s = ((True, False), s1)" "depth_ok fs n (scan_job i root)"
      "run (manager_step fs) ms s1 = Some t" "i \<noteq> 0"
    and ended: "outstanding i t = 0" "closing i t = 0" "\<not> ctx_canceled i t" "\<not> jq_stop_flag (mg_queue t)"
    and names: "names_ok fs"
  obtains es where "results_of i t = es @ [sentinel_event i root False]" "node_events es"
    "mset es = tree_events fs n (scan_job i root)" "scan_events i es"
proof -
  let ?tree = "tree_events fs n (scan_job i root)"
  obtain es c where es: "results_of i t = es @ [sentinel_event i root c]" "node_events es" "mset es = ?tree"
    using scan_complete [OF scan] ended by auto
  have inv: "manager_inv s" using manager.reach_keeps [OF scan(1) manager_inv_init] .
  have "manager_inv s1 \<and> signals_ok i s1"
    using manager_inv_start [OF inv scan(2), of root now] signals_ok_start [OF inv scan(2,3)] scan(3) by simp
  then have "signals_ok i t" using signals.run_keeps [OF scan(5)] by blast
  moreover have "sentinel_event i root c \<in> set (results_of i t)" by (simp add: es(1))
  ultimately have c: "c = False"
    using ended(3) by (auto simp: signals_ok_def results_of_def sentinel_event_def)
  have "fe_scan_id e = i" if "e \<in> set es" for e
  proof -
    have "e \<in># ?tree" using that by (simp flip: es(3))
    then show ?thesis using tree_event [of e fs n "scan_job i root"] by (simp add: scan_job_def)
  qed
  then have "scan_events i es" using tree_paths_distinct [OF names es(3)] by (simp add: scan_events_def)
  with es c show ?thesis by (intro that [of es]) simp_all
qed


definition demo_exporter :: export_manager where
  "demo_exporter = ExportManager_insert_scan_task
     \<lparr>st_scan_id = 1, st_start_time = 40, st_finish_time = 50, st_submit_root = ''/r'', st_end_state = DONE\<rparr>
     (ExportManager_init 10 empty_db)"


end
