(* ===== verification/Export_Interleaving.thy ===== *)
theory Export_Interleaving
  imports Export_Manager
begin

section \<open>ExportManager: the results of several scans in one queue\<close>

text \<open>
  Scans run at the same time, so their events and sentinels alternate in the result queue, and the
  exporter writes all of them into one index. What keeps them apart is that the roots of the scans do
  not overlap. Here \<open>i\<close> is one scan with its \<open>root\<close>, and \<open>R\<close> the roots of all the others.
\<close>

subsection \<open>Regions\<close>

definition within :: "string list \<Rightarrow> string \<Rightarrow> bool" where
  "within R p \<longleftrightarrow> list_ex (\<lambda>r. below r p) R"

definition roots_apart :: "(string \<Rightarrow> string \<Rightarrow> bool) \<Rightarrow> string \<Rightarrow> string list \<Rightarrow> bool" where
  "roots_apart glob root R \<longleftrightarrow>
     list_all (\<lambda>r. r \<noteq> [] \<and> \<not> paths_overlap r root \<and> glob_subtree glob r) R"

definition row_in :: "u64 \<Rightarrow> string \<Rightarrow> string list \<Rightarrow> scan_task_row \<Rightarrow> bool" where
  "row_in i root R row \<longleftrightarrow> (if st_scan_id row = i then st_submit_root row = root else st_submit_root row \<in> set R)"

definition event_in :: "u64 \<Rightarrow> string list \<Rightarrow> file_event \<Rightarrow> bool" where
  "event_in i R e \<longleftrightarrow> fe_scan_id e = i \<or> is_sentinel (fe_end_signal e) \<or> within R (fe_path e)"

fun move_in :: "u64 \<Rightarrow> string \<Rightarrow> string list \<Rightarrow> export_move \<Rightarrow> bool" where
  "move_in i root R (Insert_task row) = row_in i root R row"
| "move_in i root R (Pop_event e) = event_in i R e"
| "move_in i root R Queue_closed = True"

definition rows_in :: "u64 \<Rightarrow> string \<Rightarrow> string list \<Rightarrow> export_manager \<Rightarrow> bool" where
  "rows_in i root R x \<longleftrightarrow> list_all (\<lambda>(j, row). j = st_scan_id row \<and> row_in i root R row) (ex_pending_rows x)"

text \<open>The events among the moves, and those of one scan.\<close>

fun popped :: "export_move list \<Rightarrow> file_event list" where
  "popped [] = []"
| "popped (Pop_event e # ms) = e # popped ms"
| "popped (m # ms) = popped ms"

definition own :: "u64 \<Rightarrow> export_move list \<Rightarrow> file_event list" where
  "own i ms = filter (\<lambda>e. fe_scan_id e = i) (popped ms)"

lemma popped_append [simp]: "popped (ms @ ns) = popped ms @ popped ns"
  by (induction ms rule: popped.induct) simp_all

lemma popped_map [simp]: "popped (map Pop_event es) = es"
  by (induction es) simp_all

lemma own_snoc: "own i (ms @ [m]) = own i ms @ own i [m]"
  by (simp add: own_def)

lemma apart_not_below: "roots_apart glob root R \<Longrightarrow> within R p \<Longrightarrow> \<not> below root p"
  by (auto simp: roots_apart_def within_def list_all_iff list_ex_iff dest: overlap_common)

subsection \<open>What the index shows of one scan\<close>

definition is_end :: "file_event \<Rightarrow> bool" where
  "is_end e \<longleftrightarrow> is_sentinel (fe_end_signal e)"

text \<open>The results of the scan so far: events of different paths, then perhaps its sentinel.\<close>

definition own_ok :: "file_event list \<Rightarrow> bool" where
  "own_ok es \<longleftrightarrow> list_all (\<lambda>e. \<not> is_end e) (butlast es)
     \<and> distinct (map fe_path (filter (\<lambda>e. \<not> is_end e) es))
     \<and> list_all (\<lambda>e. \<not> is_canceled (fe_end_signal e)) es"

definition view ::
    "(int \<Rightarrow> string) \<Rightarrow> string \<Rightarrow> (string \<Rightarrow> current_row option) \<Rightarrow> file_event list \<Rightarrow> string
     \<Rightarrow> current_row option" where
  "view message root base es p =
     (case event_at (filter (\<lambda>e. \<not> is_end e) es) p of
        Some e \<Rightarrow> Some (event_current message e)
      | None \<Rightarrow> if list_ex is_end es \<and> starts_with (root @ ''/'') p then None else base p)"

definition region_ok ::
    "(int \<Rightarrow> string) \<Rightarrow> u64 \<Rightarrow> string \<Rightarrow> string list \<Rightarrow> (string \<Rightarrow> current_row option) \<Rightarrow> file_event list
     \<Rightarrow> export_manager \<Rightarrow> bool" where
  "region_ok message i root R base es x \<longleftrightarrow> db_keys (ex_db x) \<and> rows_in i root R x
     \<and> (\<forall>p. below root p \<longrightarrow> current_at (index_current (ex_db x)) p = view message root base es p)
     \<and> (list_ex is_end es \<longrightarrow> i \<in> set (ex_exported x) \<and> root \<in> set (ex_notified x))"

lemma own_ok_snoc:
  assumes "own_ok (es @ [e])"
  shows "own_ok es" "list_all (\<lambda>e. \<not> is_end e) es" "\<not> is_canceled (fe_end_signal e)"
    "\<not> is_end e \<Longrightarrow> event_at es (fe_path e) = None"
proof -
  have n: "list_all (\<lambda>e. \<not> is_end e) es" and c: "list_all (\<lambda>e. \<not> is_canceled (fe_end_signal e)) (es @ [e])"
    and d: "distinct (map fe_path (filter (\<lambda>e. \<not> is_end e) (es @ [e])))"
    using assms by (simp_all add: own_ok_def)
  then have f: "filter (\<lambda>e. \<not> is_end e) es = es" by (simp add: filter_id_conv list_all_iff)
  show "list_all (\<lambda>e. \<not> is_end e) es" "\<not> is_canceled (fe_end_signal e)" using n c by simp_all
  show "own_ok es" using n c d by (auto simp: own_ok_def list_all_iff dest: in_set_butlastD)
  show "\<not> is_end e \<Longrightarrow> event_at es (fe_path e) = None"
    using d by (auto simp: f event_at_def find_None_iff) (metis image_eqI)
qed

subsection \<open>One step\<close>

lemma finalize_db:
  assumes "is_end e" and "map_of (ex_pending_rows x) (fe_scan_id e) = Some row" and "st_submit_root row \<noteq> []"
    and "y = ExportManager_write_result message glob e x" and "db_keys (ex_db x)"
  shows "index_current (ex_db y) = index_current (IndexWriter_mark_deleted glob
      \<lparr>dt_scan_id = fe_scan_id e, dt_submit_root = st_submit_root row,
       dt_canceled = is_canceled (fe_end_signal e)\<rparr> (ex_db x))"
    and "db_keys (ex_db y)" and "ex_exported y = List.insert (fe_scan_id e) (ex_exported x)"
    and "ex_notified y = ex_notified x @ [st_submit_root row]"
    and "ex_pending_rows y = AList.delete (fe_scan_id e) (ex_pending_rows x)"
proof -
  obtain z where z: "ScanTable_upsert row (ex_db x) = (ex_db x)\<lparr>scan_task_table := z\<rparr>"
    by (rule upsert_task_table)
  have c: "ex_db (ExportManager_commit_batch x) = ex_db x"
      "ex_pending_rows (ExportManager_commit_batch x) = ex_pending_rows x"
      "ex_exported (ExportManager_commit_batch x) = ex_exported x"
      "ex_notified (ExportManager_commit_batch x) = ex_notified x"
    by (simp_all add: ExportManager_commit_batch_def)
  note y = assms(4) [unfolded ExportManager_write_result_def if_P [OF assms(1) [unfolded is_end_def]]
      ExportManager_finalize_scan_def ExportManager_get_scan_task_def Let_def]
  show "index_current (ex_db y) = index_current (IndexWriter_mark_deleted glob
      \<lparr>dt_scan_id = fe_scan_id e, dt_submit_root = st_submit_root row,
       dt_canceled = is_canceled (fe_end_signal e)\<rparr> (ex_db x))"
    using assms(2,3) by (simp add: y c z index_tables_count index_tables_find mark_deleted_tasks)
  show "db_keys (ex_db y)"
    using assms(2,3,5) by (simp add: y c keys_count keys_find_diff keys_mark keys_task)
  show "ex_exported y = List.insert (fe_scan_id e) (ex_exported x)"
    "ex_notified y = ex_notified x @ [st_submit_root row]"
    "ex_pending_rows y = AList.delete (fe_scan_id e) (ex_pending_rows x)"
    using assms(2,3) by (simp_all add: y c)
qed

lemma write_event:
  assumes "\<not> is_end e" and "y = ExportManager_write_result message glob e x"
  shows "ex_db y = IndexWriter_upsert message e (ex_db x)" "ex_pending_rows y = ex_pending_rows x"
    "ex_exported y = ex_exported x" "ex_notified y = ex_notified x"
  using assms by (auto simp: is_end_def ExportManager_write_result_def ExportManager_commit_batch_def Let_def)

lemma view_snoc:
  assumes "own_ok (es @ [e])" and "\<not> is_end e"
  shows "view message root base (es @ [e]) p =
    (if p = fe_path e then Some (event_current message e) else view message root base es p)"
proof -
  note ok = own_ok_snoc [OF assms(1)]
  have f: "filter (\<lambda>e. \<not> is_end e) es = es" "\<not> list_ex is_end es"
    using ok(2) by (auto simp: filter_id_conv list_all_iff list_ex_iff)
  have "event_at (es @ [e]) p = (if p = fe_path e then Some e else event_at es p)"
    using ok(4) assms(2) unfolding event_at_def
    by (cases "find (\<lambda>e. fe_path e = p) es") (auto simp: find_append)
  then show ?thesis using assms(2) f by (simp add: view_def)
qed

lemma region_event:
  assumes "region_ok message i root R base es x" and "roots_apart glob root R"
    and "event_in i R e" and "\<not> is_end e" and "y = ExportManager_write_result message glob e x"
    and "own_ok (es @ own i [Pop_event e])"
  shows "region_ok message i root R base (es @ own i [Pop_event e]) y"
proof -
  note y = write_event [OF assms(4,5)]
  have at: "current_at (index_current (ex_db y)) p =
      (if p = fe_path e then Some (event_current message e) else current_at (index_current (ex_db x)) p)" for p
    by (simp add: y(1) upsert_eq event_current_simps)
  have keys: "db_keys (ex_db y)" using assms(1) by (simp add: y(1) region_ok_def keys_upsert)
  show ?thesis
  proof (cases "fe_scan_id e = i")
    case True
    then have o: "own i [Pop_event e] = [e]" by (simp add: own_def)
    with assms(6) have ok: "own_ok (es @ [e])" by simp
    show ?thesis
      using assms(1,4) keys y(2-4) at view_snoc [OF ok assms(4), of message root base]
      by (simp add: o region_ok_def rows_in_def)
  next
    case False
    then have o: "own i [Pop_event e] = []" by (simp add: own_def)
    have "\<not> below root (fe_path e)"
      using False assms(2-4) apart_not_below by (auto simp: event_in_def is_end_def)
    then show ?thesis using assms(1) keys y(2-4) at by (auto simp: o region_ok_def rows_in_def)
  qed
qed

lemma mark_deleted_at:
  assumes "db_keys db" and "glob_subtree glob r"
  shows "current_at (index_current (IndexWriter_mark_deleted glob
      \<lparr>dt_scan_id = j, dt_submit_root = r, dt_canceled = c\<rparr> db)) p =
    (case current_at (index_current db) p of
       None \<Rightarrow> None
     | Some row \<Rightarrow> if \<not> c \<and> starts_with (r @ ''/'') p \<and> cr_scan_id row \<noteq> j then None else Some row)"
proof -
  let ?info = "\<lparr>dt_scan_id = j, dt_submit_root = r, dt_canceled = c\<rparr>"
  let ?Q = "\<lambda>row. \<not> (starts_with (r @ ''/'') (cr_path row) \<and> cr_scan_id row \<noteq> j)"
  have d: "distinct (map cr_path (index_current db))" using assms(1) by (simp add: db_keys_def)
  have "index_current (IndexWriter_mark_deleted glob ?info db) =
      (if c then index_current db else filter ?Q (index_current db))"
    using assms(2) by (cases c)
      (simp_all add: IndexWriter_mark_deleted_def Let_def unseen_under_def glob_subtree_def)
  then show ?thesis
    using current_at_filter [OF d, of ?Q p] current_at_path [of "index_current db" p]
    by (auto split: option.splits)
qed

lemma update_entry: "kv \<in> set (AList.update k v al) \<Longrightarrow> kv = (k, v) \<or> kv \<in> set al"
  by (induction al) (auto split: if_splits)

lemma delete_entry: "kv \<in> set (AList.delete k al) \<Longrightarrow> kv \<in> set al"
  by (simp add: AList.delete_eq)

lemma below_root_slash: "starts_with (r @ ''/'') p \<Longrightarrow> below r p"
  by (simp add: below_def)

lemma region_end:
  assumes reg: "region_ok message i root R base es x" and apart: "roots_apart glob root R"
    and root: "glob_subtree glob root" "root \<noteq> []"
    and base: "\<And>p r. base p = Some r \<Longrightarrow> cr_scan_id r \<noteq> i"
    and e: "is_end e" and y: "y = ExportManager_write_result message glob e x" and alive: "ex_alive y"
    and ok: "own_ok (es @ own i [Pop_event e])" and ids: "list_all (\<lambda>e. fe_scan_id e = i) es"
  shows "region_ok message i root R base (es @ own i [Pop_event e]) y"
proof -
  obtain row where row: "map_of (ex_pending_rows x) (fe_scan_id e) = Some row"
    using alive e unfolding y
    by (auto simp: is_end_def ExportManager_write_result_def ExportManager_finalize_scan_def
        ExportManager_get_scan_task_def ExportManager_commit_batch_def Let_def split: option.splits if_splits)
  then have mem: "st_scan_id row = fe_scan_id e" "row_in i root R row"
    using reg by (auto simp: region_ok_def rows_in_def list_all_iff dest!: map_of_SomeD)
  have keys: "db_keys (ex_db x)" and at: "below root p \<Longrightarrow>
      current_at (index_current (ex_db x)) p = view message root base es p" for p
    using reg by (simp_all add: region_ok_def)
  have "st_submit_root row \<noteq> []" using mem apart root by (auto simp: row_in_def roots_apart_def list_all_iff split: if_splits)
  note f = finalize_db [OF e row this y keys]
  have rows: "rows_in i root R y"
    using reg by (auto simp: f(5) region_ok_def rows_in_def list_all_iff dest!: delete_entry)
  show ?thesis
  proof (cases "fe_scan_id e = i")
    case True
    then have o: "own i [Pop_event e] = [e]" and r: "st_submit_root row = root"
      using mem by (simp_all add: own_def row_in_def)
    note es = own_ok_snoc [OF ok [unfolded o]]
    then have fil: "filter (\<lambda>e. \<not> is_end e) es = es" "\<not> list_ex is_end es"
      by (auto simp: filter_id_conv list_all_iff list_ex_iff)
    have v: "view message root base (es @ [e]) p = (case view message root base es p of
        None \<Rightarrow> None
      | Some row \<Rightarrow> if starts_with (root @ ''/'') p \<and> cr_scan_id row \<noteq> i then None else Some row)" for p
    proof (cases "event_at es p")
      case None
      then show ?thesis using base [of p] e fil by (simp add: view_def split: option.split)
    next
      case (Some e')
      then have "e' \<in> set es" by (auto simp: event_at_def find_Some_iff)
      then have "fe_scan_id e' = i" using ids by (simp add: list_all_iff)
      with Some show ?thesis using e fil by (simp add: view_def event_current_simps)
    qed
    have "current_at (index_current (ex_db y)) p = view message root base (es @ [e]) p" if "below root p" for p
      unfolding f(1) mark_deleted_at [OF keys, OF root(1) [folded r]] at [OF that] v
      using True es(3) r by (simp split: option.split)
    then show ?thesis using f(2-4) rows r True by (simp add: o region_ok_def)
  next
    case False
    then have o: "own i [Pop_event e] = []" by (simp add: own_def)
    have r: "st_submit_root row \<in> set R" using False mem by (simp add: row_in_def)
    have "current_at (index_current (ex_db y)) p = current_at (index_current (ex_db x)) p" if "below root p" for p
    proof -
      have g: "glob_subtree glob (st_submit_root row)" using r apart by (auto simp: roots_apart_def list_all_iff)
      have "\<not> below (st_submit_root row) p"
        using r apart that by (auto simp: roots_apart_def list_all_iff dest: overlap_common)
      then have "\<not> starts_with (st_submit_root row @ ''/'') p" using below_root_slash by blast
      then show ?thesis unfolding f(1) mark_deleted_at [OF keys g] by (simp split: option.split)
    qed
    then show ?thesis using reg f(2-4) rows by (auto simp: o region_ok_def at)
  qed
qed

lemma region_step:
  assumes reg: "region_ok message i root R base es x" and apart: "roots_apart glob root R"
    and root: "glob_subtree glob root" "root \<noteq> []"
    and base: "\<And>p r. base p = Some r \<Longrightarrow> cr_scan_id r \<noteq> i"
    and m: "move_in i root R m" "export_step message glob m x = Some y" "ex_alive y"
    and ok: "own_ok (es @ own i [m])" and ids: "list_all (\<lambda>e. fe_scan_id e = i) es"
  shows "region_ok message i root R base (es @ own i [m]) y"
proof (cases m)
  case (Insert_task row)
  then have y: "y = ExportManager_insert_scan_task row x" and o: "own i [m] = []" using m(2) by (auto simp: own_def)
  have "rows_in i root R y"
    using reg m(1) Insert_task by (auto simp: y ExportManager_insert_scan_task_def region_ok_def rows_in_def
        list_all_iff dest!: update_entry)
  with reg show ?thesis unfolding o append_Nil2 by (simp add: y ExportManager_insert_scan_task_def region_ok_def)
next
  case (Pop_event e)
  then have y: "y = ExportManager_write_result message glob e x" using m(2) by (auto split: if_splits)
  show ?thesis
  proof (cases "is_end e")
    case True
    then show ?thesis
      using region_end [OF reg apart root base True y m(3) _ ids] ok by (simp add: Pop_event)
  next
    case False
    then show ?thesis
      using region_event [OF reg apart _ False y] m(1) ok by (simp add: Pop_event)
  qed
next
  case Queue_closed
  then show ?thesis using m(2,3) by (auto simp: ExportManager_close_def split: if_splits)
qed

lemma alive_before: "export_step message glob m x = Some y \<Longrightarrow> ex_alive y \<Longrightarrow> ex_alive x"
  by (cases m) (auto simp: ExportManager_insert_scan_task_def split: if_splits)

lemma region_run:
  assumes "run (export_step message glob) ms x = Some y" and "ex_alive y"
    and "roots_apart glob root R" and "glob_subtree glob root" and "root \<noteq> []"
    and "\<And>p r. base p = Some r \<Longrightarrow> cr_scan_id r \<noteq> i"
    and "list_all (move_in i root R) ms" and "own_ok (own i ms)"
    and "region_ok message i root R base [] x"
  shows "region_ok message i root R base (own i ms) y"
  using assms(1,2,7,8)
proof (induction ms arbitrary: y rule: rev_induct)
  case Nil
  with assms(9) show ?case by (simp add: own_def)
next
  case (snoc m ms)
  then obtain z where z: "run (export_step message glob) ms x = Some z" "export_step message glob m z = Some y"
    by (auto simp: run_append split: option.splits bind_splits)
  have "own_ok (own i ms)"
  proof (cases "own i [m]")
    case Nil
    with snoc.prems(4) show ?thesis by (simp add: own_snoc)
  next
    case (Cons e es)
    then have "own i [m] = [e]" by (cases m) (auto simp: own_def split: if_splits)
    with snoc.prems(4) own_ok_snoc(1) show ?thesis by (simp add: own_snoc)
  qed
  then have "region_ok message i root R base (own i ms) z"
    using snoc.IH [OF z(1) alive_before [OF z(2) snoc.prems(2)]] snoc.prems(3) by simp
  moreover have "list_all (\<lambda>e. fe_scan_id e = i) (own i ms)" by (simp add: own_def list_all_iff)
  ultimately show ?case
    unfolding own_snoc using snoc.prems z(2) assms(3-6)
    by (intro region_step [where x = z]) (simp_all flip: own_snoc)
qed

end
