(* ===== verification/Manager_Regions.thy ===== *)
theory Manager_Regions
  imports Manager_Properties Export_Interleaving
begin

section \<open>Manager: scans of separate roots stay apart\<close>

text \<open>
  Beside a scan \<open>i\<close> of \<open>root\<close> other scans run, with roots in \<open>R\<close>. Whatever the interleaving, their
  jobs, events and task rows are about paths under \<open>R\<close>: the workers only go down from the root of the
  scan, the sentinel and the row take the root from the registry. \<open>old\<close> and \<open>old_rows\<close> are what the
  scan system had handed to the exporter before.
\<close>

definition job_in :: "u64 \<Rightarrow> string list \<Rightarrow> scan_data \<Rightarrow> bool" where
  "job_in i R d \<longleftrightarrow> sd_scan_id d = i \<or> within R (sd_path d)"

fun frame_in :: "u64 \<Rightarrow> string \<Rightarrow> string list \<Rightarrow> frame \<Rightarrow> bool" where
  "frame_in i root R (Begin d) = job_in i R d"
| "frame_in i root R (Loop d cs) = list_all (job_in i R) cs"
| "frame_in i root R (Submitting d cs c) = (job_in i R c \<and> list_all (job_in i R) cs)"
| "frame_in i root R (Recording row) = row_in i root R row"
| "frame_in i root R _ = True"

definition task_in :: "u64 \<Rightarrow> string \<Rightarrow> string list \<Rightarrow> u64 \<times> scan_task \<Rightarrow> bool" where
  "task_in i root R = (\<lambda>(j, task). if j = i then root_path task = root else root_path task \<in> set R)"

definition region_state ::
    "u64 \<Rightarrow> string \<Rightarrow> string list \<Rightarrow> file_event list \<Rightarrow> scan_task_row list \<Rightarrow> manager \<Rightarrow> bool" where
  "region_state i root R old old_rows s \<longleftrightarrow>
     list_all (job_in i R) (jq_container (mg_queue s))
     \<and> list_all (list_all (frame_in i root R)) (mg_threads s)
     \<and> list_all (task_in i root R) (mg_registry s)
     \<and> (\<exists>new. mg_results s = old @ new \<and> list_all (event_in i R) new)
     \<and> (\<exists>new. mg_rows s = old_rows @ new \<and> list_all (row_in i root R) new)"

fun start_in :: "u64 \<Rightarrow> string \<Rightarrow> string list \<Rightarrow> manager_move \<Rightarrow> bool" where
  "start_in i root R (Start_scan j r now) = (if j = i then r = root else r \<in> set R)"
| "start_in i root R _ = True"

lemma within_root: "r \<in> set R \<Longrightarrow> within R r"
  by (auto simp: within_def list_ex_iff below_def)

lemma below_child: "below r p \<Longrightarrow> below r (p @ CHR ''/'' # name)"
  unfolding below_def starts_with_iff by auto

lemma within_child: "within R p \<Longrightarrow> within R (p @ CHR ''/'' # name)"
  using below_child by (auto simp: within_def list_ex_iff)

lemma job_in_children:
  assumes "job_in i R d" shows "list_all (job_in i R) (node_children fs d)"
proof -
  have "job_in i R c" if "c \<in> set (node_children fs d)" for c
    using that assms
    by (auto simp: node_children_def MultiScanner_scan_one_node_def Let_def scan_children_set job_in_def
        within_child split: sum.splits option.splits prod.splits list.splits if_splits)
  then show ?thesis by (simp add: list_all_iff)
qed

lemma list_all_butlast: "list_all P xs \<Longrightarrow> list_all P (butlast xs)"
  by (auto simp: list_all_iff dest: in_set_butlastD)

lemma try_push_in:
  "JobQueue_try_push d q = (r, q', g) \<Longrightarrow> P d \<Longrightarrow> list_all P (jq_container q) \<Longrightarrow> list_all P (jq_container q')"
  by (erule try_push_cases) auto

lemma task_in_found: "list_all (task_in i root R) reg \<Longrightarrow> map_of reg j = Some task \<Longrightarrow> task_in i root R (j, task)"
  by (auto simp: list_all_iff dest: map_of_SomeD)

lemma task_in_delete: "list_all (task_in i root R) reg \<Longrightarrow> list_all (task_in i root R) (AList.delete j reg)"
  by (auto simp: list_all_iff dest: delete_entry)

lemma row_in_task:
  "task_in i root R (j, task) \<Longrightarrow>
   row_in i root R \<lparr>st_scan_id = j, st_start_time = a, st_finish_time = b, st_submit_root = root_path task, st_end_state = c\<rparr>"
  by (simp add: task_in_def row_in_def)

lemma event_in_sentinel [simp]: "event_in i R (sentinel_event j r c)"
  by (simp add: event_in_def sentinel_event_def)

lemma event_in_node: "job_in i R d \<Longrightarrow> event_in i R (node_event fs d)"
  by (auto simp: job_in_def event_in_def)

lemma region_unregister:
  assumes "region_state i root R old old_rows s" and "Manager_unregister j c now s = (row, t)"
  shows "region_state i root R old old_rows t" and "row = Some r \<Longrightarrow> row_in i root R r"
  using assms task_in_found [of i root R "mg_registry s" j] task_in_delete [of i root R "mg_registry s" j]
  by (auto simp: Manager_unregister_def region_state_def Let_def row_in_task split: option.splits if_splits)

subsection \<open>One step of one activation\<close>

lemma region_pool_submit:
  assumes "region_state i root R old old_rows s" and "Manager_pool_submit d s = (r, t)" and "job_in i R d"
  shows "region_state i root R old old_rows t"
  using assms try_push_in [of d "mg_queue s" _ _ _ "job_in i R"]
  by (auto simp: Manager_pool_submit_def region_state_def split: prod.splits)

lemma region_other [simp]:
  "region_state i root R old old_rows (s\<lparr>mg_ctx := a\<rparr>) = region_state i root R old old_rows s"
  "region_state i root R old old_rows (s\<lparr>mg_unfinished_metric := b\<rparr>) = region_state i root R old old_rows s"
  "region_state i root R old old_rows (s\<lparr>mg_finished := c\<rparr>) = region_state i root R old old_rows s"
  "region_state i root R old old_rows (s\<lparr>mg_dispatch_failed := d\<rparr>) = region_state i root R old old_rows s"
  "region_state i root R old old_rows (ctx_add j n s) = region_state i root R old old_rows s"
  "region_state i root R old old_rows (Manager_job_tail s) = region_state i root R old old_rows s"
  by (simp_all add: region_state_def ctx_add_def Manager_job_tail_def)

lemma region_result:
  "region_state i root R old old_rows s \<Longrightarrow> event_in i R e \<Longrightarrow>
   region_state i root R old old_rows (s\<lparr>mg_results := mg_results s @ [e]\<rparr>)"
  by (auto simp: region_state_def)

lemma region_row:
  "region_state i root R old old_rows s \<Longrightarrow> row_in i root R row \<Longrightarrow>
   region_state i root R old old_rows (s\<lparr>mg_rows := mg_rows s @ [row]\<rparr>)"
  by (auto simp: region_state_def)

lemma region_frame:
  assumes reg: "region_state i root R old old_rows s" and f: "frame_in i root R f"
    and st: "Manager_frame_step fs now f s = (new, t)"
  shows "region_state i root R old old_rows t \<and> list_all (frame_in i root R) new"
proof (cases f)
  case (Begin d)
  with f have "job_in i R d" by simp
  with reg st Begin show ?thesis
    by (auto simp: begin_step region_result event_in_node job_in_children split: if_splits)
next
  case (Loop d cs)
  have "cs \<noteq> [] \<Longrightarrow> job_in i R (last cs)" "list_all (job_in i R) (butlast cs)"
    using f Loop list_all_butlast by (auto simp: list_all_iff)
  with reg st Loop show ?thesis by (auto simp: Manager_frame_step_def Let_def split: if_splits)
next
  case (Submitting d cs c)
  obtain r u where u: "Manager_pool_submit c s = (r, u)" by (cases "Manager_pool_submit c s")
  then have "region_state i root R old old_rows u" using reg f Submitting region_pool_submit by auto
  with st Submitting u f show ?thesis
    by (auto simp: Manager_frame_step_def split: submit_result.splits)
next
  case (Signalling d sc fin)
  obtain row u where u: "Manager_unregister (sd_scan_id d) sc fin s = (row, u)"
    by (cases "Manager_unregister (sd_scan_id d) sc fin s")
  with region_unregister [OF reg u] st Signalling show ?thesis
    by (auto simp: Manager_frame_step_def split: option.splits)
next
  case (Recording row)
  with reg f st show ?thesis by (auto simp: Manager_frame_step_def region_row)
qed (use reg st in \<open>auto simp: Manager_frame_step_def split: if_splits\<close>)

lemma region_set_thread:
  assumes "region_state i root R old old_rows s" and "list_all (frame_in i root R) fr"
  shows "region_state i root R old old_rows (set_thread k fr s)"
proof -
  have "list_all (list_all (frame_in i root R)) ((mg_threads s)[k := fr])"
    using assms set_update_subset_insert [of "mg_threads s" k fr] by (auto simp: region_state_def list_all_iff)
  with assms(1) show ?thesis by (simp add: region_state_def set_thread_def)
qed

lemma region_start:
  assumes reg: "region_state i root R old old_rows s" and ok: "start_in i root R (Start_scan j r now)"
  shows "region_state i root R old old_rows (snd (Manager_start_new_scan j r now s))"
proof (cases "map_of (mg_registry s) j")
  case None
  let ?s1 = "s\<lparr>mg_registry := (j, \<lparr>root_path = r, start_time = now\<rparr>) # mg_registry s,
    mg_ctx := (mg_ctx s)(j \<mapsto> \<lparr>canceled = False, unfinished_jobs = 1\<rparr>),
    mg_unfinished_metric := mg_unfinished_metric s + 1\<rparr>"
  let ?d = "\<lparr>sd_scan_id = j, sd_path = r\<rparr>"
  have "region_state i root R old old_rows ?s1" "job_in i R ?d"
    using reg ok within_root by (auto simp: region_state_def task_in_def job_in_def split: if_splits)
  moreover obtain a s2 where s2: "Manager_pool_submit ?d ?s1 = (a, s2)" by (cases "Manager_pool_submit ?d ?s1")
  ultimately have reg2: "region_state i root R old old_rows s2" using region_pool_submit by blast
  then have full: "region_state i root R old old_rows (s2\<lparr>mg_registry := AList.delete j (mg_registry s2)\<rparr>)"
    by (auto simp: region_state_def task_in_delete)
  obtain row s4 where s4: "Manager_unregister j False now ((ctx_add j (-1) s2)\<lparr>mg_finished := mg_finished s2 @ [j]\<rparr>)
      = (row, s4)" by (metis surj_pair)
  then have u: "region_state i root R old old_rows s4" "\<And>r. row = Some r \<Longrightarrow> row_in i root R r"
    using region_unregister [OF _ s4] reg2 by simp_all
  have "snd (Manager_start_new_scan j r now s) = (case a of Pushed \<Rightarrow> s2
     | Full \<Rightarrow> s2\<lparr>mg_ctx := (mg_ctx s2)(j := None), mg_unfinished_metric := mg_unfinished_metric s2 - 1,
         mg_dispatch_failed := True, mg_registry := AList.delete j (mg_registry s2)\<rparr>
     | Shutdown \<Rightarrow> Manager_job_tail (s4\<lparr>mg_rows := mg_rows s4 @ (case row of None \<Rightarrow> [] | Some r \<Rightarrow> [r])\<rparr>))"
    using None s2 s4 by (simp add: Manager_start_new_scan_def Let_def split: submit_result.split)
  then show ?thesis
    using reg2 full u by (auto simp: region_state_def Manager_job_tail_def split: submit_result.split option.split)
qed (use reg in \<open>simp add: Manager_start_new_scan_def\<close>)

subsection \<open>The moves\<close>

lemma region_state_step:
  assumes reg: "region_state i root R old old_rows s" and ok: "start_in i root R m"
    and t: "manager_step fs m s = Some t"
  shows "region_state i root R old old_rows t"
proof (cases m)
  case (Start_scan j r now)
  with t region_start [OF reg] ok show ?thesis by (auto split: if_splits)
next
  case (Cancel_scan j)
  with t have "t = snd (Manager_cancel_scan j s)" by simp
  with reg show ?thesis by (auto simp: Manager_cancel_scan_def)
next
  case Shutdown_pool
  with t reg show ?thesis by (auto simp: Manager_shutdown_pool_def region_state_def JobQueue_shutdown_def)
next
  case (Work k now)
  then have w: "Manager_work fs k now s = Some t" using t by simp
  then have k: "k < length (mg_threads s)" by (simp add: Manager_work_def split: if_splits)
  show ?thesis
  proof (cases "mg_threads s ! k")
    case Nil
    with w k obtain d q g where pop: "JobQueue_pop (mg_queue s) = Some (Some d, q, g)"
      and t: "t = set_thread k [Begin d] (s\<lparr>mg_queue := q\<rparr>)"
      by (auto simp: Manager_work_def split: option.splits prod.splits)
    have "set (jq_container (mg_queue s)) = insert d (set (jq_container q))"
      using arg_cong [OF pop_container(1) [OF pop], of set_mset] by simp
    then have "region_state i root R old old_rows (s\<lparr>mg_queue := q\<rparr>)" "job_in i R d"
      using reg by (auto simp: region_state_def list_all_iff)
    then show ?thesis unfolding t by (intro region_set_thread) simp_all
  next
    case (Cons f fr)
    then have "list_all (frame_in i root R) (f # fr)"
      using reg nth_mem [OF k] by (metis list_all_iff region_state_def)
    moreover obtain new s1 where st: "Manager_frame_step fs now f s = (new, s1)" by (cases "Manager_frame_step fs now f s")
    moreover have "t = set_thread k (new @ fr) s1" using Cons w k st by (simp add: Manager_work_def)
    ultimately show ?thesis using region_frame [OF reg _ st] by (auto intro: region_set_thread)
  qed
qed

text \<open>Runs in which the other scans start with roots in \<open>R\<close>.\<close>

definition region_move :: "file_system \<Rightarrow> u64 \<Rightarrow> string \<Rightarrow> string list \<Rightarrow> manager_move \<Rightarrow> manager \<Rightarrow> manager option" where
  "region_move fs i root R m s = (if start_in i root R m then manager_step fs m s else None)"

interpretation regions: invariant "region_move fs i root R" "region_state i root R old old_rows"
  for fs i root R old old_rows
  by unfold_locales (auto simp: region_move_def intro: region_state_step split: if_splits)

lemma region_moves: "list_all (start_in i root R) ms \<Longrightarrow> run (region_move fs i root R) ms s = run (manager_step fs) ms s"
  by (induction ms arbitrary: s) (simp_all add: region_move_def split: option.split)

lemma region_state_run:
  "run (manager_step fs) ms s = Some t \<Longrightarrow> list_all (start_in i root R) ms \<Longrightarrow>
   region_state i root R old old_rows s \<Longrightarrow> region_state i root R old old_rows t"
  using regions.run_keeps [of fs i root R ms s t old old_rows] by (simp add: region_moves)

lemma region_state_init: "region_state i root R [] [] (Manager_init m q n metrics)"
  by (simp add: region_state_def Manager_init_def JobQueue_init_def list_all_iff)

end
