(* ===== verification/Pipeline_Concurrent.thy ===== *)
theory Pipeline_Concurrent
  imports Pipeline Manager_Regions
begin

section \<open>From the file tree to the index while other scans run\<close>

text \<open>
  The composition of \<open>Manager_Regions\<close> and \<open>Export_Interleaving\<close>: what the scan system pushed since
  the exporter was in a state \<open>x\<close> is what it pops, in the order of the result queue, in any
  interleaving with \<^verbatim>\<open>insert_scan_task\<close>. Scans of separate roots do not disturb each other's part of
  the index.
\<close>

subsection \<open>What the exporter meets\<close>

text \<open>The task rows among the exporter's moves.\<close>

fun inserted :: "export_move list \<Rightarrow> scan_task_row list" where
  "inserted [] = []"
| "inserted (Insert_task row # ms) = row # inserted ms"
| "inserted (m # ms) = inserted ms"

lemma moves_in:
  "list_all (event_in i R) (popped ms) \<Longrightarrow> list_all (row_in i root R) (inserted ms) \<Longrightarrow> list_all (move_in i root R) ms"
proof (induction ms)
  case (Cons m ms)
  then show ?case by (cases m) simp_all
qed simp

lemma inserted_append [simp]: "inserted (ms @ ns) = inserted ms @ inserted ns"
  by (induction ms rule: inserted.induct) simp_all

lemma inserted_map [simp]:
  "inserted (map Insert_task rows) = rows" "popped (map Insert_task rows) = []"
  by (induction rows) simp_all

lemma inserted_pops [simp]: "inserted (map Pop_event es) = []"
  by (induction es) simp_all

text \<open>The exporter has taken over what \<open>s\<close> had pushed before and gets what is pushed until \<open>t\<close>.\<close>

definition exporter_fed ::
    "u64 \<Rightarrow> string \<Rightarrow> string list \<Rightarrow> file_event list \<Rightarrow> scan_task_row list \<Rightarrow> manager \<Rightarrow> export_manager
     \<Rightarrow> export_move list \<Rightarrow> bool" where
  "exporter_fed i root R old old_rows t x xs \<longleftrightarrow> rows_in i root R x
     \<and> popped xs = drop (length old) (mg_results t)
     \<and> set (inserted xs) \<subseteq> set (drop (length old_rows) (mg_rows t))"

lemma fed_moves:
  assumes "exporter_fed i root R old old_rows t x xs" and "region_state i root R old old_rows t"
  shows "list_all (move_in i root R) xs"
  using assms by (intro moves_in) (auto simp: exporter_fed_def region_state_def list_all_iff)

lemma fed_own:
  assumes "exporter_fed i root R old old_rows t x xs" and "region_state i root R old old_rows t"
    and "\<forall>e \<in> set old. fe_scan_id e \<noteq> i"
  shows "own i xs = results_of i t"
proof -
  obtain new where "mg_results t = old @ new" using assms(2) by (auto simp: region_state_def)
  with assms(1,3) show ?thesis by (simp add: exporter_fed_def own_def results_of_def)
qed

subsection \<open>The index of one scan among many\<close>

lemma own_ok_scan:
  assumes "node_events es" and "scan_events i es" and "mset es = tree_events fs n d"
  shows "own_ok (es @ [sentinel_event i root False])"
proof -
  have "\<not> is_canceled (fe_end_signal e)" if "e \<in> set es" for e
  proof -
    have "e \<in># tree_events fs n d" using that by (simp flip: assms(3))
    then show ?thesis by (simp add: tree_event_signal)
  qed
  moreover have "filter (\<lambda>e. \<not> is_end e) es = es" using assms(1) by (simp add: node_events_def is_end_def filter_id_conv)
  ultimately show ?thesis
    using assms(1,2) by (simp add: own_ok_def node_events_def is_end_def scan_events_def sentinel_event_def list_all_iff)
qed

lemma view_scan:
  assumes "node_events es"
  shows "view message root base (es @ [sentinel_event i root False]) p =
    (case event_at es p of Some e \<Rightarrow> Some (event_current message e)
      | None \<Rightarrow> if starts_with (root @ ''/'') p then None else base p)"
proof -
  have "filter (\<lambda>e. \<not> is_end e) es = es" using assms by (simp add: node_events_def is_end_def filter_id_conv)
  then show ?thesis by (simp add: view_def is_end_def sentinel_event_def)
qed


text \<open>Two workers: while one walks \<open>/r\<close>, the other scans \<open>/q\<close>, started later.\<close>

definition duo_start :: manager where
  "duo_start = Manager_init 2 8 2 zero_metrics"

definition duo_moves :: "manager_move list" where
  "duo_moves = Start_scan 2 ''/q'' 41 # concat (replicate 8 [Work 0 50, Work 1 50]) @ replicate 7 (Work 1 50)"

definition duo_exporter :: "manager \<Rightarrow> export_move list" where
  "duo_exporter t = map Insert_task (mg_rows t) @ map Pop_event (mg_results t)"

lemma duo_run:
  "\<exists>t. run (manager_step demo_fs) duo_moves (snd (Manager_start_new_scan 1 ''/r'' 40 duo_start)) = Some t
     \<and> mg_threads t = [[], []] \<and> jq_container (mg_queue t) = [] \<and> \<not> jq_stop_flag (mg_queue t)
     \<and> \<not> ctx_canceled 1 t
     \<and> mg_results t = [node_event demo_fs (scan_job 2 ''/q''), node_event demo_fs (scan_job 1 ''/r''),
         sentinel_event 2 ''/q'' False, node_event demo_fs (scan_job 1 ''/r/a''), sentinel_event 1 ''/r'' False]
     \<and> map st_scan_id (mg_rows t) = [2, 1]"
  by (simp add: duo_moves_def duo_start_def numeral_eq_Suc demo_step_eval scan_job_def sentinel_event_def)

text \<open>The exporter gets through any interleaving of events if the row of each scan came before its
  sentinel, which comes once.\<close>

lemma finalize_alive:
  assumes "ex_alive x" and "map_of (ex_pending_rows x) (fe_scan_id e) \<noteq> None"
  shows "ex_alive (ExportManager_write_result message glob e x)"
    "is_end e \<Longrightarrow> ex_pending_rows (ExportManager_write_result message glob e x)
       = AList.delete (fe_scan_id e) (ex_pending_rows x)"
  using assms by (auto simp: export_defs Let_def is_end_def)

lemma pops_alive:
  assumes "ex_alive x" and "distinct (map fe_scan_id (filter is_end es))"
    and "\<forall>e \<in> set es. is_end e \<longrightarrow> map_of (ex_pending_rows x) (fe_scan_id e) \<noteq> None"
  shows "\<exists>y. run (export_step message glob) (map Pop_event es) x = Some y \<and> ex_alive y"
  using assms
proof (induction es arbitrary: x)
  case (Cons e es)
  let ?u = "ExportManager_write_result message glob e x"
  have "ex_alive ?u \<and> (\<forall>e' \<in> set es. is_end e' \<longrightarrow> map_of (ex_pending_rows ?u) (fe_scan_id e') \<noteq> None)"
  proof (cases "is_end e")
    case True
    then have "map_of (ex_pending_rows x) (fe_scan_id e) \<noteq> None" using Cons.prems(3) by simp
    moreover have "fe_scan_id e' \<noteq> fe_scan_id e" if "e' \<in> set es" "is_end e'" for e'
      using Cons.prems(2) True that by (auto simp: image_iff)
    ultimately show ?thesis
      using Cons.prems(1,3) finalize_alive [of x e message glob] True by (simp add: delete_conv')
  next
    case False
    then have "ex_alive ?u" using Cons.prems(1) by (simp add: export_defs is_end_def Let_def)
    with False Cons.prems(3) write_event(2) [OF False refl] show ?thesis by simp
  qed
  moreover have "distinct (map fe_scan_id (filter is_end es))" using Cons.prems(2) by (simp split: if_splits)
  ultimately show ?case using Cons.IH [of ?u] Cons.prems(1) by simp
qed simp

lemma duo_alive:
  assumes "mg_results t = [node_event demo_fs (scan_job 2 ''/q''), node_event demo_fs (scan_job 1 ''/r''),
         sentinel_event 2 ''/q'' False, node_event demo_fs (scan_job 1 ''/r/a''), sentinel_event 1 ''/r'' False]"
    and "map st_scan_id (mg_rows t) = [2, 1]"
  shows "\<exists>y. run (export_step message glob) (duo_exporter t) (ExportManager_init 10 empty_db) = Some y \<and> ex_alive y"
proof -
  obtain r2 r1 where r: "mg_rows t = [r2, r1]" "st_scan_id r2 = 2" "st_scan_id r1 = 1"
    using assms(2) by auto
  let ?x = "ExportManager_insert_scan_task r1 (ExportManager_insert_scan_task r2 (ExportManager_init 10 empty_db))"
  have x: "ex_alive ?x" "map_of (ex_pending_rows ?x) 2 = Some r2" "map_of (ex_pending_rows ?x) 1 = Some r1"
    by (simp_all add: ExportManager_insert_scan_task_def ExportManager_init_def r)
  have e: "\<not> is_end (node_event demo_fs d)" "is_end (sentinel_event j p c)" "fe_scan_id (sentinel_event j p c) = j" for d j p c
    by (simp_all add: is_end_def sentinel_event_def)
  have "\<exists>y. run (export_step message glob) (map Pop_event (mg_results t)) ?x = Some y \<and> ex_alive y"
    by (rule pops_alive) (simp_all add: assms(1) e x)
  then show ?thesis by (simp add: duo_exporter_def r)
qed


end
