(* ===== verification/Index_Faults.thy ===== *)
theory Index_Faults
  imports Index_Properties
begin

section \<open>The index database when SQLite reports errors\<close>

text \<open>
  Theory \<open>Index_DB\<close> takes every statement to succeed. Here each call of SQLite gets an answer: it does
  its work, finds the file busy or locked, or fails; a call that does not succeed may also roll back the open
  transaction, as SQLite documents for several codes (the flag). \<open>answers k\<close> is the answer to the
  \<open>k\<close>-th call on the connection. \<^verbatim>\<open>DatabaseConnection::exec\<close> throws on an error; the write statements
  log it and the callers ignore the result. A \<^verbatim>\<open>BEGIN\<close> within a transaction and a \<^verbatim>\<open>COMMIT\<close> without one
  are errors. Outside a transaction a statement commits itself. The connection of the exporter is the
  only one that writes.
\<close>

datatype sql_answer = Sql_ok | Sql_busy bool | Sql_error bool

type_synonym sql_answers = "nat \<Rightarrow> sql_answer"

fun rolls_back :: "sql_answer \<Rightarrow> bool" where
  "rolls_back Sql_ok = False"
| "rolls_back (Sql_busy b) = b"
| "rolls_back (Sql_error b) = b"

text \<open>What the connection reads, what the file holds, whether a transaction is open, and the number of
  calls so far.\<close>

record connection =
  con_db :: index_db
  con_file :: index_db
  con_open :: bool
  con_calls :: nat

definition DatabaseConnection_open :: "index_db \<Rightarrow> connection" where
  "DatabaseConnection_open file = \<lparr>con_db = file, con_file = file, con_open = False, con_calls = 0\<rparr>"

definition sql_rollback :: "connection \<Rightarrow> connection" where
  "sql_rollback c = (if con_open c then c\<lparr>con_db := con_file c, con_open := False\<rparr> else c)"

definition sql_call :: "sql_answers \<Rightarrow> connection \<Rightarrow> sql_answer \<times> connection" where
  "sql_call a c =
     (let r = a (con_calls c); c1 = c\<lparr>con_calls := Suc (con_calls c)\<rparr>
      in (r, if rolls_back r then sql_rollback c1 else c1))"

text \<open>The constructor: \<^verbatim>\<open>sqlite3_open\<close>, then a \<^verbatim>\<open>PRAGMA\<close>; \<^term>\<open>None\<close> if it throws.\<close>

definition DatabaseConnection_init :: "sql_answers \<Rightarrow> index_db \<Rightarrow> connection option" where
  "DatabaseConnection_init a file =
     (case sql_call a (DatabaseConnection_open file) of (r1, c1) \<Rightarrow>
        if r1 \<noteq> Sql_ok then None
        else case sql_call a c1 of (r2, c2) \<Rightarrow> if r2 = Sql_ok then Some c2 else None)"

lemma init_connection: "DatabaseConnection_init a file = Some c \<Longrightarrow> con_db c = file \<and> con_file c = file \<and> \<not> con_open c"
  by (auto simp: DatabaseConnection_init_def DatabaseConnection_open_def sql_call_def sql_rollback_def Let_def split: if_splits)

subsection \<open>\<^verbatim>\<open>DatabaseConnection::exec\<close>: \<^verbatim>\<open>BEGIN\<close> and \<^verbatim>\<open>COMMIT\<close>\<close>

text \<open>An operation that may throw gives \<^term>\<open>False\<close> then.\<close>

definition sql_begin :: "sql_answers \<Rightarrow> connection \<Rightarrow> bool \<times> connection" where
  "sql_begin a c =
     (if con_open c then (False, c\<lparr>con_calls := Suc (con_calls c)\<rparr>)
      else case sql_call a c of (r, c1) \<Rightarrow>
        if r = Sql_ok then (True, c1\<lparr>con_open := True\<rparr>) else (False, c1))"

definition sql_commit :: "sql_answers \<Rightarrow> connection \<Rightarrow> bool \<times> connection" where
  "sql_commit a c =
     (if \<not> con_open c then (False, c\<lparr>con_calls := Suc (con_calls c)\<rparr>)
      else case sql_call a c of (r, c1) \<Rightarrow>
        if r = Sql_ok then (True, c1\<lparr>con_file := con_db c1, con_open := False\<rparr>) else (False, c1))"

text \<open>The destructor: closing rolls an open transaction back.\<close>

definition DatabaseConnection_close :: "connection \<Rightarrow> connection" where
  "DatabaseConnection_close c = sql_rollback c"

text \<open>Statements in sequence, up to the first that throws.\<close>

fun sql_seq :: "(connection \<Rightarrow> bool \<times> connection) list \<Rightarrow> connection \<Rightarrow> bool \<times> connection" where
  "sql_seq [] c = (True, c)"
| "sql_seq (f # fs) c = (case f c of (ok, c1) \<Rightarrow> if ok then sql_seq fs c1 else (False, c1))"

subsection \<open>Write statements\<close>

text \<open>A statement with the effect \<open>f\<close>, tried up to \<open>k\<close> times while the file is busy. A key conflict is part
  of \<open>f\<close>, as in \<open>Index_DB\<close>.\<close>

definition sql_apply :: "(index_db \<Rightarrow> index_db) \<Rightarrow> connection \<Rightarrow> connection" where
  "sql_apply f c =
     (let d = f (con_db c) in c\<lparr>con_db := d, con_file := (if con_open c then con_file c else d)\<rparr>)"

fun sql_write :: "sql_answers \<Rightarrow> nat \<Rightarrow> (index_db \<Rightarrow> index_db) \<Rightarrow> connection \<Rightarrow> connection" where
  "sql_write a 0 f c = c"
| "sql_write a (Suc k) f c =
     (case sql_call a c of (r, c1) \<Rightarrow>
        (case r of
           Sql_ok \<Rightarrow> sql_apply f c1
         | Sql_busy _ \<Rightarrow> sql_write a k f c1
         | Sql_error _ \<Rightarrow> c1))"

definition sql_do :: "sql_answers \<Rightarrow> nat \<Rightarrow> (index_db \<Rightarrow> index_db) \<Rightarrow> connection \<Rightarrow> bool \<times> connection" where
  "sql_do a k f c = (True, sql_write a k f c)"

subsection \<open>IndexWriter\<close>

definition put_current :: "(int \<Rightarrow> string) \<Rightarrow> file_event \<Rightarrow> index_db \<Rightarrow> index_db" where
  "put_current message row db =
     db\<lparr>index_current := replace_current (event_current message row) (index_current db)\<rparr>"

definition put_history :: "(int \<Rightarrow> string) \<Rightarrow> file_event \<Rightarrow> index_db \<Rightarrow> index_db" where
  "put_history message row db =
     db\<lparr>index_history := insert_history (event_history message row) (index_history db)\<rparr>"

text \<open>\<^verbatim>\<open>upsert\<close>: a comparison that could not be read counts as a new path.\<close>

definition IndexWriter_upsert_sql ::
    "sql_answers \<Rightarrow> (int \<Rightarrow> string) \<Rightarrow> file_event \<Rightarrow> connection \<Rightarrow> connection" where
  "IndexWriter_upsert_sql a message row c =
     (case sql_call a c of (r, c1) \<Rightarrow>
        let latest = (case current_at (index_current (con_db c)) (fe_path row) of
                        Some x \<Rightarrow> if r = Sql_ok then (cr_mtime x, cr_msize x) else (- 1, - 1)
                      | None \<Rightarrow> (- 1, - 1));
            c2 = sql_write a 4 (put_current message row) c1
        in if fe_modtime row = fst latest \<and> fe_size row = snd latest then c2
           else sql_write a 4 (put_history message row) c2)"

definition delete_history :: "(string \<Rightarrow> string \<Rightarrow> bool) \<Rightarrow> delete_task \<Rightarrow> index_db \<Rightarrow> index_db" where
  "delete_history glob info db =
     (let rows = map (deleted_row info) (filter (unseen_under glob info) (index_current db))
      in if distinct (map history_key (index_history db @ rows))
         then db\<lparr>index_history := index_history db @ rows\<rparr> else db)"

definition delete_current :: "(string \<Rightarrow> string \<Rightarrow> bool) \<Rightarrow> delete_task \<Rightarrow> index_db \<Rightarrow> index_db" where
  "delete_current glob info db =
     db\<lparr>index_current := filter (\<lambda>r. \<not> unseen_under glob info r) (index_current db)\<rparr>"

definition IndexWriter_mark_deleted_sql ::
    "sql_answers \<Rightarrow> (string \<Rightarrow> string \<Rightarrow> bool) \<Rightarrow> delete_task \<Rightarrow> connection \<Rightarrow> bool \<times> connection" where
  "IndexWriter_mark_deleted_sql a glob info =
     sql_seq ([sql_begin a, sql_do a 4 (delete_history glob info)]
       @ (if dt_canceled info then [] else [sql_do a 4 (delete_current glob info)]) @ [sql_commit a])"

subsection \<open>ScanTable, ScanDiff\<close>

definition ScanTable_upsert_sql :: "sql_answers \<Rightarrow> scan_task_row \<Rightarrow> connection \<Rightarrow> bool \<times> connection" where
  "ScanTable_upsert_sql a row = sql_seq [sql_begin a, sql_do a 1 (ScanTable_upsert row), sql_commit a]"

text \<open>The loop over the rows of the scan ends at the first \<^verbatim>\<open>sqlite3_step\<close> that gives no row.\<close>

definition diff_one :: "u64 \<Rightarrow> history_row \<Rightarrow> index_db \<Rightarrow> index_db" where
  "diff_one i r db =
     (let prev = previous_row i (hr_path r) (index_history db) in
      ScanDiff_upsert i (hr_path r) (diff_state_of (hr_state r) prev)
        (case prev of None \<Rightarrow> 0 | Some p \<Rightarrow> hr_msize p) db)"

fun diff_loop :: "sql_answers \<Rightarrow> u64 \<Rightarrow> history_row list \<Rightarrow> connection \<Rightarrow> connection" where
  "diff_loop a i [] c = snd (sql_call a c)"
| "diff_loop a i (r # rs) c =
     (case sql_call a c of (ans, c1) \<Rightarrow>
        if ans = Sql_ok then diff_loop a i rs (sql_write a 4 (diff_one i r) c1) else c1)"

definition IndexReader_find_scan_diff_sql :: "sql_answers \<Rightarrow> u64 \<Rightarrow> connection \<Rightarrow> bool \<times> connection" where
  "IndexReader_find_scan_diff_sql a i =
     sql_seq [sql_begin a,
       \<lambda>c. (True, diff_loop a i (filter (\<lambda>r. hr_last_scan_id r = i) (index_history (con_db c))) c),
       sql_commit a]"

text \<open>\<^verbatim>\<open>upsert_count\<close>: counts that could not be read are 0.\<close>

definition zero_count :: "u64 \<Rightarrow> index_db \<Rightarrow> index_db" where
  "zero_count i = ScanTable_stmt_update_cnt i 0 0 0 0"

definition ScanTable_upsert_count_sql :: "sql_answers \<Rightarrow> u64 \<Rightarrow> connection \<Rightarrow> bool \<times> connection" where
  "ScanTable_upsert_count_sql a i =
     sql_seq [sql_begin a,
       \<lambda>c. (case sql_call a c of (r, c1) \<Rightarrow>
              (True, sql_write a 1 (if r = Sql_ok then ScanTable_upsert_count i else zero_count i) c1)),
       sql_commit a]"

subsection \<open>The keys and the file survive every error\<close>

definition con_ok :: "connection \<Rightarrow> bool" where
  "con_ok c \<longleftrightarrow> db_keys (con_db c) \<and> db_keys (con_file c) \<and> (con_open c \<or> con_db c = con_file c)"

lemma con_ok_rollback: "con_ok c \<Longrightarrow> con_ok (sql_rollback c)"
  by (auto simp: con_ok_def sql_rollback_def)

lemma con_ok_call: "con_ok c \<Longrightarrow> con_ok (snd (sql_call a c))"
  using con_ok_rollback [of "c\<lparr>con_calls := Suc (con_calls c)\<rparr>"] by (simp add: sql_call_def Let_def con_ok_def)

lemma con_ok_begin: "con_ok c \<Longrightarrow> con_ok (snd (sql_begin a c))"
  using con_ok_call [of c a] by (auto simp: sql_begin_def con_ok_def split: prod.split)

lemma con_ok_commit: "con_ok c \<Longrightarrow> con_ok (snd (sql_commit a c))"
  using con_ok_call [of c a] by (auto simp: sql_commit_def con_ok_def split: prod.split)

lemma con_ok_apply: "(\<And>d. db_keys d \<Longrightarrow> db_keys (f d)) \<Longrightarrow> con_ok c \<Longrightarrow> con_ok (sql_apply f c)"
  by (auto simp: con_ok_def sql_apply_def Let_def)

lemma con_ok_write: "(\<And>d. db_keys d \<Longrightarrow> db_keys (f d)) \<Longrightarrow> con_ok c \<Longrightarrow> con_ok (sql_write a k f c)"
proof (induction a k f c rule: sql_write.induct)
  case (2 a k f c)
  obtain r c1 where r: "sql_call a c = (r, c1)" by (cases "sql_call a c")
  then have "con_ok c1" using con_ok_call [OF 2(3), of a] by simp
  with r 2(1) [OF r [symmetric]] 2(2) show ?case
    by (cases r) (simp_all add: con_ok_apply)
qed simp

lemma con_ok_do: "(\<And>d. db_keys d \<Longrightarrow> db_keys (f d)) \<Longrightarrow> con_ok c \<Longrightarrow> con_ok (snd (sql_do a k f c))"
  by (simp add: sql_do_def con_ok_write)

lemma con_ok_seq: "(\<And>f c. f \<in> set fs \<Longrightarrow> con_ok c \<Longrightarrow> con_ok (snd (f c))) \<Longrightarrow> con_ok c \<Longrightarrow> con_ok (snd (sql_seq fs c))"
proof (induction fs arbitrary: c)
  case (Cons f fs)
  obtain ok c1 where f: "f c = (ok, c1)" by (cases "f c")
  then have "con_ok c1" using Cons.prems(1) [of f c] Cons.prems(2) by simp
  then have "con_ok (snd (sql_seq fs c1))" using Cons.IH [of c1] Cons.prems(1) by simp
  with f \<open>con_ok c1\<close> show ?case by simp
qed simp

lemma keys_put: "db_keys db \<Longrightarrow> db_keys (put_current message row db)" "db_keys db \<Longrightarrow> db_keys (put_history message row db)"
  by (auto simp: db_keys_def put_current_def put_history_def replace_current_def insert_history_def
      list_ex_iff history_key_def event_current_def distinct_filter_map)

lemma keys_delete: "db_keys db \<Longrightarrow> db_keys (delete_history glob info db)" "db_keys db \<Longrightarrow> db_keys (delete_current glob info db)"
  by (auto simp: db_keys_def delete_history_def delete_current_def Let_def distinct_filter_map)

lemma keys_diff_one: "db_keys db \<Longrightarrow> db_keys (diff_one i r db)"
  by (simp add: diff_one_def Let_def keys_diff_upsert)

lemma index_zero:
  "index_current (zero_count i db) = index_current db" "index_history (zero_count i db) = index_history db"
  "scan_diff_table (zero_count i db) = scan_diff_table db"
  by (simp_all add: zero_count_def)

lemma keys_zero: "db_keys db \<Longrightarrow> db_keys (zero_count i db)"
proof -
  have "map (\<lambda>t. st_scan_id (te_row t)) (scan_task_table (zero_count i db))
      = map (\<lambda>t. st_scan_id (te_row t)) (scan_task_table db)"
    by (simp add: zero_count_def o_def if_distrib [of te_row] if_distrib [of st_scan_id] cong: if_cong)
  then show "db_keys db \<Longrightarrow> db_keys (zero_count i db)"
    unfolding db_keys_def by (simp only: index_zero)
qed

lemma con_ok_upsert: "con_ok c \<Longrightarrow> con_ok (IndexWriter_upsert_sql a message row c)"
  using con_ok_call [of c a]
  by (auto simp: IndexWriter_upsert_sql_def Let_def keys_put con_ok_write split: prod.split)

lemma con_ok_mark: "con_ok c \<Longrightarrow> con_ok (snd (IndexWriter_mark_deleted_sql a glob info c))"
  unfolding IndexWriter_mark_deleted_sql_def
  by (rule con_ok_seq) (auto simp: con_ok_begin con_ok_commit con_ok_do keys_delete split: if_splits)

lemma con_ok_task: "con_ok c \<Longrightarrow> con_ok (snd (ScanTable_upsert_sql a row c))"
  unfolding ScanTable_upsert_sql_def
  by (rule con_ok_seq) (auto simp: con_ok_begin con_ok_commit con_ok_do keys_task)

lemma con_ok_diff_loop: "con_ok c \<Longrightarrow> con_ok (diff_loop a i rs c)"
proof (induction rs arbitrary: c)
  case (Cons r rs)
  obtain ans c1 where "sql_call a c = (ans, c1)" by (cases "sql_call a c")
  with Cons con_ok_call [OF Cons.prems, of a] show ?case by (simp add: con_ok_write keys_diff_one)
qed (simp add: con_ok_call)

lemma con_ok_find: "con_ok c \<Longrightarrow> con_ok (snd (IndexReader_find_scan_diff_sql a i c))"
  unfolding IndexReader_find_scan_diff_sql_def
  by (rule con_ok_seq) (auto simp: con_ok_begin con_ok_commit con_ok_diff_loop)

lemma con_ok_count: "con_ok c \<Longrightarrow> con_ok (snd (ScanTable_upsert_count_sql a i c))"
  unfolding ScanTable_upsert_count_sql_def
proof (rule con_ok_seq)
  fix f c
  assume f: "f \<in> set [sql_begin a, \<lambda>c. (case sql_call a c of (r, c1) \<Rightarrow>
      (True, sql_write a 1 (if r = Sql_ok then ScanTable_upsert_count i else zero_count i) c1)), sql_commit a]"
    and ok: "con_ok c"
  then show "con_ok (snd (f c))"
    using con_ok_call [OF ok, of a]
    by (auto simp: con_ok_begin con_ok_commit keys_zero keys_count con_ok_write simp del: One_nat_def split: prod.split)
qed

subsection \<open>Without errors\<close>

abbreviation no_errors :: sql_answers where
  "no_errors \<equiv> \<lambda>k. Sql_ok"

lemma no_errors_call: "sql_call no_errors c = (Sql_ok, c\<lparr>con_calls := Suc (con_calls c)\<rparr>)"
  by (simp add: sql_call_def)

lemma no_errors_write4: "sql_write no_errors 4 f c = sql_apply f (c\<lparr>con_calls := Suc (con_calls c)\<rparr>)"
  by (simp add: numeral_eq_Suc no_errors_call)

lemma no_errors_write: "sql_write no_errors (Suc k) f c = sql_apply f (c\<lparr>con_calls := Suc (con_calls c)\<rparr>)"
  by (simp add: no_errors_call)

text \<open>Inside a transaction, and as a whole transaction.\<close>

definition con_same :: "connection \<Rightarrow> connection \<Rightarrow> index_db \<Rightarrow> bool" where
  "con_same c c' d \<longleftrightarrow> con_db c' = d \<and> con_file c' = con_file c \<and> con_open c'"

definition con_saved :: "connection \<Rightarrow> index_db \<Rightarrow> bool" where
  "con_saved c d \<longleftrightarrow> con_db c = d \<and> con_file c = d \<and> \<not> con_open c"

lemma upsert_no_errors:
  assumes "con_open c"
  shows "con_same c (IndexWriter_upsert_sql no_errors message row c) (IndexWriter_upsert message row (con_db c))"
  using assms unfolding IndexWriter_upsert_sql_def IndexWriter_upsert_def con_same_def
  by (auto simp: no_errors_call no_errors_write4 sql_apply_def Let_def put_current_def put_history_def split: option.split)

lemma task_no_errors:
  assumes "con_saved c d"
  obtains c' where "ScanTable_upsert_sql no_errors row c = (True, c')" "con_saved c' (ScanTable_upsert row d)"
  using assms by (auto simp: ScanTable_upsert_sql_def sql_begin_def sql_commit_def sql_do_def no_errors_call
      sql_apply_def con_saved_def Let_def)

lemma mark_parts:
  "IndexWriter_mark_deleted glob info d =
     (if dt_canceled info then delete_history glob info d else delete_current glob info (delete_history glob info d))"
  by (simp add: IndexWriter_mark_deleted_def delete_history_def delete_current_def Let_def)

lemma mark_no_errors:
  assumes "con_saved c d"
  obtains c' where "IndexWriter_mark_deleted_sql no_errors glob info c = (True, c')"
    "con_saved c' (IndexWriter_mark_deleted glob info d)"
  using assms by (cases "dt_canceled info")
    (auto simp: mark_parts IndexWriter_mark_deleted_sql_def sql_begin_def sql_commit_def sql_do_def no_errors_call
      no_errors_write4 sql_apply_def con_saved_def Let_def)

lemma diff_loop_no_errors:
  "con_open c \<Longrightarrow> con_same c (diff_loop no_errors i rs c) (foldl (\<lambda>db r. diff_one i r db) (con_db c) rs)"
proof (induction rs arbitrary: c)
  case (Cons r rs)
  let ?c = "sql_apply (diff_one i r) (c\<lparr>con_calls := Suc (Suc (con_calls c))\<rparr>)"
  have "con_open ?c" "con_db ?c = diff_one i r (con_db c)" "con_file ?c = con_file c"
    using Cons.prems by (simp_all add: sql_apply_def Let_def)
  with Cons.IH [of ?c] show ?case
    by (simp add: no_errors_call no_errors_write4 con_same_def)
qed (simp add: no_errors_call con_same_def)

lemma find_no_errors:
  assumes "con_saved c d"
  obtains c' where "IndexReader_find_scan_diff_sql no_errors i c = (True, c')"
    "con_saved c' (IndexReader_find_scan_diff_and_upsert_scandiff i d)"
proof -
  let ?rs = "filter (\<lambda>r. hr_last_scan_id r = i) (index_history d)"
  let ?c = "c\<lparr>con_calls := Suc (con_calls c), con_open := True\<rparr>"
  have "con_same ?c (diff_loop no_errors i ?rs ?c) (IndexReader_find_scan_diff_and_upsert_scandiff i d)"
    using diff_loop_no_errors [of ?c i ?rs] assms
    by (simp add: IndexReader_find_scan_diff_and_upsert_scandiff_def diff_one_def con_saved_def)
  then show ?thesis
    using assms by (intro that) (auto simp: IndexReader_find_scan_diff_sql_def sql_begin_def sql_commit_def
        no_errors_call con_saved_def con_same_def)
qed

lemma count_no_errors:
  assumes "con_saved c d"
  obtains c' where "ScanTable_upsert_count_sql no_errors i c = (True, c')" "con_saved c' (ScanTable_upsert_count i d)"
  using assms by (auto simp: ScanTable_upsert_count_sql_def sql_begin_def sql_commit_def no_errors_call
      sql_apply_def con_saved_def Let_def)

end
