(* ===== verification/Export_Faults.thy ===== *)
theory Export_Faults
  imports Index_Faults Export_Manager
begin

section \<open>ExportManager when SQLite reports errors\<close>

text \<open>
  The exporter of theory \<open>Export_Manager\<close> on the connection of \<open>Index_Faults\<close>. The record has the
  connection in addition; \<open>ex_db\<close> is what the connection reads. An exception of \<^verbatim>\<open>commit_batch\<close>, of
  \<^verbatim>\<open>begin_transaction\<close> or of \<^verbatim>\<open>get_scan_task\<close> ends the thread, whose connection is closed; one within
  the \<^verbatim>\<open>try\<close> block of \<^verbatim>\<open>finalize_scan\<close> is logged, and the thread goes on with the connection as it is.
\<close>

record sql_exporter = export_manager +
  ex_con :: connection

definition put_con :: "connection \<Rightarrow> sql_exporter \<Rightarrow> sql_exporter" where
  "put_con c s = s\<lparr>ex_con := c, ex_db := con_db c\<rparr>"

text \<open>The start of the thread, which ends at once when the connection cannot be opened.\<close>

definition sql_exporter_init :: "sql_answers \<Rightarrow> nat \<Rightarrow> index_db \<Rightarrow> sql_exporter" where
  "sql_exporter_init a batch_size db =
     (case DatabaseConnection_init a db of
        Some c \<Rightarrow> export_manager.extend (ExportManager_init batch_size db) \<lparr>ex_con = c\<rparr>
      | None \<Rightarrow> (export_manager.extend (ExportManager_init batch_size db)
          \<lparr>ex_con = DatabaseConnection_open db\<rparr>)\<lparr>ex_alive := False\<rparr>)"

text \<open>The end of the thread: the destructor of the connection.\<close>

definition sql_die :: "sql_exporter \<Rightarrow> sql_exporter" where
  "sql_die s = (put_con (DatabaseConnection_close (ex_con s)) s)\<lparr>ex_alive := False\<rparr>"

definition sql_commit_batch :: "sql_answers \<Rightarrow> sql_exporter \<Rightarrow> bool \<times> sql_exporter" where
  "sql_commit_batch a s =
     (if 0 < ex_batch_count s then
        (case sql_commit a (ex_con s) of (ok, c) \<Rightarrow>
           let s1 = put_con c s in
           if ok then
             (True, s1\<lparr>ex_running := ex_running s1 - int (ex_batch_count s1),
                ex_finished := ex_finished s1 + of_nat (ex_batch_count s1), ex_batch_count := 0\<rparr>)
           else (False, s1))
      else (True, s))"

definition sql_finalize_scan ::
    "sql_answers \<Rightarrow> (string \<Rightarrow> string \<Rightarrow> bool) \<Rightarrow> file_event \<Rightarrow> sql_exporter \<Rightarrow> sql_exporter" where
  "sql_finalize_scan a glob event s =
     (let s1 = s\<lparr>ex_finalizing := ex_finalizing s + 1\<rparr>; i = fe_scan_id event in
      case ExportManager_get_scan_task event s1 of
        None \<Rightarrow> sql_die s1
      | Some (row, s2) \<Rightarrow>
          (let task = \<lparr>dt_scan_id = i, dt_submit_root = st_submit_root row,
                       dt_canceled = is_canceled (fe_end_signal event)\<rparr>
           in case sql_seq [ScanTable_upsert_sql a row, IndexWriter_mark_deleted_sql a glob task,
                  IndexReader_find_scan_diff_sql a i, ScanTable_upsert_count_sql a i] (ex_con s2) of (ok, c) \<Rightarrow>
             let s3 = put_con c s2;
                 s4 = (if ok then s3\<lparr>ex_exported := List.insert i (ex_exported s3),
                         ex_notified := ex_notified s3 @ [st_submit_root row],
                         ex_finalizing_done := ex_finalizing_done s3 + 1\<rparr> else s3)
             in s4\<lparr>ex_finalizing := ex_finalizing s4 - 1\<rparr>))"

definition sql_write_event ::
    "sql_answers \<Rightarrow> (int \<Rightarrow> string) \<Rightarrow> file_event \<Rightarrow> sql_exporter \<Rightarrow> sql_exporter" where
  "sql_write_event a message e s =
     (let s1 = s\<lparr>ex_running := ex_running s + 1\<rparr>;
          s2 = (put_con (IndexWriter_upsert_sql a message e (ex_con s1)) s1)\<lparr>ex_batch_count := Suc (ex_batch_count s1)\<rparr>
      in if ex_batch_size s2 \<le> ex_batch_count s2
         then (case sql_commit_batch a s2 of (ok, s3) \<Rightarrow> if ok then s3 else sql_die s3) else s2)"

text \<open>One turn of the loop.\<close>

definition sql_write_result ::
    "sql_answers \<Rightarrow> (int \<Rightarrow> string) \<Rightarrow> (string \<Rightarrow> string \<Rightarrow> bool) \<Rightarrow> file_event \<Rightarrow> sql_exporter \<Rightarrow> sql_exporter" where
  "sql_write_result a message glob e s =
     (if is_sentinel (fe_end_signal e)
      then (case sql_commit_batch a s of (ok, s1) \<Rightarrow> if ok then sql_finalize_scan a glob e s1 else sql_die s1)
      else if ex_batch_count s = 0
      then (case sql_begin a (ex_con s) of (ok, c) \<Rightarrow>
              if ok then sql_write_event a message e (put_con c s) else sql_die (put_con c s))
      else sql_write_event a message e s)"

fun sql_export_step ::
    "sql_answers \<Rightarrow> (int \<Rightarrow> string) \<Rightarrow> (string \<Rightarrow> string \<Rightarrow> bool) \<Rightarrow> export_move \<Rightarrow> sql_exporter
     \<Rightarrow> sql_exporter option" where
  "sql_export_step a message glob (Insert_task row) s = Some (ExportManager_insert_scan_task row s)"
| "sql_export_step a message glob (Pop_event e) s =
     (if ex_alive s then Some (sql_write_result a message glob e s) else None)"
| "sql_export_step a message glob Queue_closed s =
     (if ex_alive s then Some (sql_die (snd (sql_commit_batch a s))) else None)"

subsection \<open>The keys and the file survive every error\<close>

definition sql_ok :: "sql_exporter \<Rightarrow> bool" where
  "sql_ok s \<longleftrightarrow> con_ok (ex_con s) \<and> ex_db s = con_db (ex_con s)"

lemma sql_ok_put: "con_ok c \<Longrightarrow> sql_ok (put_con c s)"
  by (simp add: sql_ok_def put_con_def)

lemma sql_ok_fields [simp]:
  "sql_ok (s\<lparr>ex_running := x1\<rparr>) = sql_ok s" "sql_ok (s\<lparr>ex_finished := x2\<rparr>) = sql_ok s"
  "sql_ok (s\<lparr>ex_batch_count := x3\<rparr>) = sql_ok s" "sql_ok (s\<lparr>ex_finalizing := x4\<rparr>) = sql_ok s"
  "sql_ok (s\<lparr>ex_finalizing_done := x5\<rparr>) = sql_ok s" "sql_ok (s\<lparr>ex_exported := x6\<rparr>) = sql_ok s"
  "sql_ok (s\<lparr>ex_notified := x7\<rparr>) = sql_ok s" "sql_ok (s\<lparr>ex_alive := x8\<rparr>) = sql_ok s"
  "sql_ok (s\<lparr>ex_pending_rows := x9\<rparr>) = sql_ok s"
  by (simp_all add: sql_ok_def)

lemma sql_ok_die: "sql_ok s \<Longrightarrow> sql_ok (sql_die s)"
  by (simp add: sql_die_def sql_ok_put con_ok_rollback DatabaseConnection_close_def sql_ok_def [of s])

lemma sql_ok_commit_batch: "sql_ok s \<Longrightarrow> sql_ok (snd (sql_commit_batch a s))"
  using con_ok_commit [of "ex_con s" a]
  by (auto simp: sql_commit_batch_def Let_def sql_ok_put sql_ok_def [of s] split: prod.split)

lemma sql_ok_finalize:
  assumes "sql_ok s" shows "sql_ok (sql_finalize_scan a glob e s)"
proof (cases "ExportManager_get_scan_task e (s\<lparr>ex_finalizing := ex_finalizing s + 1\<rparr>)")
  case None
  then show ?thesis using assms by (simp add: sql_finalize_scan_def sql_ok_die)
next
  case (Some z)
  obtain row s2 where z: "z = (row, s2)" by (cases z)
  with Some assms have "sql_ok s2" by (auto simp: ExportManager_get_scan_task_def split: option.splits)
  then have "con_ok (snd (sql_seq [ScanTable_upsert_sql a row, IndexWriter_mark_deleted_sql a glob task,
      IndexReader_find_scan_diff_sql a i, ScanTable_upsert_count_sql a i] (ex_con s2)))" for task i
    by (intro con_ok_seq) (auto simp: con_ok_task con_ok_mark con_ok_find con_ok_count sql_ok_def)
  then show ?thesis
    using Some z by (simp add: sql_finalize_scan_def Let_def sql_ok_put split_beta del: sql_seq.simps)
qed

lemma sql_ok_event:
  assumes "sql_ok s" shows "sql_ok (sql_write_event a message e s)"
proof -
  let ?s = "(put_con (IndexWriter_upsert_sql a message e (ex_con s)) (s\<lparr>ex_running := ex_running s + 1\<rparr>))
    \<lparr>ex_batch_count := Suc (ex_batch_count s)\<rparr>"
  have "sql_ok ?s" using assms by (simp add: sql_ok_put con_ok_upsert sql_ok_def [of s])
  then show ?thesis
    using sql_ok_commit_batch [of ?s a] by (auto simp: sql_write_event_def Let_def sql_ok_die split: prod.split)
qed

lemma sql_ok_step: "sql_ok s \<Longrightarrow> sql_export_step a message glob m s = Some t \<Longrightarrow> sql_ok t"
proof (cases m)
  case (Pop_event e)
  assume s: "sql_ok s" and t: "sql_export_step a message glob m s = Some t"
  have "sql_ok (put_con (snd (sql_begin a (ex_con s))) s)" using s by (simp add: sql_ok_put con_ok_begin sql_ok_def [of s])
  then show ?thesis
    using s t Pop_event sql_ok_commit_batch [OF s, of a]
    by (auto simp: sql_write_result_def sql_ok_die sql_ok_finalize sql_ok_event split: prod.splits if_splits)
qed (auto simp: ExportManager_insert_scan_task_def sql_ok_die sql_ok_commit_batch split: if_splits)

interpretation sql_states: invariant "sql_export_step a message glob" sql_ok for a message glob
  by unfold_locales (rule sql_ok_step)

subsection \<open>Without errors the exporter is that of theory \<open>Export_Manager\<close>\<close>

text \<open>A transaction is open just while a batch is.\<close>

definition sql_link :: "sql_exporter \<Rightarrow> bool" where
  "sql_link s \<longleftrightarrow> ex_db s = con_db (ex_con s) \<and> (con_open (ex_con s) \<longleftrightarrow> 0 < ex_batch_count s)
     \<and> (ex_batch_count s = 0 \<longrightarrow> con_file (ex_con s) = con_db (ex_con s))"

abbreviation sql_abs :: "sql_exporter \<Rightarrow> export_manager" where
  "sql_abs \<equiv> export_manager.truncate"

lemmas sql_abs_def = export_manager.truncate_def

lemma abs_fields [simp]:
  "ex_db (sql_abs s) = ex_db s" "ex_batch_size (sql_abs s) = ex_batch_size s"
  "ex_batch_count (sql_abs s) = ex_batch_count s" "ex_pending_rows (sql_abs s) = ex_pending_rows s"
  "ex_exported (sql_abs s) = ex_exported s" "ex_notified (sql_abs s) = ex_notified s"
  "ex_alive (sql_abs s) = ex_alive s" "ex_finalizing (sql_abs s) = ex_finalizing s"
  by (simp_all add: sql_abs_def)

lemma link_saved: "sql_link s \<Longrightarrow> ex_batch_count s = 0 \<Longrightarrow> con_saved (ex_con s) (ex_db s)"
  by (simp add: sql_link_def con_saved_def)

lemma saved_link: "con_saved c d \<Longrightarrow> ex_batch_count s = 0 \<Longrightarrow> sql_link (put_con c s)"
  by (simp add: sql_link_def con_saved_def put_con_def)

lemma link_commit_batch:
  assumes "sql_link s"
  obtains t where "sql_commit_batch no_errors s = (True, t)" "sql_abs t = ExportManager_commit_batch (sql_abs s)"
    "sql_link t" "ex_batch_count t = 0" "ex_alive t = ex_alive s"
proof -
  have "fst (sql_commit_batch no_errors s) \<and> sql_link (snd (sql_commit_batch no_errors s))
    \<and> sql_abs (snd (sql_commit_batch no_errors s)) = ExportManager_commit_batch (sql_abs s)
    \<and> ex_batch_count (snd (sql_commit_batch no_errors s)) = 0
    \<and> ex_alive (snd (sql_commit_batch no_errors s)) = ex_alive s"
    using assms by (cases "0 < ex_batch_count s")
      (simp_all add: sql_commit_batch_def ExportManager_commit_batch_def sql_commit_def no_errors_call sql_link_def
        put_con_def sql_abs_def Let_def)
  then show ?thesis by (intro that [of "snd (sql_commit_batch no_errors s)"]) (simp_all add: prod_eq_iff)
qed

lemma link_die: "sql_link s \<Longrightarrow> ex_batch_count s = 0 \<Longrightarrow> sql_link (sql_die s) \<and> sql_abs (sql_die s) = (sql_abs s)\<lparr>ex_alive := False\<rparr>"
  by (simp add: sql_link_def sql_die_def put_con_def DatabaseConnection_close_def sql_rollback_def sql_abs_def)

lemma abs_scan_task:
  "ExportManager_get_scan_task e (sql_abs s) =
     map_option (\<lambda>(row, s2). (row, sql_abs s2)) (ExportManager_get_scan_task e s)"
  by (auto simp: ExportManager_get_scan_task_def sql_abs_def split: option.split)

lemma seq_no_errors:
  assumes "con_saved c d"
  obtains c' where "sql_seq [ScanTable_upsert_sql no_errors row, IndexWriter_mark_deleted_sql no_errors glob task,
      IndexReader_find_scan_diff_sql no_errors i, ScanTable_upsert_count_sql no_errors i] c = (True, c')"
    "con_saved c' (ScanTable_upsert_count i (IndexReader_find_scan_diff_and_upsert_scandiff i
        (IndexWriter_mark_deleted glob task (ScanTable_upsert row d))))"
proof -
  obtain c1 where 1: "ScanTable_upsert_sql no_errors row c = (True, c1)" "con_saved c1 (ScanTable_upsert row d)"
    using task_no_errors [OF assms] .
  obtain c2 where 2: "IndexWriter_mark_deleted_sql no_errors glob task c1 = (True, c2)"
      "con_saved c2 (IndexWriter_mark_deleted glob task (ScanTable_upsert row d))"
    using mark_no_errors [OF 1(2)] .
  obtain c3 where 3: "IndexReader_find_scan_diff_sql no_errors i c2 = (True, c3)"
      "con_saved c3 (IndexReader_find_scan_diff_and_upsert_scandiff i
         (IndexWriter_mark_deleted glob task (ScanTable_upsert row d)))"
    using find_no_errors [OF 2(2)] .
  obtain c4 where 4: "ScanTable_upsert_count_sql no_errors i c3 = (True, c4)"
      "con_saved c4 (ScanTable_upsert_count i (IndexReader_find_scan_diff_and_upsert_scandiff i
        (IndexWriter_mark_deleted glob task (ScanTable_upsert row d))))"
    using count_no_errors [OF 3(2)] .
  from 1(1) 2(1) 3(1) 4 show ?thesis by (intro that [of c4]) simp_all
qed

lemma link_finalize:
  assumes "sql_link s" and "ex_batch_count s = 0"
  shows "sql_link (sql_finalize_scan no_errors glob e s)
    \<and> sql_abs (sql_finalize_scan no_errors glob e s) = ExportManager_finalize_scan glob e (sql_abs s)"
proof -
  let ?s1 = "s\<lparr>ex_finalizing := ex_finalizing s + 1\<rparr>"
  have s1: "sql_link ?s1" "ex_batch_count ?s1 = 0" "(sql_abs s)\<lparr>ex_finalizing := ex_finalizing s + 1\<rparr> = sql_abs ?s1"
    using assms by (simp_all add: sql_link_def sql_abs_def)
  show ?thesis
  proof (cases "ExportManager_get_scan_task e ?s1")
    case None
    then show ?thesis
      using link_die [OF s1(1,2)] by (simp add: sql_finalize_scan_def ExportManager_finalize_scan_def s1(3) abs_scan_task)
  next
    case (Some z)
    obtain row s2 where z: "z = (row, s2)" by (cases z)
    let ?i = "fe_scan_id e"
    let ?task = "\<lparr>dt_scan_id = ?i, dt_submit_root = st_submit_root row, dt_canceled = is_canceled (fe_end_signal e)\<rparr>"
    have "sql_link s2" "ex_batch_count s2 = 0"
      using Some s1(1,2) z by (auto simp: ExportManager_get_scan_task_def sql_link_def split: option.splits)
    then obtain c where c: "sql_seq [ScanTable_upsert_sql no_errors row, IndexWriter_mark_deleted_sql no_errors glob ?task,
          IndexReader_find_scan_diff_sql no_errors ?i, ScanTable_upsert_count_sql no_errors ?i] (ex_con s2) = (True, c)"
        "con_saved c (ScanTable_upsert_count ?i (IndexReader_find_scan_diff_and_upsert_scandiff ?i
          (IndexWriter_mark_deleted glob ?task (ScanTable_upsert row (ex_db s2)))))"
      using seq_no_errors [OF link_saved] by blast
    then show ?thesis
      using Some z s1(3) saved_link [OF c(2) \<open>ex_batch_count s2 = 0\<close>]
      by (simp add: sql_finalize_scan_def ExportManager_finalize_scan_def abs_scan_task Let_def del: sql_seq.simps)
        (simp add: sql_abs_def sql_link_def put_con_def con_saved_def)
  qed
qed

lemma link_event:
  assumes "con_open (ex_con s)" and "ex_db s = con_db (ex_con s)"
  shows "sql_link (sql_write_event no_errors message e s)
    \<and> (\<not> is_sentinel (fe_end_signal e) \<longrightarrow>
        sql_abs (sql_write_event no_errors message e s) = ExportManager_write_result message glob e (sql_abs s))"
proof -
  let ?c = "IndexWriter_upsert_sql no_errors message e (ex_con s)"
  let ?s = "(put_con ?c (s\<lparr>ex_running := ex_running s + 1\<rparr>))\<lparr>ex_batch_count := Suc (ex_batch_count s)\<rparr>"
  have c: "con_db ?c = IndexWriter_upsert message e (ex_db s)" "con_open ?c"
    using upsert_no_errors [OF assms(1), of message e] assms(2) by (simp_all add: con_same_def)
  then have link: "sql_link ?s" by (simp add: sql_link_def put_con_def)
  have abs: "sql_abs ?s = (sql_abs s)\<lparr>ex_running := ex_running (sql_abs s) + 1,
      ex_db := IndexWriter_upsert message e (ex_db s), ex_batch_count := Suc (ex_batch_count s)\<rparr>"
    by (simp add: c sql_abs_def put_con_def)
  obtain t where t: "sql_commit_batch no_errors ?s = (True, t)" "sql_abs t = ExportManager_commit_batch (sql_abs ?s)"
      "sql_link t"
    using link_commit_batch [OF link] .
  have "sql_write_event no_errors message e s = (if ex_batch_size s \<le> Suc (ex_batch_count s) then t else ?s)"
    by (simp add: sql_write_event_def Let_def t(1) put_con_def [of ?c "s\<lparr>ex_running := ex_running s + 1\<rparr>"])
      (simp add: t(1) [unfolded put_con_def])
  with t(2,3) link abs show ?thesis by (simp add: ExportManager_write_result_def Let_def)
qed

lemma link_step:
  assumes "sql_link s"
  shows "map_option sql_abs (sql_export_step no_errors message glob m s) = export_step message glob m (sql_abs s)
    \<and> (\<forall>t. sql_export_step no_errors message glob m s = Some t \<longrightarrow> sql_link t)"
proof (cases m)
  case (Insert_task row)
  with assms show ?thesis by (simp add: ExportManager_insert_scan_task_def sql_abs_def sql_link_def)
next
  case (Pop_event e)
  obtain t where t: "sql_commit_batch no_errors s = (True, t)" "sql_abs t = ExportManager_commit_batch (sql_abs s)"
      "sql_link t" "ex_batch_count t = 0"
    using link_commit_batch [OF assms] .
  have b: "sql_begin no_errors (ex_con s) = (True, (ex_con s)\<lparr>con_calls := Suc (con_calls (ex_con s)), con_open := True\<rparr>)"
    if "ex_batch_count s = 0"
    using assms that by (simp add: sql_link_def sql_begin_def no_errors_call)
  have o: "sql_abs (put_con ((ex_con s)\<lparr>con_calls := k, con_open := True\<rparr>) s) = sql_abs s" for k
    using assms by (simp add: sql_link_def sql_abs_def put_con_def)
  let ?s = "put_con ((ex_con s)\<lparr>con_calls := Suc (con_calls (ex_con s)), con_open := True\<rparr>) s"
  consider "is_sentinel (fe_end_signal e)" | "\<not> is_sentinel (fe_end_signal e)" "ex_batch_count s = 0"
    | "\<not> is_sentinel (fe_end_signal e)" "0 < ex_batch_count s" by blast
  then have "sql_link (sql_write_result no_errors message glob e s)
      \<and> sql_abs (sql_write_result no_errors message glob e s) = ExportManager_write_result message glob e (sql_abs s)"
  proof cases
    case 1
    with t link_finalize [OF t(3,4), of glob e] show ?thesis
      by (simp add: sql_write_result_def ExportManager_write_result_def)
  next
    case 2
    have "con_open (ex_con ?s)" "ex_db ?s = con_db (ex_con ?s)" by (simp_all add: put_con_def)
    with 2 b o link_event [of ?s message e glob] show ?thesis by (simp add: sql_write_result_def)
  next
    case 3
    with assms have "con_open (ex_con s)" "ex_db s = con_db (ex_con s)" by (simp_all add: sql_link_def)
    with 3 link_event [of s message e glob] show ?thesis by (simp add: sql_write_result_def)
  qed
  then show ?thesis by (simp add: Pop_event)
next
  case Queue_closed
  obtain t where t: "sql_commit_batch no_errors s = (True, t)" "sql_abs t = ExportManager_commit_batch (sql_abs s)"
      "sql_link t" "ex_batch_count t = 0"
    using link_commit_batch [OF assms] .
  then show ?thesis using link_die [of t] by (simp add: Queue_closed ExportManager_close_def)
qed

lemma link_run:
  "sql_link s \<Longrightarrow> map_option sql_abs (run (sql_export_step no_errors message glob) ms s) = run (export_step message glob) ms (sql_abs s)
    \<and> (\<forall>t. run (sql_export_step no_errors message glob) ms s = Some t \<longrightarrow> sql_link t)"
proof (induction ms arbitrary: s)
  case (Cons m ms)
  note step = link_step [OF Cons.prems, of message glob m]
  show ?case
  proof (cases "sql_export_step no_errors message glob m s")
    case None
    with step have "export_step message glob m (sql_abs s) = None" by simp
    with None show ?thesis by simp
  next
    case (Some u)
    with step have "export_step message glob m (sql_abs s) = Some (sql_abs u)" "sql_link u" by auto
    with Some Cons.IH [of u] show ?thesis by simp
  qed
qed simp

lemma init_link: "sql_link (sql_exporter_init no_errors n db)" "sql_abs (sql_exporter_init no_errors n db) = ExportManager_init n db"
  by (simp_all add: sql_exporter_init_def sql_link_def sql_abs_def export_manager.extend_def ExportManager_init_def
      DatabaseConnection_init_def DatabaseConnection_open_def no_errors_call)

text \<open>C12: As long as SQLite reports no error, the exporter with its transactions does exactly what that of
  theory \<open>Export_Manager\<close> does, move by move; a transaction is open just while a batch is begun, and
  between the batches the file holds all that was written.\<close>

theorem sql_exporter_refines:
  "map_option sql_abs (run (sql_export_step no_errors message glob) ms (sql_exporter_init no_errors n db))
     = run (export_step message glob) ms (ExportManager_init n db)
   \<and> (\<forall>t. run (sql_export_step no_errors message glob) ms (sql_exporter_init no_errors n db) = Some t \<longrightarrow>
        (con_open (ex_con t) \<longleftrightarrow> 0 < ex_batch_count t)
        \<and> (ex_batch_count t = 0 \<longrightarrow> con_file (ex_con t) = ex_db t))"
  using link_run [OF init_link(1), of message glob ms n db] by (simp add: init_link(2) sql_link_def)

theorem sql_exporter_refines_witness:
  "con_file (ex_con (sql_exporter_init no_errors 10 empty_db)) = empty_db"
  using sql_exporter_refines [of "\<lambda>n. []" "\<lambda>p t. True" "[]" 10 empty_db]
  by (simp add: sql_exporter_init_def export_manager.extend_def ExportManager_init_def DatabaseConnection_init_def
      no_errors_call)



subsection \<open>A \<^verbatim>\<open>COMMIT\<close> that fails\<close>

text \<open>No statement of the program rolls back. A transaction that is open between two batches stays open:
  each later \<^verbatim>\<open>BEGIN\<close> fails.\<close>

definition sql_stuck :: "sql_exporter \<Rightarrow> bool" where
  "sql_stuck s \<longleftrightarrow> (con_open (ex_con s) \<and> ex_batch_count s = 0) \<or> \<not> ex_alive s"

definition sql_outcome :: "sql_exporter \<Rightarrow> index_db \<times> u64 list \<times> string list" where
  "sql_outcome s = (con_file (ex_con s), ex_exported s, ex_notified s)"

lemma stuck_die: "sql_stuck (sql_die s) \<and> sql_outcome (sql_die s) = sql_outcome s"
  by (simp add: sql_die_def sql_stuck_def sql_outcome_def put_con_def DatabaseConnection_close_def sql_rollback_def)

lemma begin_open: "con_open c \<Longrightarrow> sql_begin a c = (False, c\<lparr>con_calls := Suc (con_calls c)\<rparr>)"
  by (simp add: sql_begin_def)

lemma stuck_finalize:
  assumes "con_open (ex_con s)" "ex_batch_count s = 0"
  shows "sql_stuck (sql_finalize_scan a glob e s) \<and> sql_outcome (sql_finalize_scan a glob e s) = sql_outcome s"
proof (cases "ExportManager_get_scan_task e (s\<lparr>ex_finalizing := ex_finalizing s + 1\<rparr>)")
  case None
  then show ?thesis
    using stuck_die [of "s\<lparr>ex_finalizing := ex_finalizing s + 1\<rparr>"]
    by (simp add: sql_finalize_scan_def) (simp add: sql_outcome_def)
next
  case (Some z)
  obtain row s2 where z: "z = (row, s2)" by (cases z)
  with Some have "ex_con s2 = ex_con s" "ex_batch_count s2 = ex_batch_count s" "ex_alive s2 = ex_alive s"
      "ex_exported s2 = ex_exported s" "ex_notified s2 = ex_notified s"
    by (auto simp: ExportManager_get_scan_task_def split: option.splits)
  with assms Some z show ?thesis
    by (simp add: sql_finalize_scan_def ScanTable_upsert_sql_def begin_open Let_def sql_stuck_def sql_outcome_def
        put_con_def)
qed

lemma stuck_step:
  assumes "sql_stuck s" and "sql_export_step a message glob m s = Some t"
  shows "sql_stuck t \<and> sql_outcome t = sql_outcome s"
proof (cases m)
  case (Insert_task row)
  with assms show ?thesis by (auto simp: ExportManager_insert_scan_task_def sql_stuck_def sql_outcome_def)
next
  case (Pop_event e)
  with assms have s: "con_open (ex_con s)" "ex_batch_count s = 0" and t: "t = sql_write_result a message glob e s"
    by (auto simp: sql_stuck_def split: if_splits)
  have b: "sql_commit_batch a s = (True, s)" using s(2) by (simp add: sql_commit_batch_def)
  show ?thesis
    using stuck_finalize [OF s] stuck_die [of "put_con ((ex_con s)\<lparr>con_calls := Suc (con_calls (ex_con s))\<rparr>) s"] s
    by (auto simp: t sql_write_result_def b begin_open) (simp_all add: sql_outcome_def put_con_def)
next
  case Queue_closed
  with assms have s: "ex_batch_count s = 0" and t: "t = sql_die (snd (sql_commit_batch a s))"
    by (auto simp: sql_stuck_def split: if_splits)
  then show ?thesis using stuck_die [of s] by (simp add: sql_commit_batch_def)
qed

lemma stuck_run:
  "run (sql_export_step a message glob) ms s = Some t \<Longrightarrow> sql_stuck s \<Longrightarrow> sql_outcome t = sql_outcome s"
proof (induction ms arbitrary: s)
  case (Cons m ms)
  then obtain u where u: "sql_export_step a message glob m s = Some u" "run (sql_export_step a message glob) ms u = Some t"
    by (auto split: option.splits)
  with stuck_step [OF Cons.prems(2) u(1)] Cons.IH [OF u(2)] show ?case by simp
qed simp

text \<open>C33: One \<^verbatim>\<open>COMMIT\<close> that finds the file busy while a scan is closed ends the export for good: whatever
  the queue brings and however well SQLite answers afterwards, nothing more reaches the file, no
  scan becomes exported and no root is released.\<close>

theorem sql_busy_commit_fatal:
  assumes "ex_alive s" and "ex_batch_count s = 0" and "\<not> con_open (ex_con s)"
    and "map_of (ex_pending_rows s) i = Some row"
    and "a (con_calls (ex_con s)) = Sql_ok" "a (con_calls (ex_con s) + 1) = Sql_ok"
        "a (con_calls (ex_con s) + 2) = Sql_busy False"
    and "run (sql_export_step a message glob) (Pop_event (scan_sentinel i root c) # ms) s = Some t"
  shows "con_file (ex_con t) = con_file (ex_con s) \<and> ex_exported t = ex_exported s \<and> ex_notified t = ex_notified s"
proof -
  let ?u = "sql_write_result a message glob (scan_sentinel i root c) s"
  let ?e = "scan_sentinel i root c"
  obtain row' s2 where g: "ExportManager_get_scan_task ?e (s\<lparr>ex_finalizing := ex_finalizing s + 1\<rparr>) = Some (row', s2)"
      "ex_con s2 = ex_con s" "ex_batch_count s2 = 0" "ex_exported s2 = ex_exported s" "ex_notified s2 = ex_notified s"
    using assms(2,4) by (simp add: ExportManager_get_scan_task_def scan_sentinel_def)
  have "\<exists>c'. ScanTable_upsert_sql a row' (ex_con s) = (False, c') \<and> con_open c' \<and> con_file c' = con_file (ex_con s)"
    using assms(3,5-7) by (simp add: ScanTable_upsert_sql_def sql_begin_def sql_call_def sql_do_def sql_apply_def
        sql_commit_def Let_def)
  then obtain c' where c': "ScanTable_upsert_sql a row' (ex_con s) = (False, c')" "con_open c'"
      "con_file c' = con_file (ex_con s)" by blast
  have "sql_stuck ?u \<and> sql_outcome ?u = sql_outcome s"
    using g c' assms(2) by (simp add: sql_write_result_def sql_commit_batch_def sql_finalize_scan_def Let_def
        sql_stuck_def sql_outcome_def put_con_def) (simp add: scan_sentinel_def)
  moreover have "run (sql_export_step a message glob) ms ?u = Some t" using assms(1,8) by simp
  ultimately have "sql_outcome t = sql_outcome s" using stuck_run by metis
  then show ?thesis by (simp add: sql_outcome_def)
qed

definition two_scans :: "export_move list" where
  "two_scans = [Pop_event (scan_sentinel 7 ''/a'' False), Pop_event (scan_sentinel 8 ''/b'' False)]"

definition two_rows :: sql_exporter where
  "two_rows = (sql_exporter_init no_errors 10 empty_db)\<lparr>ex_pending_rows :=
     [(7, \<lparr>st_scan_id = 7, st_start_time = 1, st_finish_time = 2, st_submit_root = ''/a'', st_end_state = DONE\<rparr>),
      (8, \<lparr>st_scan_id = 8, st_start_time = 1, st_finish_time = 2, st_submit_root = ''/b'', st_end_state = DONE\<rparr>)]\<rparr>"

theorem sql_busy_commit_fatal_witness:
  "\<exists>t. run (sql_export_step (\<lambda>k. if k = 4 then Sql_busy False else Sql_ok) (\<lambda>n. []) (\<lambda>p t. False)) two_scans two_rows = Some t
     \<and> ex_exported t = [] \<and> con_file (ex_con t) = empty_db"
proof -
  let ?a = "\<lambda>k. if k = 4 then Sql_busy False else Sql_ok"
  let ?row = "\<lparr>st_scan_id = 7, st_start_time = 1, st_finish_time = 2, st_submit_root = ''/a'', st_end_state = DONE\<rparr>"
  have s: "ex_alive two_rows" "ex_batch_count two_rows = 0" "\<not> con_open (ex_con two_rows)" "con_calls (ex_con two_rows) = 2"
      "map_of (ex_pending_rows two_rows) 7 = Some ?row" "con_file (ex_con two_rows) = empty_db" "ex_exported two_rows = []"
    by (simp_all add: two_rows_def sql_exporter_init_def export_manager.extend_def ExportManager_init_def
        DatabaseConnection_init_def DatabaseConnection_open_def no_errors_call)
  have "ex_alive (sql_write_result ?a (\<lambda>n. []) (\<lambda>p t. False) (scan_sentinel 7 ''/a'' False) two_rows)"
    using s by (simp add: sql_write_result_def sql_commit_batch_def sql_finalize_scan_def scan_sentinel_def
        ExportManager_get_scan_task_def ScanTable_upsert_sql_def sql_begin_def sql_call_def sql_do_def sql_apply_def
        sql_commit_def Let_def put_con_def)
  then obtain t where t: "run (sql_export_step ?a (\<lambda>n. []) (\<lambda>p t. False)) two_scans two_rows = Some t"
    using s(1) by (simp add: two_scans_def)
  have "con_file (ex_con t) = con_file (ex_con two_rows) \<and> ex_exported t = ex_exported two_rows
      \<and> ex_notified t = ex_notified two_rows"
    using sql_busy_commit_fatal [OF s(1-3,5) _ _ _ t [unfolded two_scans_def]] s(4) by simp
  with t s show ?thesis by simp
qed

subsection \<open>The answers that are still to come\<close>

text \<open>What an operation does depends on the answers from its first call on.\<close>

definition agree :: "sql_answers \<Rightarrow> sql_answers \<Rightarrow> nat \<Rightarrow> bool" where
  "agree a b k \<longleftrightarrow> (\<forall>j \<ge> k. a j = b j)"

definition local_op :: "(sql_answers \<Rightarrow> connection \<Rightarrow> bool \<times> connection) \<Rightarrow> bool" where
  "local_op f \<longleftrightarrow> (\<forall>a c. con_calls c \<le> con_calls (snd (f a c)))
     \<and> (\<forall>a b c. agree a b (con_calls c) \<longrightarrow> f a c = f b c)"

lemma agree_later: "agree a b k \<Longrightarrow> k \<le> j \<Longrightarrow> agree a b j"
  by (simp add: agree_def)

lemma call_count [simp]: "con_calls (snd (sql_call a c)) = Suc (con_calls c)"
  by (simp add: sql_call_def Let_def sql_rollback_def)

lemma call_local: "agree a b (con_calls c) \<Longrightarrow> sql_call a c = sql_call b c"
  by (simp add: sql_call_def agree_def)

lemma local_begin: "local_op sql_begin"
  using call_count unfolding local_op_def
  by (auto simp: sql_begin_def call_local split_beta)

lemma local_commit: "local_op sql_commit"
  using call_count unfolding local_op_def
  by (auto simp: sql_commit_def call_local split_beta)

lemma write_count: "con_calls c \<le> con_calls (sql_write a k f c)"
proof (induction k arbitrary: c)
  case (Suc k)
  obtain r c1 where r: "sql_call a c = (r, c1)" by (cases "sql_call a c")
  then have "con_calls c1 = Suc (con_calls c)" using call_count [of a c] by simp
  with r Suc [of c1] show ?case by (cases r) (simp_all add: sql_apply_def Let_def)
qed simp

lemma write_local: "agree a b (con_calls c) \<Longrightarrow> sql_write a k f c = sql_write b k f c"
proof (induction k arbitrary: c)
  case (Suc k)
  obtain r c1 where r: "sql_call a c = (r, c1)" by (cases "sql_call a c")
  then have c1: "con_calls c1 = Suc (con_calls c)" "sql_call b c = (r, c1)"
    using call_count [of a c] call_local [OF Suc.prems] by simp_all
  have "agree a b (con_calls c1)" using agree_later [OF Suc.prems] c1(1) by simp
  from Suc.IH [OF this] r c1 show ?case by (cases r) simp_all
qed simp

lemma local_do: "local_op (\<lambda>a. sql_do a k f)"
  using write_local by (auto simp: local_op_def sql_do_def write_count)

lemma local_seq: "list_all local_op fs \<Longrightarrow> local_op (\<lambda>a. sql_seq (map (\<lambda>f. f a) fs))"
proof (induction fs)
  case (Cons f fs)
  let ?g = "\<lambda>a. sql_seq (map (\<lambda>f. f a) fs)"
  have f: "local_op f" and g: "local_op ?g" using Cons by simp_all
  have "con_calls c \<le> con_calls (snd (sql_seq (map (\<lambda>f. f a) (f # fs)) c))" for a c
  proof -
    have "con_calls c \<le> con_calls (snd (f a c))" "con_calls (snd (f a c)) \<le> con_calls (snd (?g a (snd (f a c))))"
      using f g by (simp_all add: local_op_def)
    then show ?thesis by (simp add: split_beta)
  qed
  moreover have "sql_seq (map (\<lambda>f. f a) (f # fs)) c = sql_seq (map (\<lambda>f. f b) (f # fs)) c" if ab: "agree a b (con_calls c)" for a b c
  proof -
    have e: "f a c = f b c" and "con_calls c \<le> con_calls (snd (f b c))" using f ab by (auto simp: local_op_def)
    then have "agree a b (con_calls (snd (f b c)))" using ab agree_later by blast
    then have "?g a (snd (f b c)) = ?g b (snd (f b c))" using g by (simp add: local_op_def)
    then show ?thesis by (simp add: e split_beta)
  qed
  ultimately show ?case by (simp add: local_op_def)
qed (simp add: local_op_def)

lemma local_task: "local_op (\<lambda>a. ScanTable_upsert_sql a row)"
  using local_seq [of "[sql_begin, \<lambda>a. sql_do a 1 (ScanTable_upsert row), sql_commit]"] local_begin local_commit local_do
  by (simp add: ScanTable_upsert_sql_def)

lemma local_mark: "local_op (\<lambda>a. IndexWriter_mark_deleted_sql a glob info)"
  using local_seq [of "[sql_begin, \<lambda>a. sql_do a 4 (delete_history glob info)]
       @ (if dt_canceled info then [] else [\<lambda>a. sql_do a 4 (delete_current glob info)]) @ [sql_commit]"]
    local_begin local_commit local_do
  by (cases "dt_canceled info") (simp_all add: IndexWriter_mark_deleted_sql_def)

lemma diff_loop_count: "con_calls c \<le> con_calls (diff_loop a i rs c)"
proof (induction rs arbitrary: c)
  case (Cons r rs)
  obtain x c1 where r: "sql_call a c = (x, c1)" by (cases "sql_call a c")
  then have "con_calls c1 = Suc (con_calls c)" using call_count [of a c] by simp
  with r Cons [of "sql_write a 4 (diff_one i r) c1"] write_count [of c1 a 4 "diff_one i r"] show ?case by simp
qed simp

lemma diff_loop_local: "agree a b (con_calls c) \<Longrightarrow> diff_loop a i rs c = diff_loop b i rs c"
proof (induction rs arbitrary: c)
  case (Cons r rs)
  obtain x c1 where r: "sql_call a c = (x, c1)" by (cases "sql_call a c")
  then have c1: "con_calls c1 = Suc (con_calls c)" "sql_call b c = (x, c1)"
    using call_count [of a c] call_local [OF Cons.prems] by simp_all
  have ab: "agree a b (con_calls c1)" using agree_later [OF Cons.prems] c1(1) by simp
  from Cons.IH [OF agree_later [OF this write_count]] show ?case
    using r c1(2) write_local [OF ab, of 4 "diff_one i r"] by simp
qed (simp add: call_local)

lemma local_find: "local_op (\<lambda>a. IndexReader_find_scan_diff_sql a i)"
proof -
  let ?f = "\<lambda>a c. (True, diff_loop a i (filter (\<lambda>r. hr_last_scan_id r = i) (index_history (con_db c))) c)"
  have "local_op ?f" using diff_loop_local by (auto simp: local_op_def diff_loop_count)
  then show ?thesis
    using local_seq [of "[sql_begin, ?f, sql_commit]"] local_begin local_commit
    by (simp add: IndexReader_find_scan_diff_sql_def)
qed

lemma local_count: "local_op (\<lambda>a. ScanTable_upsert_count_sql a i)"
proof -
  let ?f = "\<lambda>a c. (case sql_call a c of (r, c1) \<Rightarrow>
      (True, sql_write a 1 (if r = Sql_ok then ScanTable_upsert_count i else zero_count i) c1))"
  have "con_calls c \<le> con_calls (snd (?f a c))" for a c
    using write_count [of "snd (sql_call a c)" a 1] call_count [of a c] by (simp add: split_beta del: One_nat_def) (metis Suc_leD)
  moreover have "?f a c = ?f b c" if ab: "agree a b (con_calls c)" for a b c
  proof -
    have "agree a b (con_calls (snd (sql_call b c)))" using agree_later [OF ab] by simp
    then show ?thesis by (simp add: call_local [OF ab] split_beta write_local del: sql_write.simps One_nat_def)
  qed
  ultimately have "local_op ?f" unfolding local_op_def by blast
  then show ?thesis
    using local_seq [of "[sql_begin, ?f, sql_commit]"] local_begin local_commit
    by (simp add: ScanTable_upsert_count_sql_def)
qed

text \<open>So a turn of the loop that closes a scan is one without errors if no more errors come.\<close>

lemma finalize_local:
  assumes "agree a b (con_calls (ex_con s))"
  shows "sql_finalize_scan a glob e s = sql_finalize_scan b glob e s"
proof -
  have "sql_seq [ScanTable_upsert_sql a row, IndexWriter_mark_deleted_sql a glob task,
      IndexReader_find_scan_diff_sql a i, ScanTable_upsert_count_sql a i] (ex_con s) =
    sql_seq [ScanTable_upsert_sql b row, IndexWriter_mark_deleted_sql b glob task,
      IndexReader_find_scan_diff_sql b i, ScanTable_upsert_count_sql b i] (ex_con s)" for row task i
    using local_seq [of "[\<lambda>a. ScanTable_upsert_sql a row, \<lambda>a. IndexWriter_mark_deleted_sql a glob task,
      \<lambda>a. IndexReader_find_scan_diff_sql a i, \<lambda>a. ScanTable_upsert_count_sql a i]"]
      local_task local_mark local_find local_count assms
    by (auto simp: local_op_def simp del: sql_seq.simps)
  moreover have "ex_con s2 = ex_con s"
    if "ExportManager_get_scan_task e (s\<lparr>ex_finalizing := ex_finalizing s + 1\<rparr>) = Some (row, s2)" for row s2
    using that by (auto simp: ExportManager_get_scan_task_def split: option.splits)
  ultimately show ?thesis
    by (auto simp: sql_finalize_scan_def Let_def simp del: sql_seq.simps split: option.split)
qed

lemma sentinel_local:
  assumes "agree a b (con_calls (ex_con s))" and "is_sentinel (fe_end_signal e)"
  shows "sql_write_result a message glob e s = sql_write_result b message glob e s"
proof -
  have "sql_commit a (ex_con s) = sql_commit b (ex_con s)" using local_commit assms(1) by (simp add: local_op_def)
  then have c: "sql_commit_batch a s = sql_commit_batch b s" by (simp add: sql_commit_batch_def)
  have "con_calls (ex_con s) \<le> con_calls (ex_con (snd (sql_commit_batch b s)))"
    using local_commit by (auto simp: local_op_def sql_commit_batch_def Let_def put_con_def split_beta)
  then have "sql_finalize_scan a glob e (snd (sql_commit_batch b s)) = sql_finalize_scan b glob e (snd (sql_commit_batch b s))"
    by (intro finalize_local agree_later [OF assms(1)])
  with c assms(2) show ?thesis by (simp add: sql_write_result_def split_beta)
qed

subsection \<open>A write that fails\<close>

lemma failed_write:
  assumes "a (con_calls c) = Sql_ok" and "a (con_calls c + 1) = Sql_error False"
    and "current_at (index_current (con_db c)) (fe_path e) = Some old" "cr_mtime old = fe_modtime e" "cr_msize old = fe_size e"
  shows "IndexWriter_upsert_sql a message e c = c\<lparr>con_calls := con_calls c + 2\<rparr>"
  using assms by (simp add: IndexWriter_upsert_sql_def sql_call_def numeral_eq_Suc Let_def)

lemma failed_event:
  assumes s: "sql_link s" "ex_batch_count s = 0" "1 < ex_batch_size s" and e: "\<not> is_sentinel (fe_end_signal e)"
    and old: "current_at (index_current (ex_db s)) (fe_path e) = Some old" "cr_mtime old = fe_modtime e" "cr_msize old = fe_size e"
    and a: "a (con_calls (ex_con s)) = Sql_ok" "a (con_calls (ex_con s) + 1) = Sql_ok" "a (con_calls (ex_con s) + 2) = Sql_error False"
  shows "sql_write_result a message glob e s =
    (put_con ((ex_con s)\<lparr>con_calls := con_calls (ex_con s) + 3, con_open := True\<rparr>) s)
      \<lparr>ex_running := ex_running s + 1, ex_batch_count := 1\<rparr>"
proof -
  let ?c = "(ex_con s)\<lparr>con_calls := Suc (con_calls (ex_con s)), con_open := True\<rparr>"
  have "sql_begin a (ex_con s) = (True, ?c)"
    using s(1,2) a(1) by (simp add: sql_begin_def sql_call_def sql_link_def)
  moreover have "IndexWriter_upsert_sql a message e ?c = ?c\<lparr>con_calls := con_calls (ex_con s) + 3\<rparr>"
    using failed_write [of a ?c e old message] a old s(1) by (simp add: sql_link_def numeral_eq_Suc)
  ultimately show ?thesis
    using s(2,3) e by (simp add: sql_write_result_def sql_write_event_def Let_def put_con_def)
qed

text \<open>C34: The result of a write statement is ignored. When the row of an unchanged file cannot be written, it
  keeps the id of the scan before, and \<^verbatim>\<open>mark_deleted\<close> takes the file for one that the scan did not
  see: the index loses a file that exists, and the history says that it was deleted.\<close>

theorem sql_failed_write_deletes:
  assumes s: "sql_link s" "ex_alive s" "ex_batch_count s = 0" "1 < ex_batch_size s"
    and row: "map_of (ex_pending_rows s) i = Some row" "st_submit_root row = root" "root \<noteq> []"
    and db: "db_keys (ex_db s)" "fresh_scan i (ex_db s)" "glob_subtree glob root"
    and e: "\<not> is_sentinel (fe_end_signal e)" "starts_with (root @ ''/'') (fe_path e)"
      "current_at (index_current (ex_db s)) (fe_path e) = Some old" "cr_mtime old = fe_modtime e" "cr_msize old = fe_size e"
    and a: "\<forall>k. a k = (if k = con_calls (ex_con s) + 2 then Sql_error False else Sql_ok)"
  shows "\<exists>t. run (sql_export_step a message glob) [Pop_event e, Pop_event (scan_sentinel i root False)] s = Some t
    \<and> i \<in> set (ex_exported t) \<and> current_at (index_current (con_file (ex_con t))) (fe_path e) = None
    \<and> (\<exists>h \<in> set (index_history (con_file (ex_con t))). hr_path h = fe_path e \<and> hr_last_scan_id h = i \<and> hr_state h = Deleted)"
proof -
  let ?u = "sql_write_result a message glob e s" and ?sent = "scan_sentinel i root False"
  let ?info = "\<lparr>dt_scan_id = i, dt_submit_root = root, dt_canceled = False\<rparr>"
  have u: "?u = (put_con ((ex_con s)\<lparr>con_calls := con_calls (ex_con s) + 3, con_open := True\<rparr>) s)
      \<lparr>ex_running := ex_running s + 1, ex_batch_count := 1\<rparr>"
    using failed_event [OF s(1,3,4) e(1,3-5)] a by simp
  have link: "sql_link ?u" "ex_alive ?u" "ex_db ?u = ex_db s" "ex_pending_rows ?u = ex_pending_rows s"
    using s(1,2) unfolding u by (simp_all add: sql_link_def put_con_def)
  have "agree a no_errors (con_calls (ex_con ?u))" using a unfolding u by (simp add: agree_def put_con_def)
  then have same: "sql_write_result a message glob ?sent ?u = sql_write_result no_errors message glob ?sent ?u"
    by (intro sentinel_local) (simp_all add: scan_sentinel_def)
  let ?t = "sql_write_result no_errors message glob ?sent ?u"
  have st: "sql_export_step no_errors message glob (Pop_event ?sent) ?u = Some ?t" using link(2) by simp
  then have abs: "export_step message glob (Pop_event ?sent) (sql_abs ?u) = Some (sql_abs ?t)" and lt: "sql_link ?t"
    using link_step [OF link(1), of message glob "Pop_event ?sent"] by simp_all
  obtain t' where t': "run (export_step message glob) (map Pop_event [] @ [Pop_event ?sent]) (sql_abs ?u) = Some t'"
      "i \<in> set (ex_exported t')" "ex_batch_count t' = 0"
      "index_current (ex_db t') = index_current (export_scan message glob ?info [] (ex_db s))"
      "index_history (ex_db t') = index_history (export_scan message glob ?info [] (ex_db s))"
    using export_whole [of "[]" "sql_abs ?u" i row root message glob False] link row by (auto simp: Let_def)
  then have t: "i \<in> set (ex_exported ?t)" "ex_batch_count ?t = 0" "ex_db t' = ex_db ?t" using abs by (auto simp del: export_step.simps)
  then have saved: "con_file (ex_con ?t) = ex_db ?t" using lt by (simp add: sql_link_def)
  have ids: "fresh_scan (dt_scan_id ?info) (ex_db s)" "scan_events (dt_scan_id ?info) []"
    using db(2) by (simp_all add: scan_events_def)
  have "current_at (index_current (ex_db ?t)) (fe_path e) = None"
    using export_snapshot [OF db(1) ids, of glob message "fe_path e"] db(3) e(2) t'(4) t(3) by (simp add: event_at_def)
  moreover have "\<exists>h \<in> set (index_history (ex_db ?t)). hr_path h = fe_path e \<and> hr_last_scan_id h = i \<and> hr_state h = Deleted"
  proof -
    have mem: "old \<in> set (index_current (ex_db s))" "cr_path old = fe_path e"
      using current_at_path [OF e(3)] by simp_all
    then have "unseen_under glob ?info old"
      using db(2,3) e(2) by (auto simp: unseen_under_def glob_subtree_def fresh_scan_def)
    with mem(1) have "deleted_row ?info old \<in> set (index_history (ex_db ?t))"
      using export_history [OF db(1) ids, of glob message] t'(5) t(3)
      by (simp add: export_scan_def added_rows_def upsert_all_def)
    then show ?thesis using mem(2) by (intro bexI [of _ "deleted_row ?info old"]) simp_all
  qed
  moreover have "run (sql_export_step a message glob) [Pop_event e, Pop_event ?sent] s = Some ?t"
    using s(2) link(2) same by simp
  ultimately show ?thesis using t(1) saved by auto
qed

definition full_disk :: sql_exporter where
  "full_disk = (sql_exporter_init no_errors 10 demo_db)\<lparr>ex_pending_rows :=
     [(2, \<lparr>st_scan_id = 2, st_start_time = 1, st_finish_time = 2, st_submit_root = ''/r'', st_end_state = DONE\<rparr>)]\<rparr>"

theorem sql_failed_write_deletes_witness:
  "\<exists>t. run (sql_export_step (\<lambda>k. if k = 4 then Sql_error False else Sql_ok) (\<lambda>n. []) (\<lambda>p t. starts_with (butlast p) t))
      [Pop_event (demo_event 2 ''/r/a'' 5), Pop_event (scan_sentinel 2 ''/r'' False)] full_disk = Some t
    \<and> current_at (index_current (con_file (ex_con t))) ''/r/a'' = None"
proof -
  let ?row = "\<lparr>st_scan_id = 2, st_start_time = 1, st_finish_time = 2, st_submit_root = ''/r'', st_end_state = DONE\<rparr>"
  have s: "sql_link full_disk" "ex_alive full_disk" "ex_batch_count full_disk = 0" "1 < ex_batch_size full_disk"
      "ex_db full_disk = demo_db" "con_calls (ex_con full_disk) = 2" "map_of (ex_pending_rows full_disk) 2 = Some ?row"
    by (simp_all add: full_disk_def sql_exporter_init_def export_manager.extend_def ExportManager_init_def
        DatabaseConnection_init_def DatabaseConnection_open_def no_errors_call sql_link_def)
  have e: "\<not> is_sentinel (fe_end_signal (demo_event 2 ''/r/a'' 5))" "fe_path (demo_event 2 ''/r/a'' 5) = ''/r/a''"
      "current_at (index_current demo_db) ''/r/a'' = Some (event_current (\<lambda>n. []) (demo_event 1 ''/r/a'' 5))"
      "cr_mtime (event_current (\<lambda>n. []) (demo_event 1 ''/r/a'' 5)) = fe_modtime (demo_event 2 ''/r/a'' 5)"
      "cr_msize (event_current (\<lambda>n. []) (demo_event 1 ''/r/a'' 5)) = fe_size (demo_event 2 ''/r/a'' 5)"
    unfolding demo_db_facts(1) by (simp_all add: demo_event_def event_current_def current_at_def Sentinel_init_def)
  let ?a = "\<lambda>k :: nat. if k = 4 then Sql_error False else Sql_ok"
  have r: "st_submit_root ?row = ''/r''" "''/r'' \<noteq> []" by simp_all
  have d: "db_keys (ex_db full_disk)" "fresh_scan 2 (ex_db full_disk)"
      "starts_with (''/r'' @ ''/'') (fe_path (demo_event 2 ''/r/a'' 5))"
      "current_at (index_current (ex_db full_disk)) (fe_path (demo_event 2 ''/r/a'' 5))
        = Some (event_current (\<lambda>n. []) (demo_event 1 ''/r/a'' 5))"
      "\<forall>k. ?a k = (if k = con_calls (ex_con full_disk) + 2 then Sql_error False else Sql_ok)"
    using s(5,6) demo_db_fresh e(3) by (simp_all add: e(2) starts_with_def)
  note t = sql_failed_write_deletes [OF s(1-4,7) r d(1,2) demo_glob e(1) d(3,4) e(4,5) d(5), of "\<lambda>n. []", unfolded e(2)]
  then show ?thesis by (elim exE conjE) (intro exI conjI)
qed

end
