(* ===== verification/Service_Shutdown.thy ===== *)
theory Service_Shutdown
  imports Manager_Drain Export_Interleaving
begin

section \<open>The scan service as a whole, and its shutdown\<close>

text \<open>
  The scan system, the bounded result queue and the exporter as one transition system, with the thread
  that runs the second half of \<^verbatim>\<open>Scheduler::shutdown\<close> (\<^verbatim>\<open>daemon_system/scheduler.cpp\<close>) and
  \<^verbatim>\<open>Manager::shutdown\<close>: it cancels the running scans, waits for each of them (\<^verbatim>\<open>wait_to_finish\<close>), stops
  and joins the pool, closes the result queue and joins the exporter. A worker's step that pushes a result
  waits while the queue is full. \<open>sv_taken\<close> lists what the exporter has popped, \<open>sv_refused\<close> what the closed queue
  did not take, \<open>sv_accepted\<close> the scans for which \<^verbatim>\<open>start_new_scan\<close> returned true.

  \<^verbatim>\<open>wait_to_finish\<close> tests its predicate under the registry's lock and then sleeps; the counter it tests
  is decremented, and \<^verbatim>\<open>notify_all\<close> called, without that lock, so both can come in between.
\<close>

datatype shutdown_pc =
    Serving
  | Cancelling "u64 list" "u64 list"
  | Awaiting "u64 list"
  | Going_to_sleep "u64 list"
  | Asleep_on "u64 list"
  | Stopping_pool
  | Joining_pool
  | Closing_export
  | Joining_export
  | Service_stopped

record scan_service =
  sv_mgr :: manager
  sv_queue :: "file_event job_queue"
  sv_exp :: export_manager
  sv_pc :: shutdown_pc
  sv_taken :: "file_event list"
  sv_refused :: "file_event list"
  sv_accepted :: "u64 list"

definition service_init :: "manager \<Rightarrow> nat \<Rightarrow> queue_metrics \<Rightarrow> export_manager \<Rightarrow> scan_service" where
  "service_init g que_size metrics x =
     \<lparr>sv_mgr = g, sv_queue = JobQueue_init Fifo metrics que_size, sv_exp = x, sv_pc = Serving,
      sv_taken = [], sv_refused = [], sv_accepted = []\<rparr>"

subsection \<open>The moves\<close>

text \<open>\<^verbatim>\<open>push_result_queue\<close> for the results of a step; the second component is what was refused.\<close>

fun push_results ::
    "file_event list \<Rightarrow> file_event job_queue \<Rightarrow> (file_event job_queue \<times> file_event list) option" where
  "push_results [] q = Some (q, [])"
| "push_results (e # es) q =
     (case JobQueue_push e q of
        None \<Rightarrow> None
      | Some (ok, q1, _) \<Rightarrow>
          (case push_results es q1 of
             None \<Rightarrow> None
           | Some (q2, r) \<Rightarrow> Some (q2, if ok then r else e # r)))"

text \<open>The moves that call \<^verbatim>\<open>manager_cv.notify_all\<close>: the end of a scan and a cancellation.\<close>

definition manager_notifies :: "manager_move \<Rightarrow> manager \<Rightarrow> bool" where
  "manager_notifies m g =
     (case m of
        Start_scan i r now \<Rightarrow> map_of (mg_registry g) i = None \<and> fst (Manager_start_new_scan i r now g) = (False, False)
      | Cancel_scan i \<Rightarrow> map_of (mg_registry g) i \<noteq> None
      | Shutdown_pool \<Rightarrow> True
      | Work k now \<Rightarrow>
          k < length (mg_threads g) \<and>
          (case mg_threads g ! k of Closing d # fr \<Rightarrow> True | _ \<Rightarrow> False))"

definition wake_up :: "shutdown_pc \<Rightarrow> shutdown_pc" where
  "wake_up pc = (case pc of Asleep_on ids \<Rightarrow> Awaiting ids | _ \<Rightarrow> pc)"

definition newly_accepted :: "manager_move \<Rightarrow> manager \<Rightarrow> u64 list" where
  "newly_accepted m g =
     (case m of
        Start_scan i r now \<Rightarrow> if fst (Manager_start_new_scan i r now g) = (True, False) then [i] else []
      | _ \<Rightarrow> [])"

definition service_manager :: "file_system \<Rightarrow> manager_move \<Rightarrow> scan_service \<Rightarrow> scan_service option" where
  "service_manager fs m s =
     (case manager_step fs m (sv_mgr s) of
        None \<Rightarrow> None
      | Some g \<Rightarrow>
          (case push_results (drop (length (mg_results (sv_mgr s))) (mg_results g)) (sv_queue s) of
             None \<Rightarrow> None
           | Some (q, refused) \<Rightarrow>
               Some (s\<lparr>sv_mgr := g, sv_queue := q, sv_refused := sv_refused s @ refused,
                 sv_exp := fold ExportManager_insert_scan_task
                   (drop (length (mg_rows (sv_mgr s))) (mg_rows g)) (sv_exp s),
                 sv_accepted := sv_accepted s @ newly_accepted m (sv_mgr s),
                 sv_pc := (if manager_notifies m (sv_mgr s) then wake_up (sv_pc s) else sv_pc s)\<rparr>)))"

text \<open>One turn of \<^verbatim>\<open>write_result_to_db\<close> with its \<^verbatim>\<open>pop\<close>.\<close>

definition service_export ::
    "(int \<Rightarrow> string) \<Rightarrow> (string \<Rightarrow> string \<Rightarrow> bool) \<Rightarrow> scan_service \<Rightarrow> scan_service option" where
  "service_export message glob s =
     (if \<not> ex_alive (sv_exp s) then None
      else case JobQueue_pop (sv_queue s) of
             None \<Rightarrow> None
           | Some (None, q, _) \<Rightarrow> Some (s\<lparr>sv_queue := q, sv_exp := ExportManager_close (sv_exp s)\<rparr>)
           | Some (Some e, q, _) \<Rightarrow>
               Some (s\<lparr>sv_queue := q, sv_taken := sv_taken s @ [e],
                 sv_exp := ExportManager_write_result message glob e (sv_exp s)\<rparr>))"

definition pool_drained :: "manager \<Rightarrow> bool" where
  "pool_drained g \<longleftrightarrow> jq_container (mg_queue g) = [] \<and> list_all (\<lambda>stack. stack = []) (mg_threads g)"

text \<open>The thread in \<^verbatim>\<open>Scheduler::shutdown\<close>, after its locked section.\<close>

definition service_stop :: "file_system \<Rightarrow> scan_service \<Rightarrow> scan_service option" where
  "service_stop fs s =
     (case sv_pc s of
        Serving \<Rightarrow> None
      | Cancelling todo ids \<Rightarrow>
          (case todo of
             [] \<Rightarrow> Some (s\<lparr>sv_pc := Awaiting ids\<rparr>)
           | i # rest \<Rightarrow> map_option (\<lambda>t. t\<lparr>sv_pc := Cancelling rest ids\<rparr>) (service_manager fs (Cancel_scan i) s))
      | Awaiting ids \<Rightarrow>
          (case ids of
             [] \<Rightarrow> Some (s\<lparr>sv_pc := Stopping_pool\<rparr>)
           | i # rest \<Rightarrow>
               Some (s\<lparr>sv_pc := (if Manager_wait_done i (sv_mgr s) then Awaiting rest else Going_to_sleep ids)\<rparr>))
      | Going_to_sleep ids \<Rightarrow> Some (s\<lparr>sv_pc := Asleep_on ids\<rparr>)
      | Asleep_on ids \<Rightarrow> None
      | Stopping_pool \<Rightarrow> Some (s\<lparr>sv_mgr := Manager_shutdown_pool (sv_mgr s), sv_pc := Joining_pool\<rparr>)
      | Joining_pool \<Rightarrow> if pool_drained (sv_mgr s) then Some (s\<lparr>sv_pc := Closing_export\<rparr>) else None
      | Closing_export \<Rightarrow> Some (s\<lparr>sv_queue := fst (JobQueue_shutdown (sv_queue s)), sv_pc := Joining_export\<rparr>)
      | Joining_export \<Rightarrow> if ex_alive (sv_exp s) then None else Some (s\<lparr>sv_pc := Service_stopped\<rparr>)
      | Service_stopped \<Rightarrow> None)"

datatype service_move =
    Sv_manager manager_move
  | Sv_export
  | Sv_shutdown "u64 list"
  | Sv_stop
  | Sv_spurious

fun service_step ::
    "file_system \<Rightarrow> (int \<Rightarrow> string) \<Rightarrow> (string \<Rightarrow> string \<Rightarrow> bool) \<Rightarrow> service_move \<Rightarrow> scan_service
     \<Rightarrow> scan_service option" where
  "service_step fs message glob (Sv_manager m) s = (if m = Shutdown_pool then None else service_manager fs m s)"
| "service_step fs message glob Sv_export s = service_export message glob s"
| "service_step fs message glob (Sv_shutdown ids) s =
     (if sv_pc s = Serving then Some (s\<lparr>sv_pc := Cancelling ids ids\<rparr>) else None)"
| "service_step fs message glob Sv_stop s = service_stop fs s"
| "service_step fs message glob Sv_spurious s =
     (case sv_pc s of Asleep_on ids \<Rightarrow> Some (s\<lparr>sv_pc := Awaiting ids\<rparr>) | _ \<Rightarrow> None)"

subsection \<open>What the steps do to the results\<close>

lemma push_results_queue:
  "push_results es q = Some (q', r) \<Longrightarrow>
     jq_container q' @ r = jq_container q @ es \<and> jq_policy q' = jq_policy q \<and> jq_stop_flag q' = jq_stop_flag q
     \<and> (if jq_stop_flag q then jq_container q' = jq_container q \<and> r = es else r = [])"
proof (induction es arbitrary: q q' r)
  case (Cons e es)
  then obtain ok q1 g r' where q1: "JobQueue_push e q = Some (ok, q1, g)" "push_results es q1 = Some (q', r')"
      "r = (if ok then r' else e # r')"
    by (auto split: option.splits prod.splits)
  from q1(1) have "jq_policy q1 = jq_policy q" "jq_stop_flag q1 = jq_stop_flag q" "ok = (\<not> jq_stop_flag q)"
      "jq_container q1 = (if jq_stop_flag q then jq_container q else jq_container q @ [e])"
    by (auto simp: JobQueue_push_def jq_accepted_def split: if_splits)
  with Cons.IH [OF q1(2)] q1(3) show ?case by (auto split: if_splits)
qed auto

lemma results_grow: "manager_step fs m s = Some t \<Longrightarrow> \<exists>new. mg_results t = mg_results s @ new"
proof (cases m)
  case (Start_scan i r now)
  assume "manager_step fs m s = Some t"
  with Start_scan show ?thesis
    by (auto simp: Manager_start_new_scan_def Manager_pool_submit_def Manager_unregister_def Manager_job_tail_def
        ctx_add_def Let_def split: if_splits prod.splits submit_result.splits option.splits)
next
  case (Work k now)
  assume "manager_step fs m s = Some t"
  with Work have w: "Manager_work fs k now s = Some t" by simp
  then have k: "k < length (mg_threads s)" by (simp add: Manager_work_def split: if_splits)
  show ?thesis
  proof (cases "mg_threads s ! k")
    case Nil
    with w k show ?thesis by (auto simp: Manager_work_def split: option.splits prod.splits)
  next
    case (Cons f fr)
    obtain new s1 where st: "Manager_frame_step fs now f s = (new, s1)" by (cases "Manager_frame_step fs now f s")
    with Cons w k have "t = set_thread k (new @ fr) s1" by (simp add: Manager_work_def)
    moreover have "\<exists>new. mg_results s1 = mg_results s @ new"
      using st by (cases f) (auto simp: Manager_frame_step_def Manager_pool_submit_def Manager_unregister_def Let_def
          split: if_splits prod.splits submit_result.splits option.splits)
    ultimately show ?thesis by simp
  qed
qed (auto simp: Manager_cancel_scan_def Manager_shutdown_pool_def split: if_splits)

lemma insert_rows [simp]:
  "ex_alive (fold ExportManager_insert_scan_task rows x) = ex_alive x"
  "ex_finalizing (fold ExportManager_insert_scan_task rows x) = ex_finalizing x"
  "ex_exported (fold ExportManager_insert_scan_task rows x) = ex_exported x"
  "ex_db (fold ExportManager_insert_scan_task rows x) = ex_db x"
  "ex_notified (fold ExportManager_insert_scan_task rows x) = ex_notified x"
  by (induction rows arbitrary: x) (simp_all add: ExportManager_insert_scan_task_def)

lemma write_result_effect:
  assumes "ex_alive x" and "y = ExportManager_write_result message glob e x"
  shows "\<not> is_end e \<Longrightarrow> ex_alive y \<and> ex_finalizing y = ex_finalizing x \<and> ex_exported y = ex_exported x"
    and "is_end e \<Longrightarrow> (if map_of (ex_pending_rows x) (fe_scan_id e) = None
        then \<not> ex_alive y \<and> ex_finalizing y = ex_finalizing x + 1
        else ex_alive y \<and> ex_finalizing y = ex_finalizing x
          \<and> set (ex_exported y) = insert (fe_scan_id e) (set (ex_exported x)))"
  using assms by (auto simp: is_end_def export_defs Let_def split: option.splits)

subsection \<open>The invariant\<close>

definition flow_ok :: "scan_service \<Rightarrow> bool" where
  "flow_ok s \<longleftrightarrow> jq_policy (sv_queue s) = Fifo
     \<and> mg_results (sv_mgr s) = sv_taken s @ jq_container (sv_queue s) @ sv_refused s
     \<and> (sv_refused s \<noteq> [] \<longrightarrow> jq_stop_flag (sv_queue s))"

text \<open>The gauge of running finalisations tells whether the exporter has died in one.\<close>

definition export_ok :: "scan_service \<Rightarrow> bool" where
  "export_ok s \<longleftrightarrow> (ex_alive (sv_exp s) \<longrightarrow> ex_finalizing (sv_exp s) = 0)
     \<and> (ex_finalizing (sv_exp s) = 0 \<longrightarrow> (\<forall>e \<in> set (sv_taken s). is_end e \<longrightarrow> fe_scan_id e \<in> set (ex_exported (sv_exp s))))
     \<and> (\<not> ex_alive (sv_exp s) \<and> ex_finalizing (sv_exp s) = 0 \<longrightarrow>
          jq_stop_flag (sv_queue s) \<and> jq_container (sv_queue s) = [])"

fun pc_ok :: "shutdown_pc \<Rightarrow> scan_service \<Rightarrow> bool" where
  "pc_ok Joining_pool s \<longleftrightarrow> jq_stop_flag (mg_queue (sv_mgr s)) \<and> \<not> jq_stop_flag (sv_queue s)"
| "pc_ok Closing_export s \<longleftrightarrow> jq_stop_flag (mg_queue (sv_mgr s)) \<and> pool_drained (sv_mgr s) \<and> \<not> jq_stop_flag (sv_queue s)"
| "pc_ok Joining_export s \<longleftrightarrow> jq_stop_flag (mg_queue (sv_mgr s)) \<and> pool_drained (sv_mgr s) \<and> jq_stop_flag (sv_queue s)"
| "pc_ok Service_stopped s \<longleftrightarrow> jq_stop_flag (mg_queue (sv_mgr s)) \<and> pool_drained (sv_mgr s) \<and> jq_stop_flag (sv_queue s)
     \<and> \<not> ex_alive (sv_exp s)"
| "pc_ok pc s \<longleftrightarrow> \<not> jq_stop_flag (sv_queue s)"

definition accepted_ok :: "scan_service \<Rightarrow> bool" where
  "accepted_ok s \<longleftrightarrow> (\<forall>i \<in> set (sv_accepted s). mg_ctx (sv_mgr s) i \<noteq> None \<and> i \<notin> fe_scan_id ` set (sv_refused s))"

definition service_inv :: "scan_service \<Rightarrow> bool" where
  "service_inv s \<longleftrightarrow> manager_inv (sv_mgr s) \<and> flow_ok s \<and> export_ok s \<and> pc_ok (sv_pc s) s \<and> accepted_ok s"

lemma pc_ok_closed: "pc_ok pc s \<Longrightarrow> jq_stop_flag (sv_queue s) \<Longrightarrow>
    pool_drained (sv_mgr s) \<and> jq_stop_flag (mg_queue (sv_mgr s))"
  by (cases pc) auto

lemma drained_work:
  assumes "pool_drained g" shows "Manager_work fs k now g = None"
proof (cases "k < length (mg_threads g)")
  case True
  then have "mg_threads g ! k = []" using assms by (simp add: pool_drained_def list_all_length)
  moreover have "jq_container (mg_queue g) = []" using assms by (simp add: pool_drained_def)
  ultimately show ?thesis by (simp add: Manager_work_def JobQueue_pop_def)
qed (simp add: Manager_work_def)

lemma unregistered:
  assumes "manager_inv g" "mg_ctx g i = None" shows "map_of (mg_registry g) i = None"
proof -
  have "scan_ok i g" using assms(1) by (simp add: manager_inv_def)
  with assms(2) show ?thesis by (simp add: scan_ok_def phase_ok_def)
qed

text \<open>On a stopped and drained pool a move of the scan system is a refused start or a cancellation.\<close>

lemma drained_step:
  assumes "manager_inv g" "pool_drained g" "jq_stop_flag (mg_queue g)" "m \<noteq> Shutdown_pool" "manager_step fs m g = Some h"
  shows "pool_drained h \<and> jq_stop_flag (mg_queue h)
    \<and> (\<exists>new. mg_results h = mg_results g @ new \<and> (\<forall>e \<in> set new. is_end e \<and> mg_ctx g (fe_scan_id e) = None))"
proof (cases m)
  case (Start_scan i r now)
  with assms(5) have fresh: "mg_ctx g i = None" and h: "h = snd (Manager_start_new_scan i r now g)"
    by (auto split: if_splits)
  have stop: "jq_stop_flag (mg_queue h)" using assms(3) unfolding h by (simp add: start_stop)
  then show ?thesis
    by (cases rule: start_cases [OF unregistered [OF assms(1) fresh], of r now])
      (use assms(2) fresh in \<open>auto simp: pool_drained_def is_end_def sentinel_event_def simp flip: h\<close>)
next
  case (Cancel_scan i)
  with assms show ?thesis by (auto simp: Manager_cancel_scan_def pool_drained_def)
qed (use assms drained_work in auto)

lemma ctx_kept:
  assumes "manager_inv g" "manager_step fs m g = Some h" "mg_ctx g i \<noteq> None"
  shows "mg_ctx h i \<noteq> None"
proof (cases m)
  case (Start_scan j r now)
  with assms(2) have fresh: "mg_ctx g j = None" and h: "h = snd (Manager_start_new_scan j r now g)"
    by (auto split: if_splits)
  then have "i \<noteq> j" using assms(3) by auto
  then show ?thesis
    by (cases rule: start_cases [OF unregistered [OF assms(1) fresh], of r now]) (use assms(3) in \<open>simp_all flip: h\<close>)
next
  case (Cancel_scan j)
  with assms(2,3) show ?thesis by (auto simp: Manager_cancel_scan_def split: if_splits)
next
  case Shutdown_pool
  with assms(2,3) show ?thesis by (auto simp: Manager_shutdown_pool_def)
next
  case (Work k now)
  with assms(2) have w: "Manager_work fs k now g = Some h" by simp
  then have k: "k < length (mg_threads g)" by (simp add: Manager_work_def split: if_splits)
  show ?thesis
  proof (cases "mg_threads g ! k")
    case Nil
    with w k assms(3) show ?thesis by (auto simp: Manager_work_def split: option.splits prod.splits)
  next
    case (Cons f fr)
    obtain new s1 where st: "Manager_frame_step fs now f g = (new, s1)" by (cases "Manager_frame_step fs now f g")
    with Cons w k have "h = set_thread k (new @ fr) s1" by (simp add: Manager_work_def)
    moreover have "(mg_ctx s1 i = None) = (mg_ctx g i = None)"
      using st by (cases f; auto simp: manager_defs ctx_add_def Let_def
        split: if_splits prod.splits submit_result.splits option.splits)
    ultimately show ?thesis using assms(3) by simp
  qed
qed

subsection \<open>Every move keeps the invariant\<close>

lemma service_manager_cases:
  assumes "service_manager fs m s = Some t"
  obtains g new where "manager_step fs m (sv_mgr s) = Some g" "mg_results g = mg_results (sv_mgr s) @ new"
    "sv_mgr t = g" "jq_container (sv_queue t) @ drop (length (sv_refused s)) (sv_refused t) = jq_container (sv_queue s) @ new"
    "sv_refused t = sv_refused s @ drop (length (sv_refused s)) (sv_refused t)"
    "jq_policy (sv_queue t) = jq_policy (sv_queue s)" "jq_stop_flag (sv_queue t) = jq_stop_flag (sv_queue s)"
    "if jq_stop_flag (sv_queue s) then jq_container (sv_queue t) = jq_container (sv_queue s)
        \<and> drop (length (sv_refused s)) (sv_refused t) = new else sv_refused t = sv_refused s"
    "sv_taken t = sv_taken s" "ex_alive (sv_exp t) = ex_alive (sv_exp s)"
    "ex_finalizing (sv_exp t) = ex_finalizing (sv_exp s)" "ex_exported (sv_exp t) = ex_exported (sv_exp s)"
    "sv_accepted t = sv_accepted s @ newly_accepted m (sv_mgr s)"
    "sv_pc t = sv_pc s \<or> sv_pc t = wake_up (sv_pc s)"
proof -
  obtain g q r where g: "manager_step fs m (sv_mgr s) = Some g"
      "push_results (drop (length (mg_results (sv_mgr s))) (mg_results g)) (sv_queue s) = Some (q, r)"
      "t = s\<lparr>sv_mgr := g, sv_queue := q, sv_refused := sv_refused s @ r,
         sv_exp := fold ExportManager_insert_scan_task (drop (length (mg_rows (sv_mgr s))) (mg_rows g)) (sv_exp s),
         sv_accepted := sv_accepted s @ newly_accepted m (sv_mgr s),
         sv_pc := (if manager_notifies m (sv_mgr s) then wake_up (sv_pc s) else sv_pc s)\<rparr>"
    using assms by (auto simp: service_manager_def split: option.splits prod.splits)
  obtain new where new: "mg_results g = mg_results (sv_mgr s) @ new" using results_grow [OF g(1)] by blast
  with push_results_queue [OF g(2)] g(1,3) show ?thesis by (intro that [of g new]) auto
qed

lemma service_manager_pc: "service_manager fs m s = Some t \<Longrightarrow> sv_pc t = sv_pc s \<or> sv_pc t = wake_up (sv_pc s)"
  by (auto simp: service_manager_def split: option.splits prod.splits)

lemma frame_stop: "Manager_frame_step fs now f s = (new, t) \<Longrightarrow> jq_stop_flag (mg_queue t) = jq_stop_flag (mg_queue s)"
  by (cases f) (auto simp: Manager_frame_step_def Manager_pool_submit_def Manager_unregister_def JobQueue_try_push_def
      jq_rejected_def jq_accepted_def Let_def split: if_splits prod.splits submit_result.splits option.splits)

lemma stop_kept:
  assumes "manager_step fs m g = Some h" "jq_stop_flag (mg_queue g)"
  shows "jq_stop_flag (mg_queue h)"
proof (cases m)
  case (Work k now)
  with assms(1) have w: "Manager_work fs k now g = Some h" by simp
  then have k: "k < length (mg_threads g)" by (simp add: Manager_work_def split: if_splits)
  show ?thesis
  proof (cases "mg_threads g ! k")
    case Nil
    with w k obtain d q x where "JobQueue_pop (mg_queue g) = Some (Some d, q, x)" "h = set_thread k [Begin d] (g\<lparr>mg_queue := q\<rparr>)"
      by (auto simp: Manager_work_def split: option.splits prod.splits)
    with pop_container(3) assms(2) show ?thesis by auto
  next
    case (Cons f fr)
    obtain new s1 where st: "Manager_frame_step fs now f g = (new, s1)" by (cases "Manager_frame_step fs now f g")
    with Cons w k have "h = set_thread k (new @ fr) s1" by (simp add: Manager_work_def)
    with frame_stop [OF st] assms(2) show ?thesis by simp
  qed
next
  case (Start_scan i r now)
  with assms start_stop show ?thesis by (auto split: if_splits)
qed (use assms in \<open>auto simp: Manager_cancel_scan_def Manager_shutdown_pool_def JobQueue_shutdown_def\<close>)

lemma newly_fresh:
  assumes "manager_inv g" "manager_step fs m g = Some h" "i \<in> set (newly_accepted m g)"
  shows "mg_ctx h i \<noteq> None" "\<not> jq_stop_flag (mg_queue g)"
proof -
  obtain r now where m: "m = Start_scan i r now" and acc: "fst (Manager_start_new_scan i r now g) = (True, False)"
    using assms(3) by (auto simp: newly_accepted_def split: manager_move.splits if_splits)
  then have fresh: "mg_ctx g i = None" and h: "h = snd (Manager_start_new_scan i r now g)"
    using assms(2) by (auto split: if_splits)
  have "mg_ctx h i \<noteq> None \<and> \<not> jq_stop_flag (mg_queue h)"
    by (cases rule: start_cases [OF unregistered [OF assms(1) fresh], of r now])
      (use acc in \<open>simp_all flip: h\<close>)
  then show "mg_ctx h i \<noteq> None" "\<not> jq_stop_flag (mg_queue g)" unfolding h start_stop by simp_all
qed

lemma pc_ok_wake: "pc_ok pc s \<Longrightarrow> pc_ok (wake_up pc) s"
  by (cases pc) (simp_all add: wake_up_def)

lemma inv_manager_move:
  assumes inv: "service_inv s" and m: "m \<noteq> Shutdown_pool" and t: "service_manager fs m s = Some t"
  shows "service_inv t"
proof (rule service_manager_cases [OF t])
  fix g new
  let ?r = "drop (length (sv_refused s)) (sv_refused t)"
  assume g: "manager_step fs m (sv_mgr s) = Some g" and new: "mg_results g = mg_results (sv_mgr s) @ new" and tg: "sv_mgr t = g"
    and q: "jq_container (sv_queue t) @ ?r = jq_container (sv_queue s) @ new" "sv_refused t = sv_refused s @ ?r"
      "jq_policy (sv_queue t) = jq_policy (sv_queue s)" "jq_stop_flag (sv_queue t) = jq_stop_flag (sv_queue s)"
      "if jq_stop_flag (sv_queue s) then jq_container (sv_queue t) = jq_container (sv_queue s) \<and> ?r = new
       else sv_refused t = sv_refused s"
    and e: "sv_taken t = sv_taken s" "ex_alive (sv_exp t) = ex_alive (sv_exp s)"
      "ex_finalizing (sv_exp t) = ex_finalizing (sv_exp s)" "ex_exported (sv_exp t) = ex_exported (sv_exp s)"
    and acc: "sv_accepted t = sv_accepted s @ newly_accepted m (sv_mgr s)"
    and pc: "sv_pc t = sv_pc s \<or> sv_pc t = wake_up (sv_pc s)"
  have mi: "manager_inv (sv_mgr s)" and fl: "flow_ok s" and pk: "pc_ok (sv_pc s) s" and ak: "accepted_ok s"
    using inv by (simp_all add: service_inv_def)
  have dr: "pool_drained g \<and> jq_stop_flag (mg_queue g) \<and> (\<forall>e \<in> set new. is_end e \<and> mg_ctx (sv_mgr s) (fe_scan_id e) = None)"
    if "pool_drained (sv_mgr s)" "jq_stop_flag (mg_queue (sv_mgr s))"
    using drained_step [OF mi that m g] new by auto
  have "flow_ok t" using fl new tg q e(1) by (auto simp: flow_ok_def split: if_splits)
  moreover have "export_ok t" using inv q e by (auto simp: service_inv_def export_ok_def)
  moreover have "pc_ok (sv_pc s) t"
    using pk dr q(4) e(2) stop_kept [OF g] by (cases "sv_pc s") (auto simp: tg)
  then have "pc_ok (sv_pc t) t" using pc pc_ok_wake by auto
  moreover have "accepted_ok t"
    unfolding accepted_ok_def
  proof (intro ballI)
    fix i assume i: "i \<in> set (sv_accepted t)"
    show "mg_ctx (sv_mgr t) i \<noteq> None \<and> i \<notin> fe_scan_id ` set (sv_refused t)"
    proof (cases "jq_stop_flag (sv_queue s)")
      case True
      then have r: "sv_refused t = sv_refused s @ new" using q(2,5) by simp
      have "i \<in> set (sv_accepted s)" using i acc newly_fresh(2) [OF mi g] pc_ok_closed [OF pk True] by auto
      then have "mg_ctx (sv_mgr s) i \<noteq> None" "i \<notin> fe_scan_id ` set (sv_refused s)" using ak by (auto simp: accepted_ok_def)
      with r ctx_kept [OF mi g] dr pc_ok_closed [OF pk True] tg show ?thesis by auto
    next
      case False
      then have "sv_refused t = []" using q(5) fl by (auto simp: flow_ok_def)
      moreover have "mg_ctx g i \<noteq> None" using i acc newly_fresh(1) [OF mi g] ctx_kept [OF mi g] ak by (auto simp: accepted_ok_def)
      ultimately show ?thesis using tg by simp
    qed
  qed
  ultimately show ?thesis using manager_inv_step [OF mi g] tg by (simp add: service_inv_def)
qed

lemma inv_export:
  assumes inv: "service_inv s" and t: "service_export message glob s = Some t"
  shows "service_inv t"
proof -
  have alive: "ex_alive (sv_exp s)" using t by (auto simp: service_export_def split: if_splits)
  have fl: "flow_ok s" and ek: "export_ok s" and pk: "pc_ok (sv_pc s) s" using inv by (simp_all add: service_inv_def)
  have z: "ex_finalizing (sv_exp s) = 0" using ek alive by (simp add: export_ok_def)
  show ?thesis
  proof (cases "jq_container (sv_queue s)")
    case Nil
    then have c: "jq_stop_flag (sv_queue s)" "t = s\<lparr>sv_exp := ExportManager_close (sv_exp s)\<rparr>"
      using t alive by (auto simp: service_export_def JobQueue_pop_def split: if_splits)
    then show ?thesis
      using inv Nil pk by (cases "sv_pc s")
        (auto simp: service_inv_def flow_ok_def export_ok_def accepted_ok_def ExportManager_close_def
          ExportManager_commit_batch_def z)
  next
    case (Cons e es)
    let ?x = "ExportManager_write_result message glob e (sv_exp s)"
    have c: "t = s\<lparr>sv_queue := jq_taken es (sv_queue s), sv_taken := sv_taken s @ [e], sv_exp := ?x\<rparr>"
      using t alive Cons fl by (auto simp: service_export_def JobQueue_pop_def flow_ok_def)
    have "export_ok t"
    proof (cases "is_end e")
      case True
      from write_result_effect(2) [OF alive refl True, of message glob] ek show ?thesis
        by (auto simp: c export_ok_def alive z split: if_splits)
    next
      case False
      from write_result_effect(1) [OF alive refl False, of message glob] ek False show ?thesis
        by (auto simp: c export_ok_def alive z)
    qed
    moreover have "pc_ok (sv_pc s) t" using pk alive by (cases "sv_pc s") (simp_all add: c jq_taken_def)
    ultimately show ?thesis
      using inv Cons by (simp add: c service_inv_def flow_ok_def accepted_ok_def jq_taken_def)
  qed
qed

lemma inv_pc:
  "service_inv (s\<lparr>sv_pc := pc\<rparr>) \<longleftrightarrow> manager_inv (sv_mgr s) \<and> flow_ok s \<and> export_ok s \<and> pc_ok pc s \<and> accepted_ok s"
  by (cases pc) (simp_all add: service_inv_def flow_ok_def export_ok_def accepted_ok_def)

lemma inv_stop:
  assumes inv: "service_inv s" and t: "service_stop fs s = Some t"
  shows "service_inv t"
proof (cases "sv_pc s")
  case (Cancelling todo ids)
  show ?thesis
  proof (cases todo)
    case Nil
    with Cancelling t have "t = s\<lparr>sv_pc := Awaiting ids\<rparr>" by (simp add: service_stop_def)
    with inv Cancelling show ?thesis by (simp add: inv_pc) (simp add: service_inv_def)
  next
    case (Cons i rest)
    with Cancelling t obtain u where u: "service_manager fs (Cancel_scan i) s = Some u"
        "t = u\<lparr>sv_pc := Cancelling rest ids\<rparr>"
      by (auto simp: service_stop_def)
    have iu: "service_inv u" by (rule inv_manager_move [OF inv _ u(1)]) simp
    moreover have "sv_pc u = Cancelling todo ids"
      using service_manager_pc [OF u(1)] Cancelling by (simp add: wake_up_def)
    ultimately show ?thesis unfolding u(2) inv_pc by (simp add: service_inv_def)
  qed
next
  case (Awaiting ids)
  with t obtain pc where "t = s\<lparr>sv_pc := pc\<rparr>" "pc_ok pc s \<longleftrightarrow> pc_ok (Awaiting ids) s"
    by (auto simp: service_stop_def split: list.splits)
  with inv Awaiting show ?thesis by (simp add: inv_pc) (simp add: service_inv_def)
next
  case (Going_to_sleep ids)
  with t have "t = s\<lparr>sv_pc := Asleep_on ids\<rparr>" by (simp add: service_stop_def)
  with inv Going_to_sleep show ?thesis by (simp add: inv_pc) (simp add: service_inv_def)
next
  case Stopping_pool
  with t have "t = (s\<lparr>sv_mgr := Manager_shutdown_pool (sv_mgr s)\<rparr>)\<lparr>sv_pc := Joining_pool\<rparr>"
    by (simp add: service_stop_def)
  moreover have "flow_ok (s\<lparr>sv_mgr := Manager_shutdown_pool (sv_mgr s)\<rparr>) = flow_ok s"
      "export_ok (s\<lparr>sv_mgr := Manager_shutdown_pool (sv_mgr s)\<rparr>) = export_ok s"
      "accepted_ok (s\<lparr>sv_mgr := Manager_shutdown_pool (sv_mgr s)\<rparr>) = accepted_ok s"
    by (simp_all add: flow_ok_def export_ok_def accepted_ok_def Manager_shutdown_pool_def)
  ultimately show ?thesis
    using inv Stopping_pool manager_inv_shutdown [of "sv_mgr s"]
    by (simp add: inv_pc) (simp add: service_inv_def Manager_shutdown_pool_def JobQueue_shutdown_def)
next
  case Joining_pool
  with t have "t = s\<lparr>sv_pc := Closing_export\<rparr>" "pool_drained (sv_mgr s)" by (auto simp: service_stop_def split: if_splits)
  with inv Joining_pool show ?thesis by (simp add: inv_pc) (simp add: service_inv_def)
next
  case Closing_export
  with t have "t = (s\<lparr>sv_queue := fst (JobQueue_shutdown (sv_queue s))\<rparr>)\<lparr>sv_pc := Joining_export\<rparr>"
    by (simp add: service_stop_def)
  with inv Closing_export show ?thesis
    by (simp add: inv_pc) (auto simp: service_inv_def flow_ok_def export_ok_def accepted_ok_def JobQueue_shutdown_def)
next
  case Joining_export
  with t have "t = s\<lparr>sv_pc := Service_stopped\<rparr>" "\<not> ex_alive (sv_exp s)" by (auto simp: service_stop_def split: if_splits)
  with inv Joining_export show ?thesis by (simp add: inv_pc) (simp add: service_inv_def)
qed (use t in \<open>simp_all add: service_stop_def\<close>)

lemma service_inv_step:
  assumes "service_inv s" "service_step fs message glob m s = Some t" shows "service_inv t"
proof (cases m)
  case (Sv_manager mm)
  with assms inv_manager_move show ?thesis by (auto split: if_splits)
next
  case Sv_export
  with assms inv_export show ?thesis by auto
next
  case (Sv_shutdown ids)
  with assms(2) have "t = s\<lparr>sv_pc := Cancelling ids ids\<rparr>" "sv_pc s = Serving" by (auto split: if_splits)
  with assms(1) show ?thesis by (simp add: inv_pc) (simp add: service_inv_def)
next
  case Sv_stop
  with assms inv_stop show ?thesis by auto
next
  case Sv_spurious
  with assms(2) obtain ids where "t = s\<lparr>sv_pc := Awaiting ids\<rparr>" "sv_pc s = Asleep_on ids" by (auto split: shutdown_pc.splits)
  with assms(1) show ?thesis by (simp add: inv_pc) (simp add: service_inv_def)
qed

interpretation service: invariant "service_step fs message glob" service_inv for fs message glob
  by unfold_locales (rule service_inv_step)

lemma service_inv_init:
  "manager_inv g \<Longrightarrow> mg_results g = [] \<Longrightarrow> ex_alive x \<Longrightarrow> ex_finalizing x = 0 \<Longrightarrow> service_inv (service_init g n metrics x)"
  by (simp add: service_inv_def flow_ok_def export_ok_def accepted_ok_def service_init_def JobQueue_init_def)

lemma drained_closed:
  assumes "manager_inv g" "pool_drained g" "mg_ctx g i \<noteq> None" "i \<noteq> 0"
  obtains root c where "sentinel_event i root c \<in> set (mg_results g)"
proof -
  have "outstanding i g = 0" "closing i g = 0"
    using assms(2) by (auto simp: pool_drained_def outstanding_def closing_def thread_sum_def list_all_iff intro!: sum_list_all_zero)
  moreover have "scan_ok i g" using assms(1) by (simp add: manager_inv_def)
  ultimately have "closed_results i (results_of i g)"
    using assms(3) by (auto simp: scan_ok_def phase_ok_def)
  then obtain es root c where "results_of i g = es @ [sentinel_event i root c]"
    using assms(4) by (auto simp: closed_results_def)
  then have "sentinel_event i root c \<in> set (results_of i g)" by simp
  then show ?thesis by (intro that [of root c]) (simp add: results_of_def)
qed


subsection \<open>The shutdown comes to an end\<close>

text \<open>The moves of the service itself: workers, exporter, the thread in \<^verbatim>\<open>shutdown\<close>.\<close>

fun internal :: "service_move \<Rightarrow> bool" where
  "internal (Sv_manager (Work k now)) = True"
| "internal Sv_export = True"
| "internal Sv_stop = True"
| "internal _ = False"

definition internal_step ::
    "file_system \<Rightarrow> (int \<Rightarrow> string) \<Rightarrow> (string \<Rightarrow> string \<Rightarrow> bool) \<Rightarrow> service_move \<Rightarrow> scan_service
     \<Rightarrow> scan_service option" where
  "internal_step fs message glob m s = (if internal m then service_step fs message glob m s else None)"

fun pc_rank :: "shutdown_pc \<Rightarrow> nat" where
  "pc_rank Serving = 0"
| "pc_rank (Cancelling todo ids) = 3 * length ids + 7 + length todo"
| "pc_rank (Awaiting ids) = 3 * length ids + 6"
| "pc_rank (Going_to_sleep ids) = 3 * length ids + 5"
| "pc_rank (Asleep_on ids) = 3 * length ids + 4"
| "pc_rank Stopping_pool = 4"
| "pc_rank Joining_pool = 3"
| "pc_rank Closing_export = 2"
| "pc_rank Joining_export = 1"
| "pc_rank Service_stopped = 0"

definition service_left :: "file_system \<Rightarrow> nat \<Rightarrow> scan_service \<Rightarrow> nat" where
  "service_left fs n s = 4 * steps_left fs n (sv_mgr s) + length (jq_container (sv_queue s)) + pc_rank (sv_pc s)
     + of_bool (ex_alive (sv_exp s))"

lemma rank_wake: "pc_rank (wake_up pc) \<le> pc_rank pc + 2"
  by (cases pc) (simp_all add: wake_up_def)

lemma work_one_result:
  assumes "Manager_work fs k now g = Some h" shows "length (mg_results h) \<le> Suc (length (mg_results g))"
proof -
  have k: "k < length (mg_threads g)" using assms by (simp add: Manager_work_def split: if_splits)
  show ?thesis
  proof (cases "mg_threads g ! k")
    case Nil
    with assms k show ?thesis by (auto simp: Manager_work_def split: option.splits prod.splits)
  next
    case (Cons f fr)
    obtain new s1 where st: "Manager_frame_step fs now f g = (new, s1)" by (cases "Manager_frame_step fs now f g")
    then have "length (mg_results s1) \<le> Suc (length (mg_results g))"
      by (cases f) (auto simp: Manager_frame_step_def Manager_pool_submit_def Manager_unregister_def Let_def
          split: if_splits prod.splits submit_result.splits option.splits)
    with Cons assms k st show ?thesis by (auto simp: Manager_work_def)
  qed
qed

lemma service_work_less:
  assumes dep: "\<And>d. depth_ok fs n d" and t: "service_manager fs (Work k now) s = Some t"
  shows "service_left fs n t < service_left fs n s"
proof (rule service_manager_cases [OF t])
  fix g new
  let ?r = "drop (length (sv_refused s)) (sv_refused t)"
  assume g: "manager_step fs (Work k now) (sv_mgr s) = Some g" and new: "mg_results g = mg_results (sv_mgr s) @ new"
    and tg: "sv_mgr t = g" and q: "jq_container (sv_queue t) @ ?r = jq_container (sv_queue s) @ new"
    and e: "ex_alive (sv_exp t) = ex_alive (sv_exp s)" and pc: "sv_pc t = sv_pc s \<or> sv_pc t = wake_up (sv_pc s)"
  have "steps_left fs n g < steps_left fs n (sv_mgr s)"
    using worker_step_decreases [OF dep, of "(k, now)" "sv_mgr s" g] g by (simp add: worker_step_def)
  moreover have "length new \<le> 1" using work_one_result [of fs k now "sv_mgr s" g] g new by simp
  then have "length (jq_container (sv_queue t)) \<le> length (jq_container (sv_queue s)) + 1"
    using arg_cong [OF q, of length] by simp
  moreover have "pc_rank (sv_pc t) \<le> pc_rank (sv_pc s) + 2" using pc rank_wake [of "sv_pc s"] by auto
  ultimately show ?thesis using tg e by (simp add: service_left_def)
qed

lemma service_export_less:
  assumes "service_export message glob s = Some t" shows "service_left fs n t < service_left fs n s"
proof -
  have "ex_alive (sv_exp s)" using assms by (auto simp: service_export_def split: if_splits)
  with assms show ?thesis
    by (auto simp: service_export_def service_left_def JobQueue_pop_def jq_taken_def ExportManager_close_def
        split: if_splits queue_type.splits)
qed

lemma cancel_same:
  assumes "service_manager fs (Cancel_scan i) s = Some t"
  shows "steps_left fs n (sv_mgr t) = steps_left fs n (sv_mgr s)" "sv_queue t = sv_queue s"
    "ex_alive (sv_exp t) = ex_alive (sv_exp s)"
  using assms by (auto simp: service_manager_def Manager_cancel_scan_def steps_left_def thread_sum_def split: if_splits)

lemma service_stop_less:
  assumes "service_stop fs s = Some t" shows "service_left fs n t < service_left fs n s"
proof (cases "sv_pc s")
  case (Cancelling todo ids)
  with assms cancel_same [of fs _ s] show ?thesis
    by (auto simp: service_stop_def service_left_def split: list.splits)
qed (use assms in \<open>auto simp: service_stop_def service_left_def Manager_shutdown_pool_def JobQueue_shutdown_def
      steps_left_def thread_sum_def split: list.splits if_splits\<close>)

lemma internal_variant:
  assumes "\<And>d. depth_ok fs n d"
  shows "variant (internal_step fs message glob) (\<lambda>s. True) (service_left fs n)"
proof (unfold_locales, simp)
  fix m s t assume "internal_step fs message glob m s = Some t"
  then show "service_left fs n t < service_left fs n s"
    using service_work_less [OF assms] service_export_less service_stop_less
    by (cases m rule: internal.cases) (auto simp: internal_step_def split: if_splits)
qed

text \<open>How it ends.\<close>

definition shutdown_outcome :: "scan_service \<Rightarrow> bool" where
  "shutdown_outcome s \<longleftrightarrow> sv_pc s = Service_stopped
     \<or> (\<exists>ids. sv_pc s = Asleep_on ids \<and> list_all (\<lambda>i. Manager_wait_done i (sv_mgr s)) ids)
     \<or> (\<not> ex_alive (sv_exp s) \<and> ex_finalizing (sv_exp s) \<noteq> 0)"

definition sized :: "nat \<Rightarrow> nat \<Rightarrow> scan_service \<Rightarrow> bool" where
  "sized c k s \<longleftrightarrow> QUEUE_SIZE (sv_queue s) = c \<and> length (mg_threads (sv_mgr s)) = k"

lemma threads_length: "manager_step fs m g = Some h \<Longrightarrow> length (mg_threads h) = length (mg_threads g)"
proof (cases m)
  case (Work k now)
  assume "manager_step fs m g = Some h"
  with Work have w: "Manager_work fs k now g = Some h" by simp
  then have k: "k < length (mg_threads g)" by (simp add: Manager_work_def split: if_splits)
  show ?thesis
    using w k frame_step_threads
    by (cases "mg_threads g ! k") (auto simp: Manager_work_def split: option.splits prod.splits)
qed (auto simp: Manager_start_new_scan_def Manager_pool_submit_def Manager_unregister_def Manager_job_tail_def ctx_add_def
      Manager_cancel_scan_def Manager_shutdown_pool_def Let_def split: if_splits prod.splits submit_result.splits option.splits)

lemma push_size: "push_results es q = Some (q', r) \<Longrightarrow> QUEUE_SIZE q' = QUEUE_SIZE q"
proof (induction es arbitrary: q q' r)
  case (Cons e es)
  then obtain ok q1 g r' where q1: "JobQueue_push e q = Some (ok, q1, g)" "push_results es q1 = Some (q', r')"
    by (auto split: option.splits prod.splits)
  then have "QUEUE_SIZE q1 = QUEUE_SIZE q" by (auto simp: JobQueue_push_def jq_accepted_def split: if_splits)
  with Cons.IH [OF q1(2)] show ?case by simp
qed simp

lemma sized_manager: "service_manager fs m s = Some t \<Longrightarrow> sized c k s \<Longrightarrow> sized c k t"
  using threads_length push_size by (fastforce simp: service_manager_def sized_def split: option.splits prod.splits)

lemma sized_step:
  assumes "service_step fs message glob m s = Some t" "sized c k s" shows "sized c k t"
proof (cases m)
  case (Sv_manager mm)
  with assms sized_manager show ?thesis by (auto split: if_splits)
next
  case Sv_export
  with assms show ?thesis
    by (auto simp: service_export_def JobQueue_pop_def jq_taken_def sized_def split: if_splits queue_type.splits)
next
  case Sv_stop
  have "sized c k u" if "service_manager fs (Cancel_scan i) s = Some u" for u i using sized_manager [OF that assms(2)] .
  with Sv_stop assms show ?thesis
    by (auto simp: service_stop_def sized_def Manager_shutdown_pool_def JobQueue_shutdown_def
        split: shutdown_pc.splits list.splits if_splits)
qed (use assms in \<open>auto simp: sized_def split: if_splits shutdown_pc.splits\<close>)

lemma not_serving:
  assumes "internal_step fs message glob m s = Some t" "sv_pc s \<noteq> Serving" shows "sv_pc t \<noteq> Serving"
proof -
  have "wake_up pc \<noteq> Serving" if "pc \<noteq> Serving" for pc using that by (cases pc) (simp_all add: wake_up_def)
  with assms service_manager_pc show ?thesis
    by (cases m rule: internal.cases)
      (auto simp: internal_step_def service_export_def service_stop_def
        split: if_splits option.splits prod.splits shutdown_pc.splits list.splits, metis+)
qed

interpretation sized_service: invariant "service_step fs message glob" "\<lambda>s. service_inv s \<and> sized c k s"
  for fs message glob c k
  by unfold_locales (blast intro: service_inv_step sized_step)

interpretation stopping: invariant "internal_step fs message glob" "\<lambda>s. service_inv s \<and> sized c k s \<and> sv_pc s \<noteq> Serving"
  for fs message glob c k
proof
  fix s m t
  assume s: "service_inv s \<and> sized c k s \<and> sv_pc s \<noteq> Serving" and t: "internal_step fs message glob m s = Some t"
  then have "service_step fs message glob m s = Some t" by (auto simp: internal_step_def split: if_splits)
  with s not_serving [OF t] show "service_inv t \<and> sized c k t \<and> sv_pc t \<noteq> Serving"
    using service_inv_step sized_step by blast
qed

lemma drained_done:
  assumes "manager_inv g" "pool_drained g" shows "Manager_wait_done i g"
proof -
  have "outstanding i g = 0" "closing i g = 0"
    using assms(2) by (auto simp: pool_drained_def outstanding_def closing_def thread_sum_def list_all_iff intro!: sum_list_all_zero)
  moreover have "scan_ok i g" using assms(1) by (simp add: manager_inv_def)
  ultimately show ?thesis
    by (auto simp: scan_ok_def phase_ok_def Manager_wait_done_def split: option.splits)
qed

text \<open>With an empty result queue a worker that has something to do can do it.\<close>

lemma blocked_drained:
  assumes none: "\<forall>k now. service_manager fs (Work k now) s = None" and q: "jq_container (sv_queue s) = []" "0 < QUEUE_SIZE (sv_queue s)"
    and k: "mg_threads (sv_mgr s) \<noteq> []"
  shows "pool_drained (sv_mgr s)"
proof -
  have "worker_step fs m (sv_mgr s) = None" for m
  proof (rule ccontr)
    assume "worker_step fs m (sv_mgr s) \<noteq> None"
    then obtain g where g: "Manager_work fs (fst m) (snd m) (sv_mgr s) = Some g" by (auto simp: worker_step_def)
    let ?new = "drop (length (mg_results (sv_mgr s))) (mg_results g)"
    have "length ?new \<le> 1" using work_one_result [OF g] by simp
    then have "push_results ?new (sv_queue s) \<noteq> None"
      using q by (cases ?new) (auto simp: JobQueue_push_def)
    with g have "service_manager fs (Work (fst m) (snd m)) s \<noteq> None"
      by (auto simp: service_manager_def)
    then show False using none [rule_format, of "fst m" "snd m"] by simp
  qed
  then show ?thesis using idle_end [of fs "sv_mgr s"] k by (simp add: pool_drained_def list_all_iff)
qed

lemma internal_end:
  assumes none: "\<forall>m. internal_step fs message glob m s = None" and inv: "service_inv s" "sized c k s" "0 < c" "0 < k"
    and pc: "sv_pc s \<noteq> Serving"
  shows "shutdown_outcome s"
proof (cases "ex_alive (sv_exp s)")
  case True
  have "service_export message glob s = None" and stop: "service_stop fs s = None"
    and work: "\<forall>k now. service_manager fs (Work k now) s = None"
    using none [rule_format, of Sv_export] none [rule_format, of Sv_stop] none [rule_format, of "Sv_manager (Work _ _)"]
    by (auto simp: internal_step_def)
  then have q: "jq_container (sv_queue s) = []" "\<not> jq_stop_flag (sv_queue s)"
    using True by (auto simp: service_export_def JobQueue_pop_def split: if_splits queue_type.splits)
  have d: "pool_drained (sv_mgr s)"
    using blocked_drained [OF work q(1)] inv(2-4) by (auto simp: sized_def)
  have finished: "list_all (\<lambda>i. Manager_wait_done i (sv_mgr s)) ids" for ids
    using drained_done [OF _ d] inv(1) by (simp add: service_inv_def list_all_iff)
  have cancel: "service_manager fs (Cancel_scan i) s \<noteq> None" for i
    by (simp add: service_manager_def Manager_cancel_scan_def)
  have "pc_ok (sv_pc s) s" using inv(1) by (simp add: service_inv_def)
  then show ?thesis
    using stop d finished pc q(2) True cancel
    by (cases "sv_pc s") (auto simp del: not_None_eq simp: service_stop_def shutdown_outcome_def split: list.splits if_splits)
next
  case False
  show ?thesis
  proof (cases "ex_finalizing (sv_exp s) = 0")
    case True
    with False inv(1) have "jq_stop_flag (sv_queue s)" "pc_ok (sv_pc s) s"
      by (simp_all add: service_inv_def export_ok_def)
    then have "sv_pc s = Joining_export \<or> sv_pc s = Service_stopped" by (cases "sv_pc s") auto
    then show ?thesis
      using none [rule_format, of Sv_stop] False by (auto simp: internal_step_def service_stop_def shutdown_outcome_def)
  qed (use False in \<open>simp add: shutdown_outcome_def\<close>)
qed


subsection \<open>Runs\<close>

text \<open>The scan of one file; the shutdown comes while its job is queued.\<close>

definition demo_service :: scan_service where
  "demo_service = service_init demo_start 4 zero_metrics (ExportManager_init 1 empty_db)"

definition demo_work :: "nat \<Rightarrow> service_move list" where
  "demo_work n = replicate n (Sv_manager (Work 0 50))"

lemma demo_reach:
  "run (service_step fs message glob) ms demo_service = Some s \<Longrightarrow> reach (service_step fs message glob)
     (service_init (Manager_init 1 8 1 zero_metrics) 4 zero_metrics (ExportManager_init 1 empty_db)) s"
  unfolding demo_service_def demo_start_def by (rule run_reach_start)

text \<open>The thread in \<^verbatim>\<open>wait_to_finish\<close> reads the counter, the worker then ends the scan, and the notification
  goes to no one.\<close>

definition lost_moves :: "service_move list" where
  "lost_moves = Sv_manager (Start_scan 1 ''/r/a'' 40) # demo_work 3 @ Sv_shutdown [1] # replicate 3 Sv_stop
     @ demo_work 5 @ [Sv_stop, Sv_export, Sv_export]"

definition stop_moves :: "service_move list" where
  "stop_moves = lost_moves @ Sv_spurious # replicate 5 Sv_stop @ [Sv_export, Sv_stop]"

lemmas demo_service_eval = lost_moves_def demo_work_def demo_service_def service_init_def service_manager_def
  manager_notifies_def wake_up_def newly_accepted_def service_stop_def pool_drained_def Manager_wait_done_def
  ExportManager_init_def numeral_eq_Suc demo_step_eval

lemmas demo_export_eval = service_export_def JobQueue_pop_def jq_op_defs export_defs ExportManager_close_def
  IndexWriter_mark_deleted_def sentinel_event_def empty_db_def

lemma lost_run:
  "\<exists>s. run (service_step demo_fs message glob) lost_moves demo_service = Some s \<and> sv_pc s = Asleep_on [1]
     \<and> Manager_wait_done 1 (sv_mgr s) \<and> ex_exported (sv_exp s) = [1] \<and> ex_alive (sv_exp s)
     \<and> mg_threads (sv_mgr s) = [[]] \<and> jq_container (mg_queue (sv_mgr s)) = []
     \<and> \<not> jq_stop_flag (mg_queue (sv_mgr s)) \<and> jq_container (sv_queue s) = [] \<and> \<not> jq_stop_flag (sv_queue s)
     \<and> sv_accepted s = [1] \<and> length (mg_results (sv_mgr s)) = 2 \<and> ex_finalizing (sv_exp s) = 0"
  by (simp add: demo_service_eval demo_export_eval Sentinel_init_def)

text \<open>A thread asleep in \<^verbatim>\<open>wait_to_finish\<close> beside idle workers and an empty result queue stays asleep.\<close>

lemma asleep_forever:
  assumes "sv_pc s = Asleep_on ids" "mg_threads (sv_mgr s) = [[]]" "jq_container (mg_queue (sv_mgr s)) = []"
    "\<not> jq_stop_flag (mg_queue (sv_mgr s))" "jq_container (sv_queue s) = []" "\<not> jq_stop_flag (sv_queue s)"
  shows "internal_step fs message glob m s = None"
proof -
  have "Manager_work fs k now (sv_mgr s) = None" for k now
    by (rule drained_work) (use assms in \<open>simp add: pool_drained_def\<close>)
  then show ?thesis
    by (cases m rule: internal.cases) (use assms in \<open>simp_all add: internal_step_def service_manager_def
        service_export_def service_stop_def JobQueue_pop_def\<close>)
qed

text \<open>C36: The wake-up can be lost: \<^verbatim>\<open>wait_to_finish\<close> reads a counter that is not 0, the worker decrements it and
  notifies, and then the thread falls asleep. All work is done and the scan exported, the thread in
  \<^verbatim>\<open>shutdown\<close> waits for a scan that is finished, and nothing in the service moves any more.\<close>

theorem service_shutdown_lost_wakeup:
  "\<exists>s. run (service_step demo_fs message glob) lost_moves demo_service = Some s
     \<and> sv_pc s = Asleep_on [1] \<and> Manager_wait_done 1 (sv_mgr s) \<and> ex_exported (sv_exp s) = [1]
     \<and> (\<forall>m. internal_step demo_fs message glob m s = None)"
  using lost_run [of message glob] asleep_forever by metis

text \<open>A spurious wake-up lets the same shutdown return.\<close>

lemma stop_run:
  "\<exists>s. run (service_step demo_fs message glob) stop_moves demo_service = Some s
     \<and> sv_pc s = Service_stopped \<and> ex_finalizing (sv_exp s) = 0 \<and> sv_accepted s = [1] \<and> length (mg_results (sv_mgr s)) = 2"
proof -
  obtain s where s: "run (service_step demo_fs message glob) lost_moves demo_service = Some s" "sv_pc s = Asleep_on [1]"
      "Manager_wait_done 1 (sv_mgr s)" "ex_alive (sv_exp s)" "mg_threads (sv_mgr s) = [[]]"
      "jq_container (mg_queue (sv_mgr s)) = []" "jq_container (sv_queue s) = []" "sv_accepted s = [1]"
      "length (mg_results (sv_mgr s)) = 2" "ex_finalizing (sv_exp s) = 0"
    using lost_run [of message glob] by metis
  have "\<exists>t. run (service_step demo_fs message glob) (Sv_spurious # replicate 5 Sv_stop @ [Sv_export, Sv_stop]) s = Some t
      \<and> sv_pc t = Service_stopped \<and> ex_finalizing (sv_exp t) = 0 \<and> sv_accepted t = [1] \<and> length (mg_results (sv_mgr t)) = 2"
    by (simp add: numeral_eq_Suc s(2-) [unfolded numeral_eq_Suc] service_stop_def Manager_shutdown_pool_def
        JobQueue_shutdown_def pool_drained_def service_export_def JobQueue_pop_def ExportManager_close_def
        ExportManager_commit_batch_def)
  then show ?thesis by (simp add: stop_moves_def run_append s(1))
qed


text \<open>On a file system in which every \<^verbatim>\<open>lstat\<close> fails.\<close>

definition flat_fs :: file_system where
  "flat_fs = \<lparr>fs_lstat = (\<lambda>p. Inl 2), fs_opendir = (\<lambda>p. None), fs_readdir = (\<lambda>p. (0, []))\<rparr>"


end
