(* ===== verification/Startup.thy ===== *)
theory Startup
  imports Service_Shutdown Thread_Pool
begin

section \<open>The start of the scan service (Manager::start, ExportManager::start)\<close>

text \<open>
  \<^verbatim>\<open>Manager::start\<close> creates the threads of the pool and starts the exporter, which reads the finished scans
  and creates its own thread. Each of these can fail, and \<^verbatim>\<open>start\<close> has no result: \<^verbatim>\<open>Daemon::run\<close> goes on
  whatever happened. The service that comes out is a start state of the moves of \<open>Service_Shutdown\<close>.

  Parameters: \<open>spawn i\<close> says whether thread \<open>i\<close> of the pool can be created, \<open>thread_ok\<close> whether the exporter's
  can, and \<open>db_error\<close> is the number of rows read before the database throws, \<^term>\<open>None\<close> if it does not.
\<close>

text \<open>The service as it is constructed: no thread exists.\<close>

definition service_cold ::
    "nat \<Rightarrow> nat \<Rightarrow> queue_metrics \<Rightarrow> nat \<Rightarrow> queue_metrics \<Rightarrow> nat \<Rightarrow> index_db \<Rightarrow> scan_service" where
  "service_cold max_scan scan_queue metrics que_size metrics' batch db =
     service_init (Manager_init max_scan scan_queue 0 metrics) que_size metrics'
       ((ExportManager_init batch db)\<lparr>ex_alive := False\<rparr>)"

text \<open>All rows of the task table in the order in which the pages deliver them.\<close>

definition finished_rows :: "index_db \<Rightarrow> scan_task_row list" where
  "finished_rows db = rev (sort_key (\<lambda>r. sint (st_scan_id r)) (map te_row (scan_task_table db)))"

definition ExportManager_start_thread :: "nat option \<Rightarrow> bool \<Rightarrow> scan_service \<Rightarrow> bool \<times> scan_service" where
  "ExportManager_start_thread db_error thread_ok s =
     (if ex_alive (sv_exp s) then (True, s)
      else case db_error of
             Some n \<Rightarrow>
               (False, s\<lparr>sv_exp := (sv_exp s)\<lparr>ex_exported :=
                  foldl (\<lambda>m row. List.insert (st_scan_id row) m) (ex_exported (sv_exp s))
                    (take n (finished_rows (ex_db (sv_exp s))))\<rparr>\<rparr>)
           | None \<Rightarrow>
               (let x = ExportManager_start (sv_exp s) in
                if thread_ok then (True, s\<lparr>sv_exp := x\<lparr>ex_alive := True\<rparr>\<rparr>)
                else (False, s\<lparr>sv_exp := x, sv_queue := fst (JobQueue_shutdown (sv_queue s))\<rparr>)))"

definition Manager_start ::
    "(nat \<Rightarrow> bool) \<Rightarrow> nat option \<Rightarrow> bool \<Rightarrow> nat \<Rightarrow> scan_service \<Rightarrow> scan_service" where
  "Manager_start spawn db_error thread_ok num_threads s =
     (let (pool_success, p) = ThreadPool_start spawn
            \<lparr>tp_queue = mg_queue (sv_mgr s), NUM_THREADS = num_threads, tp_pool = [], tp_done = []\<rparr>;
          s1 = s\<lparr>sv_mgr := (sv_mgr s)\<lparr>mg_queue := tp_queue p, mg_threads := map (\<lambda>_. []) (tp_pool p)\<rparr>\<rparr>
      in if \<not> pool_success then s1
         else let (export_success, s2) = ExportManager_start_thread db_error thread_ok s1
              in if export_success then s2
                 else s2\<lparr>sv_mgr := (Manager_shutdown_pool (sv_mgr s2))\<lparr>mg_threads := []\<rparr>\<rparr>)"

definition start_succeeds :: "(nat \<Rightarrow> bool) \<Rightarrow> nat option \<Rightarrow> bool \<Rightarrow> nat \<Rightarrow> bool" where
  "start_succeeds spawn db_error thread_ok num_threads \<longleftrightarrow>
     list_all spawn [0..<num_threads] \<and> db_error = None \<and> thread_ok"

text \<open>A successful start.\<close>

lemma start_success:
  assumes "start_succeeds spawn db_error thread_ok k"
  shows "Manager_start spawn db_error thread_ok k (service_cold mx sq m c m' b db)
    = service_init (Manager_init mx sq k m) c m' (ExportManager_start (ExportManager_init b db))"
  using assms
  by (auto simp: start_succeeds_def Manager_start_def service_cold_def service_init_def ThreadPool_start_def
      ThreadPool_spawn_eq ExportManager_start_thread_def ExportManager_start_def ExportManager_init_def Manager_init_def
      list_all_iff Let_def)

text \<open>A start that fails anywhere leaves a stopped pool without threads and no exporter.\<close>

lemma start_failure:
  assumes "\<not> start_succeeds spawn db_error thread_ok k"
    and "s = Manager_start spawn db_error thread_ok k (service_cold mx sq m c m' b db)"
  shows "sv_mgr s = Manager_shutdown_pool (Manager_init mx sq 0 m)" "\<not> ex_alive (sv_exp s)"
    "jq_container (sv_queue s) = []" "QUEUE_SIZE (sv_queue s) = c" "jq_policy (sv_queue s) = Fifo"
    "sv_taken s = []" "sv_refused s = []" "sv_accepted s = []"
  using assms(1)
  by (auto simp: assms(2) start_succeeds_def Manager_start_def service_cold_def service_init_def ThreadPool_start_def
      ThreadPool_spawn_eq ExportManager_start_thread_def ExportManager_start_def ExportManager_init_def Manager_init_def
      Manager_shutdown_pool_def JobQueue_init_def JobQueue_shutdown_def list_all_iff Let_def split: option.splits)

text \<open>What stays true of such a service: \<open>E\<close> lists the scans exported before, \<open>c\<close> is the size of the queue.\<close>

definition dead_ok :: "u64 list \<Rightarrow> nat \<Rightarrow> scan_service \<Rightarrow> bool" where
  "dead_ok E c s \<longleftrightarrow> manager_inv (sv_mgr s) \<and> pool_drained (sv_mgr s) \<and> jq_stop_flag (mg_queue (sv_mgr s))
     \<and> \<not> ex_alive (sv_exp s) \<and> ex_exported (sv_exp s) = E \<and> sv_accepted s = [] \<and> sv_taken s = []
     \<and> QUEUE_SIZE (sv_queue s) = c \<and> jq_policy (sv_queue s) = Fifo \<and> length (jq_container (sv_queue s)) \<le> c
     \<and> mg_results (sv_mgr s) = jq_container (sv_queue s) @ sv_refused s
     \<and> (sv_refused s \<noteq> [] \<longrightarrow> jq_stop_flag (sv_queue s))"

lemma stopped_start:
  assumes "jq_stop_flag (mg_queue g)" "map_of (mg_registry g) i = None"
  shows "fst (Manager_start_new_scan i r now g) = (False, False)"
    "mg_results (snd (Manager_start_new_scan i r now g))
       = mg_results g @ (if i = 0 then [] else [sentinel_event i r False])"
  using start_stop [of i r now g] assms(1)
  by (cases rule: start_cases [OF assms(2), of r now]; simp)+

lemma push_bound: "push_results es q = Some (q', r) \<Longrightarrow> length (jq_container q) \<le> QUEUE_SIZE q \<Longrightarrow>
    length (jq_container q') \<le> QUEUE_SIZE q'"
proof (induction es arbitrary: q q' r)
  case (Cons e es)
  then obtain ok q1 g r' where q1: "JobQueue_push e q = Some (ok, q1, g)" "push_results es q1 = Some (q', r')"
    by (auto split: option.splits prod.splits)
  then have "length (jq_container q1) \<le> QUEUE_SIZE q1"
    using Cons.prems(2) by (auto simp: JobQueue_push_def jq_accepted_def split: if_splits)
  with Cons.IH [OF q1(2)] show ?case by simp
qed simp

lemma dead_manager:
  assumes s: "dead_ok E c s" and m: "m \<noteq> Shutdown_pool" and t: "service_manager fs m s = Some t"
  shows "dead_ok E c t"
proof (rule service_manager_cases [OF t])
  fix g new
  assume g: "manager_step fs m (sv_mgr s) = Some g" "mg_results g = mg_results (sv_mgr s) @ new" "sv_mgr t = g"
    and q: "jq_container (sv_queue t) @ drop (length (sv_refused s)) (sv_refused t) = jq_container (sv_queue s) @ new"
      "sv_refused t = sv_refused s @ drop (length (sv_refused s)) (sv_refused t)"
      "jq_policy (sv_queue t) = jq_policy (sv_queue s)" "jq_stop_flag (sv_queue t) = jq_stop_flag (sv_queue s)"
    and r: "if jq_stop_flag (sv_queue s) then jq_container (sv_queue t) = jq_container (sv_queue s)
        \<and> drop (length (sv_refused s)) (sv_refused t) = new else sv_refused t = sv_refused s"
    and e: "sv_taken t = sv_taken s" "ex_alive (sv_exp t) = ex_alive (sv_exp s)"
      "ex_exported (sv_exp t) = ex_exported (sv_exp s)" "sv_accepted t = sv_accepted s @ newly_accepted m (sv_mgr s)"
  have d: "pool_drained g" "jq_stop_flag (mg_queue g)" "manager_inv g"
    using drained_step [OF _ _ _ m g(1)] manager_inv_step [OF _ g(1)] s by (auto simp: dead_ok_def)
  have "newly_accepted m (sv_mgr s) = []"
  proof (cases m)
    case (Start_scan i r now)
    with g(1) have "mg_ctx (sv_mgr s) i = None" by (auto split: if_splits)
    then have "map_of (mg_registry (sv_mgr s)) i = None" using s unregistered by (simp add: dead_ok_def)
    with Start_scan s show ?thesis by (simp add: newly_accepted_def stopped_start dead_ok_def)
  qed (simp_all add: newly_accepted_def)
  moreover have "QUEUE_SIZE (sv_queue t) = QUEUE_SIZE (sv_queue s)"
      "length (jq_container (sv_queue s)) \<le> QUEUE_SIZE (sv_queue s) \<Longrightarrow> length (jq_container (sv_queue t)) \<le> QUEUE_SIZE (sv_queue t)"
    using t push_size push_bound by (fastforce simp: service_manager_def split: option.splits prod.splits)+
  moreover have "mg_results g = jq_container (sv_queue t) @ sv_refused t"
    using g(2) q(1,2) r s by (cases "jq_stop_flag (sv_queue s)") (auto simp: dead_ok_def)
  moreover have "sv_refused t \<noteq> [] \<longrightarrow> jq_stop_flag (sv_queue t)"
    using r q(4) s by (auto simp: dead_ok_def split: if_splits)
  ultimately show ?thesis using s d g(3) q(3) e by (simp add: dead_ok_def)
qed

lemma dead_step:
  assumes s: "dead_ok E c s" and t: "service_step fs message glob m s = Some t" shows "dead_ok E c t"
proof (cases m)
  case (Sv_manager mm)
  with t dead_manager [OF s] show ?thesis by (auto split: if_splits)
next
  case Sv_export
  with t s show ?thesis by (simp add: service_export_def dead_ok_def)
next
  case Sv_stop
  show ?thesis
  proof (cases "sv_pc s")
    case (Cancelling todo ids)
    have "dead_ok E c (u\<lparr>sv_pc := pc\<rparr>)" if "service_manager fs (Cancel_scan i) s = Some u" for u i pc
      using dead_manager [OF s _ that] by (simp add: dead_ok_def)
    with t Sv_stop Cancelling s show ?thesis by (auto simp: service_stop_def dead_ok_def split: list.splits)
  qed (use t Sv_stop s manager_inv_shutdown [of "sv_mgr s"] in \<open>auto simp: service_stop_def dead_ok_def
        Manager_shutdown_pool_def JobQueue_shutdown_def pool_drained_def split: list.splits if_splits\<close>)
qed (use t s in \<open>auto simp: dead_ok_def split: if_splits shutdown_pc.splits\<close>)

interpretation dead_service: invariant "service_step fs message glob" "dead_ok E c" for fs message glob E c
  by unfold_locales (rule dead_step)

lemma dead_start:
  assumes "\<not> start_succeeds spawn db_error thread_ok k"
  shows "dead_ok (ex_exported (sv_exp (Manager_start spawn db_error thread_ok k (service_cold mx sq m c m' b db)))) c
    (Manager_start spawn db_error thread_ok k (service_cold mx sq m c m' b db))"
  using start_failure [OF assms refl, of mx sq m c m' b db] manager_inv_shutdown [OF manager_inv_init [of mx sq 0 m]]
  by (simp add: dead_ok_def pool_drained_def Manager_shutdown_pool_def Manager_init_def JobQueue_init_def JobQueue_shutdown_def)

text \<open>When the queue is full and open, the next start of a scan never returns.\<close>

lemma dead_blocks:
  assumes s: "dead_ok E c s" and full: "\<not> jq_stop_flag (sv_queue s)" "length (mg_results (sv_mgr s)) = c" and i: "i \<noteq> 0"
  shows "service_manager fs (Start_scan i r now) s = None"
proof (cases "mg_ctx (sv_mgr s) i = None")
  case True
  then have "map_of (mg_registry (sv_mgr s)) i = None" using s unregistered by (simp add: dead_ok_def)
  moreover have "jq_stop_flag (mg_queue (sv_mgr s))" "length (jq_container (sv_queue s)) = QUEUE_SIZE (sv_queue s)"
    using s full by (auto simp: dead_ok_def)
  ultimately show ?thesis
    using True full(1) i by (simp add: service_manager_def stopped_start JobQueue_push_def)
qed (auto simp: service_manager_def)

text \<open>A start that fails is told to nobody: the daemon takes scans all the same. Whatever happens afterwards,
  no scan is ever accepted by the manager and nothing is exported; each refused scan leaves its sentinel in
  the result queue, which no thread empties, so that until a shutdown at most as many as the queue holds
  are refused, and then the dispatch thread stays in \<^verbatim>\<open>push\<close> with the next one.\<close>

theorem manager_start_failure_silent:
  assumes "\<not> start_succeeds spawn db_error thread_ok k"
    and "reach (service_step fs message glob)
      (Manager_start spawn db_error thread_ok k (service_cold mx sq m c m' b db)) s"
  shows "sv_accepted s = [] \<and> sv_taken s = []
    \<and> ex_exported (sv_exp s) = ex_exported (sv_exp (Manager_start spawn db_error thread_ok k (service_cold mx sq m c m' b db)))
    \<and> (\<not> jq_stop_flag (sv_queue s) \<longrightarrow> length (mg_results (sv_mgr s)) \<le> c
        \<and> (length (mg_results (sv_mgr s)) = c \<longrightarrow>
             (\<forall>i r now. i \<noteq> 0 \<longrightarrow> service_step fs message glob (Sv_manager (Start_scan i r now)) s = None)))"
proof -
  note inv = dead_service.reach_keeps [OF assms(2) dead_start [OF assms(1)]]
  then have "length (mg_results (sv_mgr s)) \<le> c" if "\<not> jq_stop_flag (sv_queue s)" using that by (auto simp: dead_ok_def)
  with inv dead_blocks [OF inv] show ?thesis by (auto simp: dead_ok_def)
qed

text \<open>The one thread of the pool cannot be created, and the result queue has room for two.\<close>

definition crippled :: scan_service where
  "crippled = Manager_start (\<lambda>i. False) None True 1 (service_cold 1 8 zero_metrics 2 zero_metrics 1 empty_db)"

theorem manager_start_failure_silent_witness:
  "\<exists>s. run (service_step flat_fs (\<lambda>n. []) (\<lambda>p t. True)) [Sv_manager (Start_scan 1 ''/a'' 40), Sv_manager (Start_scan 2 ''/b'' 41)]
       crippled = Some s
     \<and> service_step flat_fs (\<lambda>n. []) (\<lambda>p t. True) (Sv_manager (Start_scan 3 ''/c'' 42)) s = None"
proof -
  obtain s where s: "run (service_step flat_fs (\<lambda>n. []) (\<lambda>p t. True))
      [Sv_manager (Start_scan 1 ''/a'' 40), Sv_manager (Start_scan 2 ''/b'' 41)] crippled = Some s"
      "length (mg_results (sv_mgr s)) = 2" "\<not> jq_stop_flag (sv_queue s)"
    by (simp add: crippled_def Manager_start_def ThreadPool_start_def service_cold_def demo_service_eval)
  have "\<not> start_succeeds (\<lambda>i. False) None True 1" by (simp add: start_succeeds_def)
  from manager_start_failure_silent [OF this run_reach_start [OF s(1) [unfolded crippled_def]]] s(2,3)
  have "service_step flat_fs (\<lambda>n. []) (\<lambda>p t. True) (Sv_manager (Start_scan 3 ''/c'' 42)) s = None"
    by (auto simp del: service_step.simps)
  with s(1) show ?thesis by blast
qed

end
