(* ===== verification/Scan_Daemon.thy ===== *)
theory Scan_Daemon
  imports Dispatch_Properties Service_Shutdown Pipeline
begin

section \<open>Scheduler, Manager and ExportManager together\<close>

text \<open>
  The scheduler with its dispatch thread and its clients, beside the scan service of theory
  \<open>Service_Shutdown\<close>, as one transition system. \<open>Dispatch_System\<close> keeps the manager and the exporter
  abstract; here they are the real ones, and the system is shown to be a refinement of it. A callback is
  part of the step that makes it (\<^verbatim>\<open>notify_scan_finished\<close>) or a step of its own afterwards
  (\<open>da_due\<close>: the calls of \<^verbatim>\<open>notify_export_done\<close> that the exporter is about to make, with the scan;
  \<open>da_notified\<close>: the calls of \<^verbatim>\<open>notify_dispatch_available\<close> that were made).
\<close>

subsection \<open>The system\<close>

record scan_daemon =
  da_sched :: scheduler
  da_run :: run_pc
  da_inflight :: "(u64 \<times> string) list"
  da_cancels :: "u64 list"
  da_serv :: scan_service
  da_notified :: nat
  da_due :: "(u64 \<times> string) list"

definition daemon_start :: "scheduler \<Rightarrow> scan_service \<Rightarrow> scan_daemon" where
  "daemon_start sc v =
     \<lparr>da_sched = sc, da_run = Run_top, da_inflight = [], da_cancels = [], da_serv = v, da_notified = 0, da_due = []\<rparr>"

text \<open>A move of the scan service, with the calls of \<^verbatim>\<open>notify_scan_finished\<close> it makes.\<close>

definition da_manager :: "file_system \<Rightarrow> manager_move \<Rightarrow> scan_daemon \<Rightarrow> scan_daemon option" where
  "da_manager fs m s =
     (case service_manager fs m (da_serv s) of
        None \<Rightarrow> None
      | Some v \<Rightarrow> Some (s\<lparr>da_serv := v,
          da_sched := fold Scheduler_notify_scan_finished
            (drop (length (mg_finished (sv_mgr (da_serv s)))) (mg_finished (sv_mgr v))) (da_sched s)\<rparr>))"

text \<open>A turn of the exporter.\<close>

definition da_export ::
    "(int \<Rightarrow> string) \<Rightarrow> (string \<Rightarrow> string \<Rightarrow> bool) \<Rightarrow> scan_daemon \<Rightarrow> scan_daemon option" where
  "da_export message glob s =
     (case service_export message glob (da_serv s) of
        None \<Rightarrow> None
      | Some v \<Rightarrow> Some (s\<lparr>da_serv := v,
          da_due := da_due s @ map (Pair (fe_scan_id (last (sv_taken v))))
            (drop (length (ex_notified (sv_exp (da_serv s)))) (ex_notified (sv_exp v)))\<rparr>))"

datatype core_move =
    Core_gen string
  | Core_enqueue u64 string
  | Core_cancel u64
  | Core_cancel_manager u64
  | Core_pick
  | Core_dispatch u64
  | Core_return
  | Core_late_cancel
  | Core_work nat u64
  | Core_export
  | Core_available
  | Core_release u64 string
  | Core_shutdown
  | Core_stop
  | Core_spurious

fun core_step ::
    "file_system \<Rightarrow> (int \<Rightarrow> string) \<Rightarrow> (string \<Rightarrow> string \<Rightarrow> bool) \<Rightarrow> core_move \<Rightarrow> scan_daemon
     \<Rightarrow> scan_daemon option" where
  "core_step fs message glob (Core_gen root) s =
     (if root = [] then None
      else case Scheduler_gen_scan_id (da_sched s) of (i, sc) \<Rightarrow>
        Some (s\<lparr>da_sched := sc, da_inflight := (i, root) # da_inflight s\<rparr>))"
| "core_step fs message glob (Core_enqueue i root) s =
     (if (i, root) \<in> set (da_inflight s) then
        Some (s\<lparr>da_sched := snd (Scheduler_submit_locked i root (da_sched s)),
                da_inflight := remove1 (i, root) (da_inflight s)\<rparr>)
      else None)"
| "core_step fs message glob (Core_cancel i) s =
     (case Scheduler_cancel i (da_sched s) of (ok, running_removed, sc) \<Rightarrow>
        Some (s\<lparr>da_sched := sc, da_cancels := (if running_removed then i # da_cancels s else da_cancels s)\<rparr>))"
| "core_step fs message glob (Core_cancel_manager i) s =
     (if i \<in> set (da_cancels s)
      then map_option (\<lambda>t. t\<lparr>da_cancels := remove1 i (da_cancels t)\<rparr>) (da_manager fs (Cancel_scan i) s) else None)"
| "core_step fs message glob Core_pick s =
     (if da_run s = Run_top then
        (case Scheduler_run_pick (da_sched s) of
           None \<Rightarrow> None
         | Some (pc, sc) \<Rightarrow> Some (s\<lparr>da_sched := sc, da_run := pc\<rparr>))
      else None)"
| "core_step fs message glob (Core_dispatch now) s =
     (case da_run s of
        Run_dispatch d \<Rightarrow>
          (case fst (Manager_start_new_scan (pr_scan_id d) (pr_root d) now (sv_mgr (da_serv s))) of (accepted, full) \<Rightarrow>
             map_option (\<lambda>t. t\<lparr>da_run := Run_result d accepted full\<rparr>)
               (da_manager fs (Start_scan (pr_scan_id d) (pr_root d) now) s))
      | _ \<Rightarrow> None)"
| "core_step fs message glob Core_return s =
     (case da_run s of
        Run_result d acc full \<Rightarrow>
          (case Scheduler_run_result d acc full (da_sched s) of (pc, sc) \<Rightarrow>
             Some (s\<lparr>da_sched := sc, da_run := pc\<rparr>))
      | _ \<Rightarrow> None)"
| "core_step fs message glob Core_late_cancel s =
     (case da_run s of
        Run_late_cancel i \<Rightarrow> map_option (\<lambda>t. t\<lparr>da_run := Run_top\<rparr>) (da_manager fs (Cancel_scan i) s)
      | _ \<Rightarrow> None)"
| "core_step fs message glob (Core_work k now) s = da_manager fs (Work k now) s"
| "core_step fs message glob Core_export s = da_export message glob s"
| "core_step fs message glob Core_available s =
     (if da_notified s < mg_available (sv_mgr (da_serv s))
      then Some (s\<lparr>da_sched := Scheduler_notify_dispatch_available (da_sched s), da_notified := Suc (da_notified s)\<rparr>)
      else None)"
| "core_step fs message glob (Core_release i root) s =
     (if (i, root) \<in> set (da_due s) then
        Some (s\<lparr>da_sched := Scheduler_notify_export_done root (da_sched s), da_due := remove1 (i, root) (da_due s)\<rparr>)
      else None)"
| "core_step fs message glob Core_shutdown s =
     (if sv_pc (da_serv s) = Serving then
        (case Scheduler_shutdown (da_sched s) of (ids, sc) \<Rightarrow>
           Some (s\<lparr>da_sched := sc, da_serv := (da_serv s)\<lparr>sv_pc := Cancelling ids ids\<rparr>\<rparr>))
      else None)"
| "core_step fs message glob Core_stop s = map_option (\<lambda>v. s\<lparr>da_serv := v\<rparr>) (service_stop fs (da_serv s))"
| "core_step fs message glob Core_spurious s =
     map_option (\<lambda>v. s\<lparr>da_serv := v\<rparr>) (service_step fs message glob Sv_spurious (da_serv s))"

subsection \<open>The manager as the dispatch system sees it\<close>

text \<open>A scan is with the manager from its start until its last job calls \<^verbatim>\<open>notify_scan_finished\<close>.\<close>

fun frame_signalling :: "u64 \<Rightarrow> frame \<Rightarrow> int" where
  "frame_signalling i (Signalling d c now) = of_bool (sd_scan_id d = i)"
| "frame_signalling i _ = 0"

fun frame_tail :: "frame \<Rightarrow> int" where
  "frame_tail (Signalling d c now) = 1"
| "frame_tail (Recording row) = 1"
| "frame_tail Tail = 1"
| "frame_tail _ = 0"

lemma frame_signalling_nonneg [simp]: "0 \<le> frame_signalling i f"
  by (cases f) simp_all

definition signalling :: "u64 \<Rightarrow> manager \<Rightarrow> int" where
  "signalling i g = thread_sum (frame_signalling i) g"

definition live_scans :: "manager \<Rightarrow> (u64 \<times> string) list" where
  "live_scans g = map (\<lambda>(i, task). (i, root_path task)) (filter (\<lambda>(i, task). signalling i g = 0) (mg_registry g))"

definition matches :: "dispatch_system \<Rightarrow> manager \<Rightarrow> nat \<Rightarrow> bool" where
  "matches d g n \<longleftrightarrow> ds_live d = live_scans g \<and> ds_dispatch_failed d = mg_dispatch_failed g
     \<and> int (ds_tails d) = thread_sum frame_tail g \<and> ds_notifying d + n = mg_available g
     \<and> ds_pool_stopped d = jq_stop_flag (mg_queue g)"

text \<open>The parts of the dispatch system that no job's end touches.\<close>

definition same_control :: "dispatch_system \<Rightarrow> dispatch_system \<Rightarrow> bool" where
  "same_control d e \<longleftrightarrow> ds_sched e = ds_sched d \<and> ds_run e = ds_run d \<and> ds_inflight e = ds_inflight d
     \<and> ds_exporting e = ds_exporting d"

definition keys_ok :: "manager \<Rightarrow> bool" where
  "keys_ok g \<longleftrightarrow> manager_inv g \<and> distinct (map fst (mg_registry g))"

lemma signalling_closing: "0 \<le> signalling i g \<and> signalling i g \<le> closing i g"
proof -
  have "frame_signalling i f \<le> frame_closing i f" "0 \<le> frame_signalling i f" for f by (cases f; simp)+
  then show ?thesis unfolding signalling_def closing_def thread_sum_def
    by (intro conjI sum_list_nonneg sum_list_mono) (auto intro!: sum_list_nonneg)
qed

lemma live_mem: "(i, r) \<in> set (live_scans g) \<longleftrightarrow> (\<exists>t. (i, t) \<in> set (mg_registry g) \<and> r = root_path t \<and> signalling i g = 0)"
  by (force simp: live_scans_def)

lemma outstanding_live:
  assumes "manager_inv g" "0 < outstanding i g" shows "live_scans g \<noteq> []"
proof -
  have "scan_ok i g" using assms(1) by (simp add: manager_inv_def)
  from phase_jobs_pos [OF this [unfolded scan_ok_def] assms(2)]
  have "closing i g = 0" "map_of (mg_registry g) i \<noteq> None" by simp_all
  then obtain t where "(i, t) \<in> set (mg_registry g)" "signalling i g = 0"
    using signalling_closing [of i g] by (auto dest: map_of_SomeD)
  then have "(i, root_path t) \<in> set (live_scans g)" by (auto simp: live_mem)
  then show ?thesis by auto
qed

lemma live_cong: "mg_registry h = mg_registry g \<Longrightarrow> (\<And>i. signalling i h = signalling i g) \<Longrightarrow> live_scans h = live_scans g"
  by (simp add: live_scans_def)

subsection \<open>A step of a worker\<close>

definition follows :: "dispatch_system \<Rightarrow> manager \<Rightarrow> manager \<Rightarrow> nat \<Rightarrow> dispatch_system \<Rightarrow> bool" where
  "follows d g h n e \<longleftrightarrow> matches e h n
     \<and> (mg_finished h = mg_finished g \<and> same_control d e
        \<or> (\<exists>i r. mg_finished h = mg_finished g @ [i] \<and> (i, r) \<in> set (live_scans g)
             \<and> ds_sched e = Scheduler_notify_scan_finished i (ds_sched d) \<and> ds_run e = ds_run d
             \<and> ds_inflight e = ds_inflight d \<and> ds_exporting e = (i, r) # ds_exporting d))"

lemma follows_quiet:
  assumes "matches d g n" "mg_registry h = mg_registry g" "\<And>i. signalling i h = signalling i g"
    "thread_sum frame_tail h = thread_sum frame_tail g" "mg_dispatch_failed h = mg_dispatch_failed g"
    "mg_available h = mg_available g" "jq_stop_flag (mg_queue h) = jq_stop_flag (mg_queue g)" "mg_finished h = mg_finished g"
  shows "\<exists>ms e. run ds_step ms d = Some e \<and> follows d g h n e"
proof -
  have "run ds_step [] d = Some d" "follows d g h n d"
    using assms live_cong [OF assms(2,3)] by (simp_all add: follows_def matches_def same_control_def)
  then show ?thesis by blast
qed

text \<open>A job that is not the last one passes its decrement.\<close>

lemma follows_past:
  assumes "matches d g n" "live_scans g \<noteq> []" "mg_registry h = mg_registry g" "\<And>i. signalling i h = signalling i g"
    "thread_sum frame_tail h = thread_sum frame_tail g + 1" "mg_dispatch_failed h = mg_dispatch_failed g"
    "mg_available h = mg_available g" "jq_stop_flag (mg_queue h) = jq_stop_flag (mg_queue g)" "mg_finished h = mg_finished g"
  shows "\<exists>ms e. run ds_step ms d = Some e \<and> follows d g h n e"
proof -
  let ?e = "d\<lparr>ds_tails := Suc (ds_tails d)\<rparr>"
  have "run ds_step [Job_past] d = Some ?e" "follows d g h n ?e"
    using assms live_cong [OF assms(3,4)] by (auto simp: follows_def matches_def same_control_def)
  then show ?thesis by blast
qed

text \<open>A job's end, its tail counted before (\<open>b = 1\<close>) or passed at once.\<close>

lemma follows_tail:
  assumes m: "matches d g n" and b: "b \<or> live_scans g \<noteq> []" and reg: "mg_registry h = mg_registry g"
    "\<And>i. signalling i h = signalling i g" and tl: "thread_sum frame_tail h = thread_sum frame_tail g - of_bool b"
    and pos: "0 \<le> thread_sum frame_tail h"
    and rest: "\<not> mg_dispatch_failed h" "mg_available h = (if mg_dispatch_failed g then Suc (mg_available g) else mg_available g)"
    "jq_stop_flag (mg_queue h) = jq_stop_flag (mg_queue g)" "mg_finished h = mg_finished g"
  shows "\<exists>ms e. run ds_step ms d = Some e \<and> follows d g h n e"
proof -
  let ?t = "ds_tails d - of_bool b"
  let ?e = "ds_exchange (d\<lparr>ds_tails := ?t\<rparr>)"
  have t: "int ?t = thread_sum frame_tail h" using m tl pos by (cases b) (auto simp: matches_def)
  have "run ds_step (if b then [Job_end] else [Job_past, Job_end]) d = Some ?e"
    using m b tl pos by (auto simp: matches_def)
  moreover have "follows d g h n ?e"
    using m t rest live_cong [OF reg] by (auto simp: follows_def matches_def same_control_def ds_exchange_def)
  ultimately show ?thesis by blast
qed

lemma tail_nonneg: "0 \<le> thread_sum frame_tail g"
proof -
  have "0 \<le> frame_tail f" for f by (cases f) simp_all
  then show ?thesis by (rule thread_sum_nonneg)
qed

lemma live_remove1:
  assumes "distinct (map fst xs)" "(i, task) \<in> set xs" "P i" "\<And>j. Q j \<longleftrightarrow> P j \<and> j \<noteq> i"
  shows "map (\<lambda>(i, task). (i, root_path task)) (filter (\<lambda>(i, task). Q i) xs)
    = remove1 (i, root_path task) (map (\<lambda>(i, task). (i, root_path task)) (filter (\<lambda>(i, task). P i) xs))"
  using assms(1,2)
proof (induction xs)
  case (Cons x xs)
  show ?case
  proof (cases "fst x = i")
    case True
    with Cons.prems have x: "x = (i, task)" "i \<notin> fst ` set xs" by (cases x, force)+
    then have "filter (\<lambda>(i, task). Q i) xs = filter (\<lambda>(i, task). P i) xs" by (intro filter_cong) (auto simp: assms(4) rev_image_eqI)
    with x assms(3,4) show ?thesis by simp
  next
    case False
    with Cons show ?thesis by (cases x) (auto simp: assms(4))
  qed
qed simp

lemma thread_sum_diff: "thread_sum (\<lambda>f. u f - v f) g = thread_sum u g - (thread_sum v g :: int)"
  unfolding thread_sum_def by (induction "mg_threads g") (simp_all add: sum_list_subtractf)

lemma closing_not_signalling:
  assumes "k < length (mg_threads g)" "mg_threads g ! k = Closing j # fr" "manager_inv g"
  shows "signalling (sd_scan_id j) g = 0"
proof -
  let ?i = "sd_scan_id j" and ?w = "\<lambda>f. frame_closing (sd_scan_id j) f - frame_signalling (sd_scan_id j) f"
  have "0 \<le> ?w f" for f by (cases f) simp_all
  from thread_sum_ge [OF assms(1,2), of ?w, OF this] have "1 \<le> closing ?i g - signalling ?i g"
    by (simp add: thread_sum_diff closing_def signalling_def)
  moreover have "closing ?i g \<le> 1"
  proof -
    have "0 < closing ?i g" using calculation signalling_closing [of ?i g] by simp
    with phase_closing_pos assms(3) show ?thesis by (fastforce simp: manager_inv_def scan_ok_def)
  qed
  ultimately show ?thesis using signalling_closing [of ?i g] by simp
qed

lemma closing_registered:
  assumes "manager_inv g" "0 < closing i g" obtains task where "map_of (mg_registry g) i = Some task" "closing i g = 1"
proof -
  have "scan_ok i g" using assms(1) by (simp add: manager_inv_def)
  from phase_closing_pos [OF this [unfolded scan_ok_def] assms(2)] that show thesis by auto
qed

lemma follows_work:
  assumes ok: "keys_ok g" and m: "matches d g n" and w: "Manager_work fs k now g = Some h"
  shows "\<exists>ms e. run ds_step ms d = Some e \<and> follows d g h n e"
proof -
  have k: "k < length (mg_threads g)" using w by (simp add: Manager_work_def split: if_splits)
  show ?thesis
  proof (cases "mg_threads g ! k")
    case Nil
    then obtain j q r where p: "JobQueue_pop (mg_queue g) = Some (Some j, q, r)"
        "h = set_thread k [Begin j] (g\<lparr>mg_queue := q\<rparr>)"
      using w k by (auto simp: Manager_work_def split: option.splits prod.splits)
    have "thread_sum u (set_thread k [Begin j] (g\<lparr>mg_queue := q\<rparr>)) = thread_sum u g + u (Begin j)" for u :: "frame \<Rightarrow> int"
      using thread_sum_replace [of k g "[]" "[]" "g\<lparr>mg_queue := q\<rparr>" u "[Begin j]"] k Nil by simp
    with p show ?thesis
      by (intro follows_quiet [OF m]) (auto simp: signalling_def JobQueue_pop_def jq_taken_def set_thread_def
        split: queue_type.splits if_splits)
  next
    case (Cons f fr)
    obtain new s1 where st: "Manager_frame_step fs now f g = (new, s1)" by (cases "Manager_frame_step fs now f g")
    with Cons w k have h: "h = set_thread k (new @ fr) s1" by (simp add: Manager_work_def)
    have sum: "thread_sum u h = thread_sum u g + sum_list (map u new) - u f" for u :: "frame \<Rightarrow> int"
      using work_frame [OF k Cons st frame_step_threads [OF st], of u] h by simp
    have inv: "manager_inv g" using ok by (simp add: keys_ok_def)
    have live: "live_scans g \<noteq> []" if "0 < frame_jobs i f" for i
    proof (rule outstanding_live [OF inv, of i])
      have "0 < thread_sum (frame_jobs i) g" using thread_sum_ge [OF k Cons, of "frame_jobs i"] that by simp
      then show "0 < outstanding i g" by (simp add: outstanding_def add_nonneg_pos)
    qed
    show ?thesis
    proof (cases f)
      case (Begin j)
      with st h sum show ?thesis
        by (intro follows_quiet [OF m]) (auto simp: begin_step signalling_def set_thread_def split: if_splits)
    next
      case (Loop j cs)
      with st h sum show ?thesis
        by (intro follows_quiet [OF m])
          (auto simp: Manager_frame_step_def Let_def ctx_add_def signalling_def set_thread_def split: if_splits)
    next
      case (Recording row)
      with st h sum show ?thesis
        by (intro follows_quiet [OF m]) (auto simp: Manager_frame_step_def signalling_def set_thread_def)
    next
      case Tail
      with st h sum tail_nonneg [of h] show ?thesis
        by (intro follows_tail [OF m, of True])
          (auto simp: Manager_frame_step_def Manager_job_tail_def signalling_def set_thread_def)
    next
      case (Ending j)
      show ?thesis
      proof (cases "ctx_unfinished (sd_scan_id j) g = 1")
        case True
        with Ending st h sum show ?thesis
          by (intro follows_quiet [OF m]) (auto simp: Manager_frame_step_def ctx_add_def signalling_def set_thread_def)
      next
        case False
        with Ending st h sum live [of "sd_scan_id j"] show ?thesis
          by (intro follows_past [OF m]) (auto simp: Manager_frame_step_def ctx_add_def signalling_def set_thread_def)
      qed
    next
      case (Submitting j cs c)
      then have l: "live_scans g \<noteq> []" using live [of "sd_scan_id j"] by simp
      obtain q r x where push: "JobQueue_try_push c (mg_queue g) = (r, q, x)" by (metis prod_cases3)
      have stop: "jq_stop_flag q = jq_stop_flag (mg_queue g)"
        using push by (auto simp: JobQueue_try_push_def jq_rejected_def jq_accepted_def split: if_splits)
      show ?thesis
      proof (cases "r = Shutdown")
        case True
        with Submitting st h sum push stop l tail_nonneg [of h] show ?thesis
          by (intro follows_tail [OF m, of False])
            (auto simp: Manager_frame_step_def Manager_pool_submit_def Manager_job_tail_def ctx_add_def signalling_def set_thread_def)
      next
        case False
        with Submitting st h sum push stop show ?thesis
          by (intro follows_quiet [OF m])
            (auto simp: Manager_frame_step_def Manager_pool_submit_def signalling_def set_thread_def split: submit_result.splits)
      qed
    next
      case (Closing j)
      let ?i = "sd_scan_id j"
      have "frame_closing ?i f \<le> closing ?i g" using thread_sum_ge [OF k Cons, of "frame_closing ?i"] by (simp add: closing_def)
      then obtain task where task: "map_of (mg_registry g) ?i = Some task"
        using closing_registered [OF inv, of ?i] Closing by auto
      have sig: "signalling ?i g = 0" using closing_not_signalling [OF k _ inv] Cons Closing by simp
      have hs: "signalling l h = signalling l g + of_bool (l = ?i)" for l
        using sum [of "frame_signalling l"] st Closing by (auto simp: signalling_def Manager_frame_step_def)
      let ?r = "root_path task"
      have live_h: "live_scans h = remove1 (?i, ?r) (live_scans g)"
        unfolding live_scans_def
        using st h Closing ok task sig signalling_closing [of _ g] hs
        by (subst live_remove1 [of _ ?i task "\<lambda>l. signalling l g = 0"])
          (auto simp: keys_ok_def Manager_frame_step_def dest: map_of_SomeD)
      have mem: "(?i, ?r) \<in> set (live_scans g)" using map_of_SomeD [OF task] sig by (auto simp: live_mem)
      let ?e = "d\<lparr>ds_sched := Scheduler_notify_scan_finished ?i (ds_sched d), ds_live := remove1 (?i, ?r) (ds_live d),
        ds_exporting := (?i, ?r) # ds_exporting d, ds_tails := Suc (ds_tails d)\<rparr>"
      have "follows d g h n ?e"
        using live_h mem m st h Closing sum [of frame_tail]
        by (auto simp: follows_def matches_def Manager_frame_step_def set_thread_def)
      moreover have "run ds_step [Finish ?i ?r] d = Some ?e" using mem m by (simp add: matches_def)
      ultimately show ?thesis by blast
    next
      case (Signalling j c fin)
      let ?i = "sd_scan_id j"
      have "frame_signalling ?i f \<le> signalling ?i g"
        using thread_sum_ge [OF k Cons, of "frame_signalling ?i"] by (simp add: signalling_def)
      then have one: "1 \<le> signalling ?i g" using Signalling by simp
      then obtain task where task: "map_of (mg_registry g) ?i = Some task" "closing ?i g = 1"
        using closing_registered [OF inv, of ?i] signalling_closing [of ?i g] by auto
      with one have one: "signalling ?i g = 1" using signalling_closing [of ?i g] by simp
      have new: "s1 = s1\<lparr>mg_registry := AList.delete ?i (mg_registry g)\<rparr>" "mg_finished s1 = mg_finished g"
          "mg_queue s1 = mg_queue g" "mg_dispatch_failed s1 = mg_dispatch_failed g" "mg_available s1 = mg_available g"
          "sum_list (map frame_tail new) = 1" "\<And>l. sum_list (map (frame_signalling l) new) = 0"
        using st Signalling task by (auto simp: Manager_frame_step_def Manager_unregister_def Let_def split: if_splits)
      have hs: "signalling l h = signalling l g - of_bool (l = ?i)" for l
        using sum [of "frame_signalling l"] new(7) Signalling by (auto simp: signalling_def)
      have reg: "mg_registry h = AList.delete ?i (mg_registry g)" using h new(1) by (metis manager.select_convs(5) manager.surjective manager.update_convs(5) set_thread_simps(3))
      have "live_scans h = live_scans g"
        unfolding live_scans_def reg
        using one by (auto simp: hs AList.delete_eq filter_filter intro!: arg_cong [of _ _ "map _"] filter_cong)
      with m new h sum [of frame_tail] Signalling have "follows d g h n d"
        by (auto simp: follows_def matches_def same_control_def set_thread_def)
      moreover have "run ds_step [] d = Some d" by simp
      ultimately show ?thesis by blast
    qed
  qed
qed

subsection \<open>The start of a scan\<close>

lemma delete_absent: "map_of xs i = None \<Longrightarrow> AList.delete i xs = xs"
  by (force simp: AList.delete_eq filter_id_conv map_of_eq_None_iff)

lemma fresh_signalling: "manager_inv g \<Longrightarrow> mg_ctx g i = None \<Longrightarrow> signalling i g = 0"
proof -
  assume "manager_inv g" "mg_ctx g i = None"
  then have "scan_ok i g" "mg_ctx g i = None" by (simp_all add: manager_inv_def)
  then have "closing i g = 0" by (simp add: scan_ok_def phase_ok_def)
  then show ?thesis using signalling_closing [of i g] by simp
qed

lemma start_flags:
  assumes "map_of (mg_registry g) i = None"
  shows "mg_dispatch_failed (snd (Manager_start_new_scan i r now g)) =
      (case fst (Manager_start_new_scan i r now g) of (True, _) \<Rightarrow> mg_dispatch_failed g | (False, full) \<Rightarrow> full)"
    "mg_available (snd (Manager_start_new_scan i r now g)) =
      (if fst (Manager_start_new_scan i r now g) = (False, False) \<and> mg_dispatch_failed g then Suc (mg_available g) else mg_available g)"
  using assms by (auto simp: Manager_start_new_scan_def Manager_pool_submit_def Manager_unregister_def Manager_job_tail_def
      ctx_add_def Let_def split: prod.splits submit_result.splits option.splits)

definition start_effect :: "dispatch_system \<Rightarrow> u64 \<Rightarrow> string \<Rightarrow> bool \<times> bool \<Rightarrow> dispatch_system \<Rightarrow> bool" where
  "start_effect d i r res e \<longleftrightarrow> ds_inflight e = ds_inflight d
     \<and> (if res = (False, False)
        then ds_sched e = Scheduler_notify_scan_finished i (ds_sched d) \<and> ds_exporting e = (i, r) # ds_exporting d
        else ds_sched e = ds_sched d \<and> ds_exporting e = ds_exporting d)"

lemma start_follows:
  assumes ok: "manager_inv g" and m: "matches d g n" and fresh: "mg_ctx g (pr_scan_id p) = None"
    and run: "ds_run d = Run_dispatch p"
    and st: "Manager_start_new_scan (pr_scan_id p) (pr_root p) now g = ((a, f), h)"
  shows "\<exists>ms e. run ds_step ms d = Some e \<and> matches e h n \<and> ds_run e = Run_result p a f
    \<and> start_effect d (pr_scan_id p) (pr_root p) (a, f) e"
proof -
  let ?i = "pr_scan_id p" and ?r = "pr_root p"
  have reg: "map_of (mg_registry g) ?i = None" using ok fresh unregistered by simp
  have sig: "signalling ?i g = 0" using ok fresh by (rule fresh_signalling)
  have stop: "jq_stop_flag (mg_queue h) = jq_stop_flag (mg_queue g)" using start_stop [of ?i ?r now g] st by simp
  note fl = start_flags [OF reg, of ?r now, unfolded st]
  have "mg_threads h = mg_threads g" by (cases rule: start_cases [OF reg, of ?r now]) (simp_all add: st)
  then have sums: "thread_sum frame_tail h = thread_sum frame_tail g" "\<And>l. signalling l h = signalling l g"
    by (simp_all add: thread_sum_def signalling_def)
  show ?thesis
  proof (cases rule: start_cases [OF reg, of ?r now, case_names pushed full stopped])
    case pushed
    let ?e = "d\<lparr>ds_run := Run_result p True False, ds_live := (?i, ?r) # ds_live d\<rparr>"
    have "live_scans h = (?i, ?r) # live_scans g"
      using pushed st sig by (simp add: live_scans_def sums)
    then have "matches ?e h n" "run ds_step [Accept] d = Some ?e"
      using m run pushed st fl stop by (simp_all add: matches_def sums)
    moreover have "ds_run ?e = Run_result p a f" "start_effect d ?i ?r (a, f) ?e"
      using pushed st by (simp_all add: start_effect_def)
    ultimately show ?thesis by blast
  next
    case full
    let ?e = "d\<lparr>ds_run := Run_result p False True, ds_dispatch_failed := True\<rparr>"
    have "live_scans h = live_scans g"
      using full st delete_absent [OF reg] by (simp add: live_scans_def sums)
    then have "matches ?e h n" "run ds_step [Reject_full] d = Some ?e"
      using m run full st fl stop by (simp_all add: matches_def sums)
    moreover have "ds_run ?e = Run_result p a f" "start_effect d ?i ?r (a, f) ?e"
      using full st by (simp_all add: start_effect_def)
    ultimately show ?thesis by blast
  next
    case stopped
    let ?d = "d\<lparr>ds_run := Run_result p False False, ds_sched := Scheduler_notify_scan_finished ?i (ds_sched d),
      ds_exporting := (?i, ?r) # ds_exporting d, ds_tails := Suc (ds_tails d)\<rparr>"
    let ?e = "ds_exchange (?d\<lparr>ds_tails := ds_tails d\<rparr>)"
    have "live_scans h = live_scans g"
      using stopped st delete_absent [OF reg] by (simp add: live_scans_def sums)
    then have "matches ?e h n"
      using m stopped st fl stop by (auto simp: matches_def sums ds_exchange_def)
    moreover have "run ds_step [Refuse, Job_end] d = Some ?e"
      using m run stopped st stop by (simp add: matches_def)
    moreover have "ds_run ?e = Run_result p a f" "start_effect d ?i ?r (a, f) ?e"
      using stopped st by (simp_all add: start_effect_def ds_exchange_def)
    ultimately show ?thesis by blast
  qed
qed

subsection \<open>Scans that have ended\<close>

text \<open>The scans that have called \<^verbatim>\<open>notify_scan_finished\<close>: their sentinel is still to be pushed, or it was.\<close>

definition ended :: "manager \<Rightarrow> (u64 \<times> string) set" where
  "ended g = {(i, r). (\<exists>task. (i, task) \<in> set (mg_registry g) \<and> r = root_path task \<and> signalling i g \<noteq> 0)
     \<or> (\<exists>c. sentinel_event i r c \<in> set (mg_results g))}"

text \<open>Every task row tells of a sentinel that was pushed before.\<close>

definition row_known :: "manager \<Rightarrow> scan_task_row \<Rightarrow> bool" where
  "row_known g row \<longleftrightarrow> (\<exists>c. sentinel_event (st_scan_id row) (st_submit_root row) c \<in> set (mg_results g))"

fun frame_row :: "manager \<Rightarrow> frame \<Rightarrow> bool" where
  "frame_row g (Recording row) = row_known g row"
| "frame_row g _ = True"

definition rows_ok :: "manager \<Rightarrow> bool" where
  "rows_ok g \<longleftrightarrow> distinct (map fst (mg_registry g)) \<and> list_all (row_known g) (mg_rows g)
     \<and> list_all (list_all (frame_row g)) (mg_threads g)"

lemma row_known_mono: "row_known g row \<Longrightarrow> set (mg_results g) \<subseteq> set (mg_results h) \<Longrightarrow> row_known h row"
  by (auto simp: row_known_def)

lemma frame_row_mono: "frame_row g f \<Longrightarrow> set (mg_results g) \<subseteq> set (mg_results h) \<Longrightarrow> frame_row h f"
  using row_known_mono by (cases f) auto

lemma rows_frame:
  assumes "rows_ok g" "frame_row g f" "Manager_frame_step fs now f g = (new, h)"
  shows "distinct (map fst (mg_registry h)) \<and> set (mg_results g) \<subseteq> set (mg_results h)
    \<and> list_all (row_known h) (mg_rows h) \<and> list_all (frame_row h) new"
proof -
  have res: "set (mg_results g) \<subseteq> set (mg_results h)"
    using assms(3) by (cases f) (auto simp: manager_defs Let_def ctx_add_def split: if_splits prod.splits option.splits submit_result.splits)
  then have "list_all (row_known h) (mg_rows g)" using assms(1) row_known_mono by (auto simp: rows_ok_def list_all_iff)
  with assms res show ?thesis
    by (cases f) (auto simp: rows_ok_def manager_defs Let_def ctx_add_def row_known_def distinct_delete
        split: if_splits prod.splits option.splits submit_result.splits)
qed

lemma rows_ok_mono:
  assumes "rows_ok g" "distinct (map fst (mg_registry h))" "set (mg_results g) \<subseteq> set (mg_results h)"
    "list_all (row_known h) (mg_rows h)" "\<And>fr. fr \<in> set (mg_threads h) \<Longrightarrow> fr \<in> set (mg_threads g) \<or> list_all (frame_row h) fr"
  shows "rows_ok h"
  using assms frame_row_mono [of g _ h] unfolding rows_ok_def list_all_iff by blast

lemma rows_work:
  assumes ok: "rows_ok g" and w: "Manager_work fs k now g = Some h"
  shows "rows_ok h"
proof -
  have k: "k < length (mg_threads g)" using w by (simp add: Manager_work_def split: if_splits)
  show ?thesis
  proof (cases "mg_threads g ! k")
    case Nil
    then obtain j q r where "h = set_thread k [Begin j] (g\<lparr>mg_queue := q\<rparr>)"
      using w k by (auto simp: Manager_work_def split: option.splits prod.splits)
    then show ?thesis
      using ok set_update_subset_insert [of "mg_threads g" k "[Begin j]"]
      by (intro rows_ok_mono [OF ok]) (auto simp: rows_ok_def set_thread_def list_all_iff row_known_def)
  next
    case (Cons f fr)
    obtain new s1 where st: "Manager_frame_step fs now f g = (new, s1)" by (cases "Manager_frame_step fs now f g")
    with Cons w k have h: "h = set_thread k (new @ fr) s1" by (simp add: Manager_work_def)
    have top: "list_all (frame_row g) (f # fr)" using ok k Cons nth_mem [OF k] by (auto simp: rows_ok_def list_all_iff)
    then have fr: "list_all (frame_row g) fr" "frame_row g f" by simp_all
    note st1 = rows_frame [OF ok fr(2) st]
    have same: "frame_row h = frame_row s1" "row_known h = row_known s1"
    proof -
      show k: "row_known h = row_known s1" by (simp add: h row_known_def fun_eq_iff)
      show "frame_row h = frame_row s1"
      proof
        fix x show "frame_row h x = frame_row s1 x" by (cases x) (simp_all add: k)
      qed
    qed
    have "list_all (frame_row s1) (new @ fr)" using st1 fr(1) frame_row_mono [of g _ s1] by (auto simp: list_all_iff)
    moreover have "mg_registry h = mg_registry s1" "mg_results h = mg_results s1" "mg_rows h = mg_rows s1"
        "mg_threads h = (mg_threads g)[k := new @ fr]"
      by (simp_all add: h frame_step_threads [OF st])
    ultimately show ?thesis
      using st1 set_update_subset_insert [of "mg_threads g" k "new @ fr"]
      by (intro rows_ok_mono [OF ok]) (auto simp: same)
  qed
qed

lemma start_rows:
  assumes "map_of (mg_registry g) i = None" and "Manager_start_new_scan i r now g = (res, h)"
    and "row \<in> set (mg_rows h)"
  shows "row \<in> set (mg_rows g) \<or> st_scan_id row = i \<and> st_submit_root row = r \<and> sentinel_event i r False \<in> set (mg_results h)"
  using assms by (auto simp: Manager_start_new_scan_def Manager_pool_submit_def Manager_unregister_def Manager_job_tail_def
      ctx_add_def Let_def split: prod.splits submit_result.splits if_splits)

lemma rows_start:
  assumes ok: "rows_ok g" and reg: "map_of (mg_registry g) i = None" and st: "Manager_start_new_scan i r now g = (res, h)"
  shows "rows_ok h"
proof -
  have keys: "distinct (map fst (mg_registry h))" "mg_threads h = mg_threads g" "set (mg_results g) \<subseteq> set (mg_results h)"
    by (cases rule: start_cases [OF reg, of r now];
      use ok reg st in \<open>auto simp: rows_ok_def distinct_delete map_of_eq_None_iff\<close>)+
  have "row_known h row" if "row \<in> set (mg_rows h)" for row
    using start_rows [OF reg st that] ok row_known_mono [OF _ keys(3)] by (auto simp: rows_ok_def list_all_iff row_known_def)
  then have "list_all (row_known h) (mg_rows h)" by (simp add: list_all_iff)
  then show ?thesis using keys by (intro rows_ok_mono [OF ok]) auto
qed

lemma rows_step: "manager_inv g \<Longrightarrow> rows_ok g \<Longrightarrow> manager_step fs m g = Some h \<Longrightarrow> rows_ok h"
proof (cases m)
  case (Start_scan i r now)
  assume a: "manager_inv g" "rows_ok g" "manager_step fs m g = Some h"
  with Start_scan have "mg_ctx g i = None" "h = snd (Manager_start_new_scan i r now g)" by (auto split: if_splits)
  with a show ?thesis using unregistered [of g i] rows_start [of g i r now] by (metis prod.collapse)
next
  case (Work k now)
  assume "rows_ok g" "manager_step fs m g = Some h"
  with Work show ?thesis using rows_work by simp
next
  case (Cancel_scan i)
  assume a: "rows_ok g" "manager_step fs m g = Some h"
  with Cancel_scan show ?thesis
    by (intro rows_ok_mono [OF a(1)]) (auto simp: Manager_cancel_scan_def rows_ok_def row_known_def list_all_iff)
next
  case Shutdown_pool
  assume a: "rows_ok g" "manager_step fs m g = Some h"
  with Shutdown_pool show ?thesis
    by (intro rows_ok_mono [OF a(1)]) (auto simp: Manager_shutdown_pool_def rows_ok_def row_known_def list_all_iff)
qed

text \<open>Who has ended after a step.\<close>

lemma ended_mem: "map_of (mg_registry g) i = Some task \<Longrightarrow> signalling i g \<noteq> 0 \<Longrightarrow>
    (i, root_path task) \<in> ended g"
  by (auto simp: ended_def dest: map_of_SomeD)

lemma not_sentinel [simp]: "node_event fs d \<noteq> sentinel_event i r c" "sentinel_event i r c \<noteq> node_event fs d"
proof -
  have "is_sentinel (fe_end_signal (sentinel_event i r c))" "\<not> is_sentinel (fe_end_signal (node_event fs d))"
    by (simp_all add: sentinel_event_def node_event_signal Sentinel_init_def)
  then show "node_event fs d \<noteq> sentinel_event i r c" "sentinel_event i r c \<noteq> node_event fs d" by metis+
qed

lemma ended_work:
  assumes ok: "keys_ok g" and w: "Manager_work fs k now g = Some h" and p: "p \<in> ended h"
  shows "p \<in> ended g \<or> (\<exists>i. mg_finished h = mg_finished g @ [i] \<and> p \<in> set (live_scans g) \<and> fst p = i)"
proof -
  have k: "k < length (mg_threads g)" using w by (simp add: Manager_work_def split: if_splits)
  show ?thesis
  proof (cases "mg_threads g ! k")
    case Nil
    then obtain j q r where h: "h = set_thread k [Begin j] (g\<lparr>mg_queue := q\<rparr>)"
      using w k by (auto simp: Manager_work_def split: option.splits prod.splits)
    have "signalling i h = signalling i g" for i
      using thread_sum_replace [of k g "[]" "[]" "g\<lparr>mg_queue := q\<rparr>" "frame_signalling i" "[Begin j]"] k Nil h
      by (simp add: signalling_def)
    with p h show ?thesis by (auto simp: ended_def)
  next
    case (Cons f fr)
    obtain new s1 where st: "Manager_frame_step fs now f g = (new, s1)" by (cases "Manager_frame_step fs now f g")
    with Cons w k have h: "h = set_thread k (new @ fr) s1" by (simp add: Manager_work_def)
    have sig: "signalling i h = signalling i g + sum_list (map (frame_signalling i) new) - frame_signalling i f" for i
      using work_frame [OF k Cons st frame_step_threads [OF st], of "frame_signalling i"] h by (simp add: signalling_def)
    show ?thesis
    proof (cases f)
      case (Closing j)
      let ?i = "sd_scan_id j"
      have s0: "signalling ?i g = 0" using closing_not_signalling [OF k _] ok Cons Closing by (simp add: keys_ok_def)
      have parts: "mg_registry h = mg_registry g" "mg_results h = mg_results g" "mg_finished h = mg_finished g @ [?i]"
          "new = [Signalling j (ctx_canceled ?i g) now]"
        using st Closing by (auto simp: h Manager_frame_step_def)
      have "signalling l h = signalling l g + of_bool (l = ?i)" for l using sig [of l] Closing parts(4) by simp
      with p parts s0 show ?thesis by (auto simp: ended_def live_mem split: if_splits)
    next
      case (Signalling j c fin)
      have "frame_signalling (sd_scan_id j) f \<le> signalling (sd_scan_id j) g"
        using thread_sum_ge [OF k Cons, of "frame_signalling (sd_scan_id j)"] by (simp add: signalling_def)
      then have s: "signalling (sd_scan_id j) g \<noteq> 0" using Signalling by simp
      have new: "sum_list (map (frame_signalling l) new) = 0" for l
        using st Signalling by (auto simp: Manager_frame_step_def split: prod.splits option.splits)
      have le: "signalling l h \<noteq> 0 \<Longrightarrow> signalling l g \<noteq> 0" for l
        using sig [of l] new [of l] signalling_closing [of l h] frame_signalling_nonneg [of l f] s Signalling by (auto split: if_splits)
      have reg: "set (mg_registry h) \<subseteq> set (mg_registry g)"
        using st Signalling by (auto simp: h Manager_frame_step_def Manager_unregister_def Let_def AList.delete_eq
            split: option.splits prod.splits if_splits)
      have "sentinel_event i r c' \<in> set (mg_results h) \<Longrightarrow> (i, r) \<in> ended g" for i r c'
        using st Signalling ended_mem [of g "sd_scan_id j"] s
        by (auto simp: h Manager_frame_step_def Manager_unregister_def Let_def ended_def sentinel_event_def
            split: option.splits prod.splits if_splits)
      with p reg le show ?thesis by (auto simp: ended_def [of h]) (auto simp: ended_def)
    next
      case (Begin j)
      with p st sig show ?thesis
        by (auto simp: h begin_step ended_def split: if_splits)
    qed (use p st sig in \<open>auto simp: h Manager_frame_step_def Manager_pool_submit_def Manager_job_tail_def ctx_add_def
        ended_def Let_def split: if_splits prod.splits submit_result.splits\<close>)
  qed
qed

lemma ended_start:
  assumes inv: "manager_inv g" "mg_ctx g i = None" and st: "Manager_start_new_scan i r now g = (res, h)" and p: "p \<in> ended h"
  shows "p \<in> ended g \<or> res = (False, False) \<and> p = (i, r)"
proof -
  have reg: "map_of (mg_registry g) i = None" using inv unregistered by simp
  have "mg_threads h = mg_threads g" by (cases rule: start_cases [OF reg, of r now]) (simp_all add: st)
  then have sig: "signalling l h = signalling l g" for l by (simp add: signalling_def thread_sum_def)
  show ?thesis
    using start_cases [OF reg, of r now] p st sig fresh_signalling [OF inv] delete_absent [OF reg]
    by (cases rule: start_cases [OF reg, of r now]) (auto simp: ended_def sentinel_event_def split: if_splits)
qed

text \<open>A scan has one sentinel.\<close>

lemma sentinel_last:
  assumes "manager_inv g" "e \<in> set (mg_results g)" "is_end e"
  obtains es root c where "results_of (fe_scan_id e) g = es @ [sentinel_event (fe_scan_id e) root c]" "node_events es"
proof -
  have "e \<in> set (results_of (fe_scan_id e) g)" using assms(2) by (simp add: results_of_def)
  then have "\<not> node_events (results_of (fe_scan_id e) g)" using assms(3) by (auto simp: node_events_def is_end_def)
  moreover have "scan_ok (fe_scan_id e) g" using assms(1) by (simp add: manager_inv_def)
  ultimately have "closed_results (fe_scan_id e) (results_of (fe_scan_id e) g)"
    by (auto simp: scan_ok_def phase_ok_def split: option.splits if_splits)
  with \<open>\<not> node_events _\<close> that show thesis by (auto simp: closed_results_def split: if_splits)
qed

lemma sentinel_same:
  assumes "manager_inv g" "e \<in> set (mg_results g)" "is_end e" "e' \<in> set (mg_results g)" "is_end e'" "fe_scan_id e' = fe_scan_id e"
  shows "e' = e"
proof -
  obtain es root c where l: "results_of (fe_scan_id e) g = es @ [sentinel_event (fe_scan_id e) root c]" "node_events es"
    using sentinel_last [OF assms(1-3)] .
  have "x = sentinel_event (fe_scan_id e) root c" if "x \<in> set (mg_results g)" "is_end x" "fe_scan_id x = fe_scan_id e" for x
  proof -
    have "x \<in> set (results_of (fe_scan_id e) g)" using that by (simp add: results_of_def)
    with l that(2) show ?thesis by (auto simp: node_events_def is_end_def)
  qed
  from this [OF assms(2,3) refl] this [OF assms(4-6)] show ?thesis by simp
qed

lemma sentinel_once:
  assumes "manager_inv g" "mg_results g = xs @ ys" "e \<in> set xs" "is_end e" "e' \<in> set ys"
  shows "fe_scan_id e' \<noteq> fe_scan_id e"
proof
  assume i: "fe_scan_id e' = fe_scan_id e"
  let ?f = "filter (\<lambda>x. fe_scan_id x = fe_scan_id e)"
  obtain es root c where l: "results_of (fe_scan_id e) g = es @ [sentinel_event (fe_scan_id e) root c]" "node_events es"
    using sentinel_last [of g e] assms by auto
  have "e' \<in> set (?f ys)" using assms(5) i by simp
  then obtain zs z where z: "?f ys = zs @ [z]" by (metis empty_iff empty_set rev_exhaust)
  with l(1) assms(2) have "es = ?f xs @ zs" by (simp add: results_of_def)
  with l(2) assms(3,4) show False by (auto simp: node_events_def is_end_def)
qed

subsection \<open>The invariant of the composition\<close>

text \<open>A scan that the scheduler has dispatched is neither unknown nor pending.\<close>

definition settled :: "u64 \<Rightarrow> scheduler \<Rightarrow> bool" where
  "settled i sc \<longleftrightarrow> scan_state_of sc i \<noteq> None \<and> scan_state_of sc i \<noteq> Some PENDING"

lemma settled_sections:
  "settled i sc \<Longrightarrow> settled i (Scheduler_notify_scan_finished k sc)"
  "settled i sc \<Longrightarrow> settled i (Scheduler_notify_dispatch_available sc)"
  "settled i sc \<Longrightarrow> settled i (Scheduler_notify_export_done r sc)"
  "settled i sc \<Longrightarrow> settled i (snd (Scheduler_gen_scan_id sc))"
  "settled i sc \<Longrightarrow> settled i (snd (Scheduler_submit_locked k r sc))"
  "settled i sc \<Longrightarrow> settled i (snd (snd (Scheduler_cancel k sc)))"
  "settled i sc \<Longrightarrow> settled i (snd (Scheduler_shutdown sc))"
proof -
  assume s: "settled i sc"
  then show "settled i (Scheduler_notify_scan_finished k sc)"
    by (auto simp: settled_def Scheduler_notify_scan_finished_def Let_def split: option.splits if_splits)
  show "settled i (Scheduler_notify_dispatch_available sc)" "settled i (Scheduler_notify_export_done r sc)"
      "settled i (snd (Scheduler_gen_scan_id sc))"
    using s by (simp_all add: settled_def Scheduler_notify_dispatch_available_def Scheduler_notify_export_done_def Scheduler_gen_scan_id_def)
  show "settled i (snd (Scheduler_submit_locked k r sc))" using s by (auto simp: settled_def Scheduler_submit_locked_def)
  show "settled i (snd (snd (Scheduler_cancel k sc)))" using s by (auto simp: settled_def Scheduler_cancel_def split: option.splits)
  show "settled i (snd (Scheduler_shutdown sc))" using s by (auto simp: settled_def scan_state_shutdown split: option.splits)
qed

lemma settled_pick:
  "Scheduler_run_pick sc = Some (pc, sc') \<Longrightarrow> settled i sc \<Longrightarrow> settled i sc'"
  "Scheduler_run_pick sc = Some (Run_dispatch p, sc') \<Longrightarrow> scan_state_of sc (pr_scan_id p) = Some PENDING \<and> settled (pr_scan_id p) sc'"
  by (auto simp: Scheduler_run_pick_def settled_def Let_def split: if_splits)

lemma pick_pc: "Scheduler_run_pick sc = Some (pc, sc') \<Longrightarrow> pc = Run_exited \<or> pc = Run_top \<or> (\<exists>p. pc = Run_dispatch p)"
  by (auto simp: Scheduler_run_pick_def Let_def split: if_splits)

lemma settled_result:
  "settled i sc \<Longrightarrow> i \<noteq> pr_scan_id p \<or> acc \<or> \<not> full \<Longrightarrow> settled i (snd (Scheduler_run_result p acc full sc))"
  by (cases "i = pr_scan_id p") (auto simp: settled_def Scheduler_run_result_def Let_def split: option.splits)

lemma settled_fold: "settled i sc \<Longrightarrow> settled i (fold Scheduler_notify_scan_finished ks sc)"
  by (induction ks arbitrary: sc) (simp_all add: settled_sections)

end
