(* ===== verification/Scan_Daemon_Properties.thy ===== *)
theory Scan_Daemon_Properties
  imports Scan_Daemon
begin

section \<open>The scan daemon refines the dispatch system\<close>

text \<open>
  The invariant of the composed system of theory \<open>Scan_Daemon\<close>, the simulation of each of its moves by
  moves of \<open>Dispatch_System\<close>, and what the scheduler's properties then say of the real manager and exporter.
\<close>

subsection \<open>The invariant of the composition\<close>

text \<open>The manager knows the scans that were dispatched, and no others.\<close>

fun run_fresh :: "manager \<Rightarrow> scheduler \<Rightarrow> run_pc \<Rightarrow> bool" where
  "run_fresh g sc (Run_dispatch p) \<longleftrightarrow> mg_ctx g (pr_scan_id p) = None \<and> settled (pr_scan_id p) sc"
| "run_fresh g sc (Run_result p False True) \<longleftrightarrow> mg_ctx g (pr_scan_id p) = None"
| "run_fresh g sc pc \<longleftrightarrow> True"

definition fresh_ok :: "manager \<Rightarrow> scheduler \<Rightarrow> run_pc \<Rightarrow> bool" where
  "fresh_ok g sc pc \<longleftrightarrow> (\<forall>i. mg_ctx g i \<noteq> None \<longrightarrow> settled i sc) \<and> run_fresh g sc pc"

text \<open>The exporter's task rows come from the manager.\<close>

definition pend_ok :: "manager \<Rightarrow> export_manager \<Rightarrow> bool" where
  "pend_ok g x \<longleftrightarrow> (\<forall>(i, row) \<in> set (ex_pending_rows x). i = st_scan_id row \<and> row_known g row)"

definition due_ok :: "scan_daemon \<Rightarrow> bool" where
  "due_ok s \<longleftrightarrow> distinct (map fst (da_due s))
     \<and> (\<forall>(i, r) \<in> set (da_due s). \<exists>c. sentinel_event i r c \<in> set (sv_taken (da_serv s)))"

definition serv_ok :: "scan_daemon \<Rightarrow> bool" where
  "serv_ok s \<longleftrightarrow> service_inv (da_serv s) \<and> rows_ok (sv_mgr (da_serv s))
     \<and> pend_ok (sv_mgr (da_serv s)) (sv_exp (da_serv s)) \<and> due_ok s
     \<and> (sv_pc (da_serv s) \<noteq> Serving \<longrightarrow> sc_stop_flag (da_sched s))"

definition daemon_ok :: "scan_daemon \<Rightarrow> bool" where
  "daemon_ok s \<longleftrightarrow> serv_ok s \<and> fresh_ok (sv_mgr (da_serv s)) (da_sched s) (da_run s)"

lemma serv_ok_keys: "serv_ok s \<Longrightarrow> keys_ok (sv_mgr (da_serv s))"
  by (simp add: serv_ok_def keys_ok_def service_inv_def rows_ok_def)

text \<open>A start is the only move that makes a context.\<close>

lemma ctx_same:
  assumes "manager_step fs m g = Some h" "\<And>i r now. m \<noteq> Start_scan i r now"
  shows "(mg_ctx h i = None) = (mg_ctx g i = None)"
proof (cases m)
  case (Work k now)
  with assms(1) have w: "Manager_work fs k now g = Some h" by simp
  then have k: "k < length (mg_threads g)" by (simp add: Manager_work_def split: if_splits)
  show ?thesis
  proof (cases "mg_threads g ! k")
    case Nil
    with w k show ?thesis by (auto simp: Manager_work_def split: option.splits prod.splits)
  next
    case (Cons f fr)
    obtain new s1 where st: "Manager_frame_step fs now f g = (new, s1)" by (cases "Manager_frame_step fs now f g")
    with Cons w k have "h = set_thread k (new @ fr) s1" by (simp add: Manager_work_def)
    moreover have "(mg_ctx s1 i = None) = (mg_ctx g i = None)"
      using st by (cases f; auto simp: manager_defs ctx_add_def Let_def
        split: if_splits prod.splits submit_result.splits option.splits)
    ultimately show ?thesis by simp
  qed
qed (use assms in \<open>auto simp: Manager_cancel_scan_def Manager_shutdown_pool_def split: if_splits\<close>)

lemma start_ctx:
  assumes "manager_inv g" "mg_ctx g i = None" "Manager_start_new_scan i r now g = ((acc, full), h)"
  shows "(mg_ctx h j = None) = (mg_ctx g j = None \<and> (j \<noteq> i \<or> \<not> acc \<and> full))"
  using start_cases [OF unregistered [OF assms(1,2)], of r now] assms(2,3)
  by (cases rule: start_cases [OF unregistered [OF assms(1,2)], of r now]) (auto split: if_splits)

lemma run_fresh_mono:
  assumes "run_fresh g sc pc" "\<And>i. settled i sc \<Longrightarrow> settled i sc'" "\<And>i. (mg_ctx h i = None) = (mg_ctx g i = None)"
  shows "run_fresh h sc' pc"
  using assms by (cases "(g, sc, pc)" rule: run_fresh.cases) auto

lemma fresh_ok_mono:
  assumes "fresh_ok g sc pc" "\<And>i. settled i sc \<Longrightarrow> settled i sc'" "\<And>i. (mg_ctx h i = None) = (mg_ctx g i = None)"
  shows "fresh_ok h sc' pc"
  using run_fresh_mono [OF _ assms(2,3)] assms by (auto simp: fresh_ok_def)

lemma fresh_pick:
  assumes "fresh_ok g sc Run_top" "Scheduler_run_pick sc = Some (pc, sc')"
  shows "fresh_ok g sc' pc"
proof -
  have "settled i sc'" if "mg_ctx g i \<noteq> None" for i using assms that settled_pick(1) by (auto simp: fresh_ok_def)
  moreover have "run_fresh g sc' pc"
    using pick_pc [OF assms(2)] settled_pick(2) [of sc _ sc'] assms by (auto simp: fresh_ok_def settled_def)
  ultimately show ?thesis by (simp add: fresh_ok_def)
qed

lemma result_pc: "fst (Scheduler_run_result p acc full sc) = Run_top \<or> (\<exists>i. fst (Scheduler_run_result p acc full sc) = Run_late_cancel i)"
  by (auto simp: Scheduler_run_result_def Let_def split: option.splits)

lemma fresh_result:
  assumes "fresh_ok g sc (Run_result p acc full)" "Scheduler_run_result p acc full sc = (pc, sc')"
  shows "fresh_ok g sc' pc"
proof -
  have "settled i sc'" if "mg_ctx g i \<noteq> None" for i
    using assms that settled_result [of i sc p acc full]
    by (cases "i = pr_scan_id p"; cases acc; cases full) (auto simp: fresh_ok_def)
  moreover have "run_fresh g sc' pc" using result_pc [of p acc full sc] assms(2) by auto
  ultimately show ?thesis by (simp add: fresh_ok_def)
qed

subsection \<open>The moves of the scan service keep it\<close>

lemma stop_flag_fold [simp]: "sc_stop_flag (fold Scheduler_notify_scan_finished ks sc) = sc_stop_flag sc"
  by (induction ks arbitrary: sc) simp_all

lemma da_manager_parts:
  assumes "da_manager fs m s = Some t"
  shows "da_sched t = fold Scheduler_notify_scan_finished
      (drop (length (mg_finished (sv_mgr (da_serv s)))) (mg_finished (sv_mgr (da_serv t)))) (da_sched s)"
    "da_run t = da_run s" "da_inflight t = da_inflight s" "da_due t = da_due s" "da_notified t = da_notified s"
  using assms by (auto simp: da_manager_def split: option.splits)

lemma da_manager_cases:
  assumes "da_manager fs m s = Some t"
  obtains h new where "manager_step fs m (sv_mgr (da_serv s)) = Some h" "service_manager fs m (da_serv s) = Some (da_serv t)"
    "sv_mgr (da_serv t) = h" "mg_results h = mg_results (sv_mgr (da_serv s)) @ new"
    "sv_taken (da_serv t) = sv_taken (da_serv s)" "sv_pc (da_serv t) = Serving \<longleftrightarrow> sv_pc (da_serv s) = Serving"
    "sv_exp (da_serv t) = fold ExportManager_insert_scan_task
       (drop (length (mg_rows (sv_mgr (da_serv s)))) (mg_rows h)) (sv_exp (da_serv s))"
proof -
  from assms obtain v where v: "service_manager fs m (da_serv s) = Some v" "t = s\<lparr>da_serv := v,
      da_sched := fold Scheduler_notify_scan_finished
        (drop (length (mg_finished (sv_mgr (da_serv s)))) (mg_finished (sv_mgr v))) (da_sched s)\<rparr>"
    by (auto simp: da_manager_def split: option.splits)
  obtain h where h: "manager_step fs m (sv_mgr (da_serv s)) = Some h" "sv_mgr v = h" "sv_taken v = sv_taken (da_serv s)"
      "sv_exp v = fold ExportManager_insert_scan_task
       (drop (length (mg_rows (sv_mgr (da_serv s)))) (mg_rows h)) (sv_exp (da_serv s))"
    using v(1) by (auto simp: service_manager_def split: option.splits prod.splits)
  obtain new where new: "mg_results h = mg_results (sv_mgr (da_serv s)) @ new" using results_grow [OF h(1)] by blast
  have "sv_pc v = Serving \<longleftrightarrow> sv_pc (da_serv s) = Serving"
    using service_manager_pc [OF v(1)] by (auto simp: wake_up_def split: shutdown_pc.splits)
  with v h new show thesis by (intro that [of h new]) simp_all
qed

lemma pend_insert:
  assumes "pend_ok g x" "\<forall>row \<in> set rows. row_known h row" "set (mg_results g) \<subseteq> set (mg_results h)"
  shows "pend_ok h (fold ExportManager_insert_scan_task rows x)"
proof -
  have "pend_ok h x" using assms(1,3) row_known_mono by (fastforce simp: pend_ok_def)
  then show ?thesis
    using assms(2)
  proof (induction rows arbitrary: x)
    case (Cons row rows)
    have "set (AList.update k v xs) \<subseteq> insert (k, v) (set xs)" for k v and xs :: "(u64 \<times> scan_task_row) list"
      by (induction xs) auto
    with Cons.prems have "pend_ok h (ExportManager_insert_scan_task row x)"
      by (fastforce simp: pend_ok_def ExportManager_insert_scan_task_def)
    with Cons show ?case by simp
  qed simp
qed

lemma serv_manager:
  assumes ok: "serv_ok s" and m: "m \<noteq> Shutdown_pool" and t: "da_manager fs m s = Some t"
  shows "serv_ok t"
proof (rule da_manager_cases [OF t])
  fix h new
  assume h: "manager_step fs m (sv_mgr (da_serv s)) = Some h" "service_manager fs m (da_serv s) = Some (da_serv t)"
    "sv_mgr (da_serv t) = h" "mg_results h = mg_results (sv_mgr (da_serv s)) @ new"
    and v: "sv_taken (da_serv t) = sv_taken (da_serv s)" "sv_pc (da_serv t) = Serving \<longleftrightarrow> sv_pc (da_serv s) = Serving"
    and e: "sv_exp (da_serv t) = fold ExportManager_insert_scan_task
       (drop (length (mg_rows (sv_mgr (da_serv s)))) (mg_rows h)) (sv_exp (da_serv s))"
  have i: "service_inv (da_serv t)" using ok inv_manager_move [OF _ m h(2)] by (simp add: serv_ok_def)
  have r: "rows_ok h" using ok rows_step [OF _ _ h(1)] by (simp add: serv_ok_def service_inv_def)
  then have "pend_ok h (sv_exp (da_serv t))"
    unfolding e using ok h(4) by (intro pend_insert) (auto simp: serv_ok_def rows_ok_def list_all_iff dest: in_set_dropD)
  moreover have "da_due t = da_due s" "sc_stop_flag (da_sched t) = sc_stop_flag (da_sched s)"
    using da_manager_parts [OF t] by simp_all
  ultimately show ?thesis using ok i r v h(3) by (simp add: serv_ok_def due_ok_def)
qed

subsection \<open>The exporter's turns keep it\<close>

text \<open>A turn that calls nobody, or the end of a scan, whose root is the one its sentinel names.\<close>

lemma write_result_notified:
  assumes "y = ExportManager_write_result message glob e x"
  shows "set (ex_pending_rows y) \<subseteq> set (ex_pending_rows x)"
    "ex_notified y = ex_notified x \<or> (\<exists>row. is_end e \<and> map_of (ex_pending_rows x) (fe_scan_id e) = Some row
        \<and> ex_notified y = ex_notified x @ [if st_submit_root row = [] then fe_path e else st_submit_root row])"
  using assms by (auto simp: is_end_def export_defs Let_def AList.delete_eq split: option.splits if_splits)

lemma da_export_cases:
  assumes ok: "serv_ok s" and t: "da_export message glob s = Some t"
  obtains v due where "service_export message glob (da_serv s) = Some v" "t = s\<lparr>da_serv := v, da_due := da_due s @ due\<rparr>"
    "sv_mgr v = sv_mgr (da_serv s)" "sv_pc v = sv_pc (da_serv s)"
    "set (ex_pending_rows (sv_exp v)) \<subseteq> set (ex_pending_rows (sv_exp (da_serv s)))"
    "due = [] \<and> (sv_taken v = sv_taken (da_serv s) \<or> (\<exists>e. sv_taken v = sv_taken (da_serv s) @ [e]))
     \<or> (\<exists>i r c. due = [(i, r)] \<and> sv_taken v = sv_taken (da_serv s) @ [sentinel_event i r c]
          \<and> (\<exists>es. jq_container (sv_queue (da_serv s)) = sentinel_event i r c # es))"
proof -
  let ?s = "da_serv s"
  obtain v where v: "service_export message glob ?s = Some v" "t = s\<lparr>da_serv := v,
        da_due := da_due s @ map (Pair (fe_scan_id (last (sv_taken v)))) (drop (length (ex_notified (sv_exp ?s))) (ex_notified (sv_exp v)))\<rparr>"
    using t by (auto simp: da_export_def split: option.splits)
  have inv: "service_inv ?s" using ok by (simp add: serv_ok_def)
  show thesis
  proof (cases "jq_container (sv_queue ?s)")
    case Nil
    with v(1) have "v = ?s\<lparr>sv_exp := ExportManager_close (sv_exp ?s)\<rparr>"
      by (auto simp: service_export_def JobQueue_pop_def split: if_splits)
    with v show thesis by (intro that [of v "[]"]) (simp_all add: ExportManager_close_def ExportManager_commit_batch_def)
  next
    case (Cons e es)
    let ?x = "ExportManager_write_result message glob e (sv_exp ?s)"
    have c: "sv_mgr v = sv_mgr ?s" "sv_pc v = sv_pc ?s" "sv_exp v = ?x" "sv_taken v = sv_taken ?s @ [e]"
      using v(1) Cons inv by (auto simp: service_export_def JobQueue_pop_def service_inv_def flow_ok_def split: if_splits)
    note w = write_result_notified [OF refl, of message glob e "sv_exp ?s"]
    show thesis
      using w(2)
    proof (elim disjE exE conjE)
      assume "ex_notified ?x = ex_notified (sv_exp ?s)"
      with v c w(1) show thesis by (intro that [of v "[]"]) simp_all
    next
      fix row
      assume e: "is_end e" and row: "map_of (ex_pending_rows (sv_exp ?s)) (fe_scan_id e) = Some row"
        and n: "ex_notified ?x = ex_notified (sv_exp ?s) @ [if st_submit_root row = [] then fe_path e else st_submit_root row]"
      have "(fe_scan_id e, row) \<in> set (ex_pending_rows (sv_exp ?s))" using row by (rule map_of_SomeD)
      then obtain c' where known: "fe_scan_id e = st_scan_id row"
          "sentinel_event (st_scan_id row) (st_submit_root row) c' \<in> set (mg_results (sv_mgr ?s))"
        using ok by (fastforce simp: serv_ok_def pend_ok_def row_known_def)
      have mem: "e \<in> set (mg_results (sv_mgr ?s))" using inv Cons by (simp add: service_inv_def flow_ok_def)
      have sent: "is_end (sentinel_event (st_scan_id row) (st_submit_root row) c')"
        by (simp add: is_end_def sentinel_event_def)
      have eq: "e = sentinel_event (fe_scan_id e) (st_submit_root row) c'"
        using sentinel_same [OF _ known(2) sent mem e] inv known(1) by (simp add: service_inv_def sentinel_event_id)
      then have "fe_path e = st_submit_root row" by (metis file_event.select_convs(5) sentinel_event_def)
      with v c w(1) n Cons eq show thesis
        by (intro that [of v "[(fe_scan_id e, st_submit_root row)]"]) (auto split: if_splits)
    qed
  qed
qed

text \<open>A sentinel that is still queued has not been taken.\<close>

lemma queued_not_taken:
  assumes "service_inv v" "jq_container (sv_queue v) = sentinel_event i r c # es"
  shows "sentinel_event i r' c' \<notin> set (sv_taken v)"
proof
  assume "sentinel_event i r' c' \<in> set (sv_taken v)"
  moreover have "sentinel_event i r c \<in> set (jq_container (sv_queue v) @ sv_refused v)" using assms(2) by simp
  moreover have "manager_inv (sv_mgr v)" "mg_results (sv_mgr v) = sv_taken v @ (jq_container (sv_queue v) @ sv_refused v)"
    using assms(1) by (simp_all add: service_inv_def flow_ok_def)
  moreover have "is_end (sentinel_event i r c)" for i r c by (simp add: is_end_def sentinel_event_def)
  ultimately show False using sentinel_once sentinel_event_id by metis
qed

lemma serv_export:
  assumes ok: "serv_ok s" and t: "da_export message glob s = Some t"
  shows "serv_ok t"
proof (rule da_export_cases [OF ok t])
  fix v due
  assume v: "service_export message glob (da_serv s) = Some v" and t': "t = s\<lparr>da_serv := v, da_due := da_due s @ due\<rparr>"
    and same: "sv_mgr v = sv_mgr (da_serv s)" "sv_pc v = sv_pc (da_serv s)"
    and pend: "set (ex_pending_rows (sv_exp v)) \<subseteq> set (ex_pending_rows (sv_exp (da_serv s)))"
    and due: "due = [] \<and> (sv_taken v = sv_taken (da_serv s) \<or> (\<exists>e. sv_taken v = sv_taken (da_serv s) @ [e]))
     \<or> (\<exists>i r c. due = [(i, r)] \<and> sv_taken v = sv_taken (da_serv s) @ [sentinel_event i r c]
          \<and> (\<exists>es. jq_container (sv_queue (da_serv s)) = sentinel_event i r c # es))"
  have inv: "service_inv (da_serv s)" and d: "due_ok s" using ok by (simp_all add: serv_ok_def)
  have "due_ok t"
    using due
  proof (elim disjE exE conjE)
    fix i r c es
    assume new: "due = [(i, r)]" "sv_taken v = sv_taken (da_serv s) @ [sentinel_event i r c]"
      and q: "jq_container (sv_queue (da_serv s)) = sentinel_event i r c # es"
    have "i \<notin> fst ` set (da_due s)" using d queued_not_taken [OF inv q] by (auto simp: due_ok_def)
    with d new show ?thesis by (auto simp: due_ok_def t')
  qed (use d in \<open>auto simp: due_ok_def t'\<close>)
  moreover have "pend_ok (sv_mgr v) (sv_exp v)" using ok same(1) pend by (auto simp: serv_ok_def pend_ok_def)
  ultimately show ?thesis using ok inv_export [OF inv v] same by (simp add: serv_ok_def t')
qed

subsection \<open>Every move keeps the invariant\<close>

lemma cancel_same_parts [simp]:
  "mg_registry (snd (Manager_cancel_scan i g)) = mg_registry g" "mg_threads (snd (Manager_cancel_scan i g)) = mg_threads g"
  "mg_results (snd (Manager_cancel_scan i g)) = mg_results g" "mg_rows (snd (Manager_cancel_scan i g)) = mg_rows g"
  "mg_finished (snd (Manager_cancel_scan i g)) = mg_finished g" "mg_queue (snd (Manager_cancel_scan i g)) = mg_queue g"
  "mg_dispatch_failed (snd (Manager_cancel_scan i g)) = mg_dispatch_failed g"
  "mg_available (snd (Manager_cancel_scan i g)) = mg_available g"
  by (simp_all add: Manager_cancel_scan_def)

lemma cancel_ctx: "(mg_ctx (snd (Manager_cancel_scan j g)) i = None) = (mg_ctx g i = None)"
  by (auto simp: Manager_cancel_scan_def)

lemma shutdown_same_parts [simp]:
  "mg_registry (Manager_shutdown_pool g) = mg_registry g" "mg_threads (Manager_shutdown_pool g) = mg_threads g"
  "mg_results (Manager_shutdown_pool g) = mg_results g" "mg_rows (Manager_shutdown_pool g) = mg_rows g"
  "mg_finished (Manager_shutdown_pool g) = mg_finished g" "mg_ctx (Manager_shutdown_pool g) = mg_ctx g"
  "mg_dispatch_failed (Manager_shutdown_pool g) = mg_dispatch_failed g"
  "mg_available (Manager_shutdown_pool g) = mg_available g" "jq_stop_flag (mg_queue (Manager_shutdown_pool g))"
  by (simp_all add: Manager_shutdown_pool_def JobQueue_shutdown_def)

lemma service_cancel_frame:
  assumes "service_manager fs (Cancel_scan i) v = Some w"
  shows "sv_mgr w = snd (Manager_cancel_scan i (sv_mgr v))" "sv_taken w = sv_taken v" "sv_exp w = sv_exp v"
  using assms by (simp_all add: service_manager_def) auto

text \<open>The thread in \<^verbatim>\<open>shutdown\<close>, as far as the other parts see it.\<close>

lemma service_stop_frame:
  assumes st: "service_stop fs v = Some w"
  shows "(sv_pc v \<noteq> Stopping_pool \<and> (sv_mgr w = sv_mgr v \<or> (\<exists>i. sv_mgr w = snd (Manager_cancel_scan i (sv_mgr v))))
      \<or> sv_pc v = Stopping_pool \<and> sv_mgr w = Manager_shutdown_pool (sv_mgr v))
    \<and> sv_taken w = sv_taken v \<and> sv_exp w = sv_exp v \<and> sv_pc v \<noteq> Serving \<and> sv_pc w \<noteq> Serving"
proof (cases "sv_pc v")
  case (Cancelling todo ids)
  show ?thesis
  proof (cases todo)
    case Nil
    with Cancelling st show ?thesis by (auto simp: service_stop_def)
  next
    case (Cons i rest)
    with Cancelling st obtain u where "service_manager fs (Cancel_scan i) v = Some u" "w = u\<lparr>sv_pc := Cancelling rest ids\<rparr>"
      by (auto simp: service_stop_def)
    with service_cancel_frame [of fs i v u] Cancelling show ?thesis by auto
  qed
qed (use st in \<open>auto simp: service_stop_def split: list.splits if_splits\<close>)

lemma rows_ok_same: "mg_registry h = mg_registry g \<Longrightarrow> mg_threads h = mg_threads g \<Longrightarrow> mg_results h = mg_results g \<Longrightarrow>
    mg_rows h = mg_rows g \<Longrightarrow> rows_ok g \<Longrightarrow> rows_ok h"
  by (rule rows_ok_mono) (auto simp: rows_ok_def row_known_def list_all_iff)

lemma pend_ok_same: "mg_results h = mg_results g \<Longrightarrow> pend_ok h x = pend_ok g x"
  by (simp add: pend_ok_def row_known_def)

lemma serv_stop:
  assumes ok: "serv_ok s" and w: "service_stop fs (da_serv s) = Some w"
  shows "serv_ok (s\<lparr>da_serv := w\<rparr>)"
proof -
  have inv: "service_inv (da_serv s)" using ok by (simp add: serv_ok_def)
  note f = service_stop_frame [OF w]
  then have "rows_ok (sv_mgr w)" "mg_results (sv_mgr w) = mg_results (sv_mgr (da_serv s))"
    using ok rows_ok_same [of "sv_mgr w" "sv_mgr (da_serv s)"] by (auto simp: serv_ok_def)
  with f ok inv_stop [OF inv w] pend_ok_same [of "sv_mgr w" "sv_mgr (da_serv s)"] show ?thesis
    by (simp add: serv_ok_def due_ok_def)
qed

text \<open>A move of the scheduler alone.\<close>

lemma serv_sched: "serv_ok s \<Longrightarrow> sc_stop_flag (da_sched s) \<longrightarrow> sc_stop_flag (da_sched t) \<Longrightarrow> da_serv t = da_serv s \<Longrightarrow>
    da_due t = da_due s \<Longrightarrow> serv_ok t"
  by (auto simp: serv_ok_def due_ok_def)

lemma stop_flag_sections [simp]:
  "sc_stop_flag (snd (Scheduler_gen_scan_id sc)) = sc_stop_flag sc"
  "sc_stop_flag (Scheduler_notify_dispatch_available sc) = sc_stop_flag sc"
  "sc_stop_flag (Scheduler_notify_export_done r sc) = sc_stop_flag sc"
  by (simp_all add: Scheduler_gen_scan_id_def Scheduler_notify_dispatch_available_def Scheduler_notify_export_done_def)

lemma stop_flag_submit [simp]: "sc_stop_flag (snd (Scheduler_submit_locked i r sc)) = sc_stop_flag sc"
  by (auto simp: Scheduler_submit_locked_def)

lemma stop_flag_cancel [simp]: "sc_stop_flag (snd (snd (Scheduler_cancel i sc))) = sc_stop_flag sc"
  by (auto simp: Scheduler_cancel_def split: option.splits)

declare run_result_frame(1) [simp]

lemma stop_flag_pick: "Scheduler_run_pick sc = Some (pc, sc') \<Longrightarrow> sc_stop_flag sc' = sc_stop_flag sc"
  by (auto simp: Scheduler_run_pick_def Let_def split: if_splits)

lemma fresh_manager:
  assumes ok: "daemon_ok s" and m: "\<And>i r now. m \<noteq> Start_scan i r now" and t: "da_manager fs m s = Some t"
  shows "fresh_ok (sv_mgr (da_serv t)) (da_sched t) (da_run s)"
proof (rule da_manager_cases [OF t])
  fix h new
  assume h: "manager_step fs m (sv_mgr (da_serv s)) = Some h" "sv_mgr (da_serv t) = h"
  have st: "settled i (da_sched t)" if "settled i (da_sched s)" for i using settled_fold [OF that] da_manager_parts(1) [OF t] by simp
  have "fresh_ok (sv_mgr (da_serv s)) (da_sched s) (da_run s)" using ok by (simp add: daemon_ok_def)
  from fresh_ok_mono [OF this st ctx_same [OF h(1) m]] show ?thesis using h(2) by simp
qed

lemma fresh_start:
  assumes ok: "daemon_ok s" and run: "da_run s = Run_dispatch p"
    and res: "fst (Manager_start_new_scan (pr_scan_id p) (pr_root p) now (sv_mgr (da_serv s))) = (acc, full)"
    and t: "da_manager fs (Start_scan (pr_scan_id p) (pr_root p) now) s = Some t"
  shows "fresh_ok (sv_mgr (da_serv t)) (da_sched t) (Run_result p acc full)"
proof (rule da_manager_cases [OF t])
  fix h new
  assume h: "manager_step fs (Start_scan (pr_scan_id p) (pr_root p) now) (sv_mgr (da_serv s)) = Some h" "sv_mgr (da_serv t) = h"
  let ?g = "sv_mgr (da_serv s)"
  have inv: "manager_inv ?g" and f: "fresh_ok ?g (da_sched s) (Run_dispatch p)"
    using ok run by (simp_all add: daemon_ok_def serv_ok_def service_inv_def)
  have fresh: "mg_ctx ?g (pr_scan_id p) = None" using f by (simp add: fresh_ok_def)
  have "Manager_start_new_scan (pr_scan_id p) (pr_root p) now ?g = ((acc, full), h)"
    using h(1) res fresh by (cases "Manager_start_new_scan (pr_scan_id p) (pr_root p) now ?g") simp
  note ctx = start_ctx [OF inv fresh this]
  have "settled i (da_sched t)" if "settled i (da_sched s)" for i using settled_fold [OF that] da_manager_parts(1) [OF t] by simp
  then have "settled i (da_sched t)" if "mg_ctx h i \<noteq> None" for i using that ctx [of i] f by (auto simp: fresh_ok_def)
  moreover have "run_fresh h (da_sched t) (Run_result p acc full)" using ctx [of "pr_scan_id p"] fresh by (cases acc; cases full) simp_all
  ultimately show ?thesis using h(2) by (simp add: fresh_ok_def)
qed

lemma fresh_sched:
  "fresh_ok g sc pc \<Longrightarrow> fresh_ok g (snd (Scheduler_gen_scan_id sc)) pc"
  "fresh_ok g sc pc \<Longrightarrow> fresh_ok g (snd (Scheduler_submit_locked k r sc)) pc"
  "fresh_ok g sc pc \<Longrightarrow> fresh_ok g (snd (snd (Scheduler_cancel k sc))) pc"
  "fresh_ok g sc pc \<Longrightarrow> fresh_ok g (snd (Scheduler_shutdown sc)) pc"
  "fresh_ok g sc pc \<Longrightarrow> fresh_ok g (Scheduler_notify_dispatch_available sc) pc"
  "fresh_ok g sc pc \<Longrightarrow> fresh_ok g (Scheduler_notify_export_done r sc) pc"
  by (erule fresh_ok_mono, simp_all add: settled_sections)+

lemma fresh_top: "fresh_ok g sc pc \<Longrightarrow> fresh_ok g sc Run_top" by (simp add: fresh_ok_def)

lemma daemon_ok_step:
  assumes ok: "daemon_ok s" and t: "core_step fs message glob m s = Some t"
  shows "daemon_ok t"
proof -
  have so: "serv_ok s" and fo: "fresh_ok (sv_mgr (da_serv s)) (da_sched s) (da_run s)" using ok by (simp_all add: daemon_ok_def)
  show ?thesis
  proof (cases m)
    case (Core_gen root)
    with t have "\<exists>l. t = s\<lparr>da_sched := snd (Scheduler_gen_scan_id (da_sched s)), da_inflight := l\<rparr>"
      by (auto split: if_splits prod.splits)
    with fo show ?thesis by (auto simp: daemon_ok_def fresh_sched intro!: serv_sched [OF so])
  next
    case (Core_enqueue i root)
    with t fo show ?thesis
      by (auto simp: daemon_ok_def fresh_sched split: if_splits intro!: serv_sched [OF so])
  next
    case (Core_cancel i)
    with t have "\<exists>l. t = s\<lparr>da_sched := snd (snd (Scheduler_cancel i (da_sched s))), da_cancels := l\<rparr>"
      by (auto split: prod.splits)
    with fo show ?thesis by (auto simp: daemon_ok_def fresh_sched intro!: serv_sched [OF so])
  next
    case (Core_cancel_manager i)
    with t obtain u where u: "da_manager fs (Cancel_scan i) s = Some u" "t = u\<lparr>da_cancels := remove1 i (da_cancels u)\<rparr>"
      by (auto split: if_splits)
    have "da_run u = da_run s" using u(1) by (auto simp: da_manager_def split: option.splits)
    with u serv_manager [OF so _ u(1)] fresh_manager [OF ok _ u(1)] show ?thesis
      by (simp add: daemon_ok_def serv_ok_def due_ok_def)
  next
    case Core_pick
    with t obtain pc sc where p: "da_run s = Run_top" "Scheduler_run_pick (da_sched s) = Some (pc, sc)"
        "t = s\<lparr>da_sched := sc, da_run := pc\<rparr>"
      by (auto split: if_splits option.splits)
    with fo fresh_pick [OF _ p(2)] stop_flag_pick [OF p(2)] show ?thesis
      by (auto simp: daemon_ok_def intro!: serv_sched [OF so])
  next
    case (Core_dispatch now)
    with t obtain p acc full u where u: "da_run s = Run_dispatch p"
        "fst (Manager_start_new_scan (pr_scan_id p) (pr_root p) now (sv_mgr (da_serv s))) = (acc, full)"
        "da_manager fs (Start_scan (pr_scan_id p) (pr_root p) now) s = Some u" "t = u\<lparr>da_run := Run_result p acc full\<rparr>"
      by (auto split: run_pc.splits prod.splits)
    with serv_manager [OF so _ u(3)] fresh_start [OF ok u(1-3)] show ?thesis
      by (simp add: daemon_ok_def serv_ok_def due_ok_def)
  next
    case Core_return
    with t obtain p acc full pc sc where p: "da_run s = Run_result p acc full"
        "Scheduler_run_result p acc full (da_sched s) = (pc, sc)" "t = s\<lparr>da_sched := sc, da_run := pc\<rparr>"
      by (auto split: run_pc.splits prod.splits)
    with fo fresh_result [OF _ p(2)] run_result_frame(1) [of p acc full "da_sched s"] show ?thesis
      by (auto simp: daemon_ok_def intro!: serv_sched [OF so])
  next
    case Core_late_cancel
    with t obtain i u where u: "da_run s = Run_late_cancel i" "da_manager fs (Cancel_scan i) s = Some u" "t = u\<lparr>da_run := Run_top\<rparr>"
      by (auto split: run_pc.splits)
    with serv_manager [OF so _ u(2)] fresh_manager [OF ok _ u(2)] fresh_top show ?thesis
      by (fastforce simp: daemon_ok_def serv_ok_def due_ok_def)
  next
    case (Core_work k now)
    with t have u: "da_manager fs (Work k now) s = Some t" by simp
    have "da_run t = da_run s" using u by (auto simp: da_manager_def split: option.splits)
    with serv_manager [OF so _ u] fresh_manager [OF ok _ u] show ?thesis by (simp add: daemon_ok_def)
  next
    case Core_export
    with t have u: "da_export message glob s = Some t" by simp
    then have "sv_mgr (da_serv t) = sv_mgr (da_serv s)" "da_sched t = da_sched s" "da_run t = da_run s"
      by (auto simp: da_export_def service_export_def split: option.splits prod.splits if_splits)
    with serv_export [OF so u] fo show ?thesis by (simp add: daemon_ok_def)
  next
    case Core_available
    with t fo show ?thesis
      by (auto simp: daemon_ok_def fresh_sched split: if_splits intro!: serv_sched [OF so])
  next
    case (Core_release i root)
    with t have u: "t = s\<lparr>da_sched := Scheduler_notify_export_done root (da_sched s), da_due := remove1 (i, root) (da_due s)\<rparr>"
      by (simp split: if_splits)
    have "due_ok s" using so by (simp add: serv_ok_def)
    then have "due_ok t"
      using set_remove1_subset [of "(i, root)" "da_due s"] by (force simp: due_ok_def u distinct_fst_remove1)
    with u fo so show ?thesis by (simp add: daemon_ok_def fresh_sched serv_ok_def)
  next
    case Core_shutdown
    with t have u: "t = s\<lparr>da_sched := snd (Scheduler_shutdown (da_sched s)), da_serv := (da_serv s)\<lparr>sv_pc :=
        Cancelling (fst (Scheduler_shutdown (da_sched s))) (fst (Scheduler_shutdown (da_sched s)))\<rparr>\<rparr>"
        "sv_pc (da_serv s) = Serving"
      by (auto split: if_splits prod.splits)
    have "service_inv (da_serv t)" using so u by (simp add: inv_pc serv_ok_def) (simp add: service_inv_def)
    with u fo so show ?thesis by (simp add: daemon_ok_def fresh_sched serv_ok_def due_ok_def)
  next
    case Core_stop
    with t obtain w where w: "service_stop fs (da_serv s) = Some w" "t = s\<lparr>da_serv := w\<rparr>" by auto
    note f = service_stop_frame [OF w(1)]
    have "(mg_ctx (sv_mgr w) i = None) = (mg_ctx (sv_mgr (da_serv s)) i = None)" for i
      using f cancel_ctx [of _ "sv_mgr (da_serv s)" i] by auto
    with fo w fresh_ok_mono [OF fo, of "da_sched s" "sv_mgr w"] serv_stop [OF so w(1)] show ?thesis by (simp add: daemon_ok_def)
  next
    case Core_spurious
    with t obtain ids where w: "sv_pc (da_serv s) = Asleep_on ids" "t = s\<lparr>da_serv := (da_serv s)\<lparr>sv_pc := Awaiting ids\<rparr>\<rparr>"
      by (auto split: shutdown_pc.splits)
    have "service_inv (da_serv t)" using so w by (simp add: inv_pc serv_ok_def) (simp add: service_inv_def)
    with w fo so show ?thesis by (simp add: daemon_ok_def serv_ok_def due_ok_def)
  qed
qed

subsection \<open>The simulation\<close>

text \<open>The dispatch system as the scheduler's side of the composition. A scan that has ended is being
  exported until its root has been released: its sentinel is on the way, or was taken.\<close>

definition held :: "(u64 \<times> string) list \<Rightarrow> scan_service \<Rightarrow> (u64 \<times> string) list \<Rightarrow> bool" where
  "held exporting v due \<longleftrightarrow> set due \<subseteq> set exporting
     \<and> (\<forall>i r. (i, r) \<in> ended (sv_mgr v) \<longrightarrow> (\<exists>c. sentinel_event i r c \<in> set (sv_taken v)) \<or> (i, r) \<in> set exporting)"

definition abstracts :: "dispatch_system \<Rightarrow> scan_daemon \<Rightarrow> bool" where
  "abstracts d s \<longleftrightarrow> ds_sched d = da_sched s \<and> ds_run d = da_run s \<and> ds_inflight d = da_inflight s
     \<and> matches d (sv_mgr (da_serv s)) (da_notified s) \<and> held (ds_exporting d) (da_serv s) (da_due s)"

definition simulated :: "dispatch_system \<Rightarrow> scan_daemon \<Rightarrow> bool" where
  "simulated d t \<longleftrightarrow> (\<exists>ms e. run ds_step ms d = Some e \<and> abstracts e t)"

lemma simulated_by: "run ds_step ms d = Some e \<Longrightarrow> abstracts e t \<Longrightarrow> simulated d t"
  by (auto simp: simulated_def)

lemma matches_same:
  assumes "matches d g n" "mg_registry h = mg_registry g" "mg_threads h = mg_threads g"
    "mg_dispatch_failed h = mg_dispatch_failed g" "mg_available h = mg_available g"
    "jq_stop_flag (mg_queue h) = jq_stop_flag (mg_queue g)"
  shows "matches d h n"
  using assms live_cong [of h g] by (simp add: matches_def signalling_def thread_sum_def)

lemma ended_same:
  assumes "mg_registry h = mg_registry g" "mg_threads h = mg_threads g" "mg_results h = mg_results g"
  shows "ended h = ended g"
  using assms by (simp add: ended_def signalling_def thread_sum_def)

lemma held_grow:
  assumes "held exporting v due" "ended (sv_mgr w) \<subseteq> ended (sv_mgr v) \<union> set new" "set (sv_taken v) \<subseteq> set (sv_taken w)"
  shows "held (new @ exporting) w due"
  unfolding held_def
proof (intro conjI allI impI)
  show "set due \<subseteq> set (new @ exporting)" using assms(1) by (auto simp: held_def)
  fix i r assume "(i, r) \<in> ended (sv_mgr w)"
  with assms(2) have "(i, r) \<in> ended (sv_mgr v) \<or> (i, r) \<in> set new" by blast
  then show "(\<exists>c. sentinel_event i r c \<in> set (sv_taken w)) \<or> (i, r) \<in> set (new @ exporting)"
    using assms(1,3) unfolding held_def set_append by blast
qed

lemma held_pc [simp]: "held exporting (v\<lparr>sv_pc := pc\<rparr>) due = held exporting v due"
  by (simp add: held_def)

lemmas held_still = held_grow [where new = "[]", simplified]

lemma live_unique:
  assumes "distinct (map fst (mg_registry g))" "(i, r) \<in> set (live_scans g)" "(i, r') \<in> set (live_scans g)"
  shows "r' = r"
  using assms by (auto simp: live_mem dest: eq_key_imp_eq_value)

lemma start_finished:
  assumes "map_of (mg_registry g) i = None" "Manager_start_new_scan i r now g = (res, h)"
  shows "mg_finished h = mg_finished g @ (if res = (False, False) then [i] else [])"
  using assms start_cases [OF assms(1), of r now] by (cases rule: start_cases [OF assms(1), of r now]) auto

lemma sim_move: "ds_step m d \<noteq> None \<Longrightarrow> abstracts (the (ds_step m d)) t \<Longrightarrow> simulated d t"
  by (rule simulated_by [of "[m]"]) auto

lemma sim_none: "abstracts d t \<Longrightarrow> simulated d t"
  by (rule simulated_by [of "[]"]) auto

lemma sim_cancel:
  assumes a: "abstracts d s" and t: "da_manager fs (Cancel_scan i) s = Some t"
  shows "abstracts d t"
proof (rule da_manager_cases [OF t])
  fix h new
  let ?g = "sv_mgr (da_serv s)"
  assume h: "manager_step fs (Cancel_scan i) ?g = Some h" "sv_mgr (da_serv t) = h"
    and v: "sv_taken (da_serv t) = sv_taken (da_serv s)"
  have g: "h = snd (Manager_cancel_scan i ?g)" using h(1) by simp
  have "da_sched t = da_sched s" using da_manager_parts(1) [OF t] h(2) g by simp
  moreover have "ended h = ended ?g" using g by (intro ended_same) simp_all
  moreover have "matches d h (da_notified s)" 
    by (rule matches_same [of d ?g]) (use a g in \<open>simp_all add: abstracts_def\<close>)
  ultimately show ?thesis using a h(2) v da_manager_parts [OF t] held_still [of "ds_exporting d" "da_serv s" "da_due s" "da_serv t"]
    by (simp add: abstracts_def)
qed

lemma sim_work:
  assumes ok: "serv_ok s" and a: "abstracts d s" and t: "da_manager fs (Work k now) s = Some t"
  shows "simulated d t"
proof (rule da_manager_cases [OF t])
  fix h new
  let ?g = "sv_mgr (da_serv s)"
  assume h: "manager_step fs (Work k now) ?g = Some h" "sv_mgr (da_serv t) = h"
    and v: "sv_taken (da_serv t) = sv_taken (da_serv s)"
  have w: "Manager_work fs k now ?g = Some h" using h(1) by simp
  have m: "matches d ?g (da_notified s)" using a by (simp add: abstracts_def)
  note parts = da_manager_parts [OF t]
  obtain ms e where e: "run ds_step ms d = Some e" "follows d ?g h (da_notified s) e"
    using follows_work [OF serv_ok_keys [OF ok] m w] by blast
  note ends = ended_work [OF serv_ok_keys [OF ok] w]
  have "abstracts e t"
    using e(2) unfolding follows_def
  proof (elim conjE disjE exE)
    assume "matches e h (da_notified s)" "mg_finished h = mg_finished ?g" "same_control d e"
    moreover have "ended h \<subseteq> ended ?g" using ends calculation(2) by auto
    ultimately show ?thesis
      using a parts h(2) v held_still [of "ds_exporting d" "da_serv s" "da_due s" "da_serv t"]
      by (simp add: abstracts_def same_control_def)
  next
    fix i r
    assume f: "matches e h (da_notified s)" "mg_finished h = mg_finished ?g @ [i]" "(i, r) \<in> set (live_scans ?g)"
      "ds_sched e = Scheduler_notify_scan_finished i (ds_sched d)" "ds_run e = ds_run d"
      "ds_inflight e = ds_inflight d" "ds_exporting e = (i, r) # ds_exporting d"
    have "p \<in> insert (i, r) (ended ?g)" if "p \<in> ended h" for p
      using ends [OF that] f(2,3) live_unique [of ?g i r "snd p"] ok by (cases p) (auto simp: serv_ok_def rows_ok_def)
    then have "ended h \<subseteq> ended ?g \<union> set [(i, r)]" by auto
    then show ?thesis
      using a parts f h(2) v held_grow [of "ds_exporting d" "da_serv s" "da_due s" "da_serv t" "[(i, r)]"]
      by (simp add: abstracts_def)
  qed
  with e(1) show ?thesis by (rule simulated_by)
qed

lemma sim_dispatch:
  assumes ok: "daemon_ok s" and a: "abstracts d s" and run: "da_run s = Run_dispatch p"
    and res: "fst (Manager_start_new_scan (pr_scan_id p) (pr_root p) now (sv_mgr (da_serv s))) = (acc, full)"
    and t: "da_manager fs (Start_scan (pr_scan_id p) (pr_root p) now) s = Some t"
  shows "simulated d (t\<lparr>da_run := Run_result p acc full\<rparr>)"
proof (rule da_manager_cases [OF t])
  fix h new
  let ?g = "sv_mgr (da_serv s)" and ?i = "pr_scan_id p" and ?r = "pr_root p"
  assume h: "manager_step fs (Start_scan ?i ?r now) ?g = Some h" "sv_mgr (da_serv t) = h"
    and v: "sv_taken (da_serv t) = sv_taken (da_serv s)"
  have inv: "manager_inv ?g" and fresh: "mg_ctx ?g ?i = None"
    using ok run by (simp_all add: daemon_ok_def serv_ok_def service_inv_def fresh_ok_def)
  have st: "Manager_start_new_scan ?i ?r now ?g = ((acc, full), h)"
    using h(1) res fresh by (cases "Manager_start_new_scan ?i ?r now ?g") simp
  have m: "matches d ?g (da_notified s)" "ds_run d = Run_dispatch p" using a run by (simp_all add: abstracts_def)
  obtain ms e where e: "run ds_step ms d = Some e" "matches e h (da_notified s)" "ds_run e = Run_result p acc full"
      "start_effect d ?i ?r (acc, full) e"
    using start_follows [OF inv m(1) fresh m(2) st] by blast
  have "da_sched t = (if (acc, full) = (False, False) then Scheduler_notify_scan_finished ?i (da_sched s) else da_sched s)"
    using da_manager_parts(1) [OF t] h(2) start_finished [OF unregistered [OF inv fresh] st] by simp
  moreover let ?new = "if (acc, full) = (False, False) then [(?i, ?r)] else []"
  have "held (?new @ ds_exporting d) (da_serv t) (da_due s)"
    by (rule held_grow [of _ "da_serv s"]) (use a h(2) v ended_start [OF inv fresh st] in \<open>auto simp: abstracts_def\<close>)
  moreover have "ds_exporting e = ?new @ ds_exporting d" "ds_inflight e = ds_inflight d"
      "ds_sched e = (if (acc, full) = (False, False) then Scheduler_notify_scan_finished ?i (ds_sched d) else ds_sched d)"
    using e(4) by (auto simp: start_effect_def)
  ultimately have "abstracts e (t\<lparr>da_run := Run_result p acc full\<rparr>)"
    using a e(2,3) h(2) da_manager_parts(2-5) [OF t] by (simp add: abstracts_def)
  with e(1) show ?thesis by (rule simulated_by)
qed

lemma sim_export:
  assumes ok: "serv_ok s" and a: "abstracts d s" and t: "da_export message glob s = Some t"
  shows "abstracts d t"
proof (rule da_export_cases [OF ok t])
  fix v due
  assume t': "t = s\<lparr>da_serv := v, da_due := da_due s @ due\<rparr>" and same: "sv_mgr v = sv_mgr (da_serv s)"
    and due: "due = [] \<and> (sv_taken v = sv_taken (da_serv s) \<or> (\<exists>e. sv_taken v = sv_taken (da_serv s) @ [e]))
     \<or> (\<exists>i r c. due = [(i, r)] \<and> sv_taken v = sv_taken (da_serv s) @ [sentinel_event i r c]
          \<and> (\<exists>es. jq_container (sv_queue (da_serv s)) = sentinel_event i r c # es))"
  have "set due \<subseteq> set (ds_exporting d) \<and> set (sv_taken (da_serv s)) \<subseteq> set (sv_taken v)"
    using due
  proof (elim disjE exE conjE)
    fix i r c es
    assume new: "due = [(i, r)]" "sv_taken v = sv_taken (da_serv s) @ [sentinel_event i r c]"
      and q: "jq_container (sv_queue (da_serv s)) = sentinel_event i r c # es"
    have inv: "service_inv (da_serv s)" using ok by (simp add: serv_ok_def)
    have "sentinel_event i r c \<in> set (mg_results (sv_mgr (da_serv s)))" using inv q by (simp add: service_inv_def flow_ok_def)
    then have "(i, r) \<in> ended (sv_mgr (da_serv s))" by (auto simp: ended_def)
    then have "(i, r) \<in> set (ds_exporting d)"
      using a queued_not_taken [OF inv q] unfolding abstracts_def held_def by blast
    with new show ?thesis by auto
  qed auto
  then show ?thesis using a same held_still [of "ds_exporting d" "da_serv s" "da_due s" v]
    by (simp add: abstracts_def held_def t')
qed

lemma sim_stop:
  assumes ok: "serv_ok s" and a: "abstracts d s" and w: "service_stop fs (da_serv s) = Some w"
  shows "simulated d (s\<lparr>da_serv := w\<rparr>)"
proof -
  let ?g = "sv_mgr (da_serv s)"
  note f = service_stop_frame [OF w]
  have m: "matches d ?g (da_notified s)" using a by (simp add: abstracts_def)
  have hold: "held (ds_exporting d) w (da_due s)" if "ended (sv_mgr w) = ended ?g"
    by (rule held_still [of _ "da_serv s"]) (use a f that in \<open>simp_all add: abstracts_def\<close>)
  show ?thesis
  proof (cases "sv_pc (da_serv s) = Stopping_pool")
    case True
    then have g: "sv_mgr w = Manager_shutdown_pool ?g" using f by simp
    have "sc_stop_flag (ds_sched d)" using ok a True by (simp add: serv_ok_def abstracts_def)
    then have "ds_step Stop_pool d = Some (d\<lparr>ds_pool_stopped := True\<rparr>)" by simp
    moreover have "matches (d\<lparr>ds_pool_stopped := True\<rparr>) (sv_mgr w) (da_notified s)"
      using m live_cong [of "Manager_shutdown_pool ?g" ?g] by (simp add: g matches_def signalling_def thread_sum_def)
    moreover have "held (ds_exporting d) w (da_due s)" by (rule hold, rule ended_same) (simp_all add: g)
    ultimately show ?thesis using a by (intro sim_move [of Stop_pool d]) (simp_all add: abstracts_def)
  next
    case False
    then have g: "mg_registry (sv_mgr w) = mg_registry ?g" "mg_threads (sv_mgr w) = mg_threads ?g"
        "mg_results (sv_mgr w) = mg_results ?g" "mg_dispatch_failed (sv_mgr w) = mg_dispatch_failed ?g"
        "mg_available (sv_mgr w) = mg_available ?g" "mg_queue (sv_mgr w) = mg_queue ?g"
      using f by auto
    have "matches d (sv_mgr w) (da_notified s)" by (rule matches_same [OF m]) (simp_all add: g)
    moreover have "held (ds_exporting d) w (da_due s)" by (rule hold, rule ended_same) (simp_all add: g)
    ultimately show ?thesis using a by (intro sim_none) (simp add: abstracts_def)
  qed
qed

lemma sim_release:
  assumes ok: "serv_ok s" and a: "abstracts d s" and mem: "(i, r) \<in> set (da_due s)"
  shows "simulated d (s\<lparr>da_sched := Scheduler_notify_export_done r (da_sched s), da_due := remove1 (i, r) (da_due s)\<rparr>)"
proof -
  let ?e = "d\<lparr>ds_sched := Scheduler_notify_export_done r (ds_sched d), ds_exporting := remove1 (i, r) (ds_exporting d)\<rparr>"
  have r: "run ds_step [Export_done i r] d = Some ?e" using a mem by (auto simp: abstracts_def held_def)
  have due: "distinct (da_due s)" "\<exists>c. sentinel_event i r c \<in> set (sv_taken (da_serv s))"
    using ok mem by (auto simp: serv_ok_def due_ok_def distinct_map)
  have sub: "p \<in> set (remove1 (i, r) (ds_exporting d))" if "p \<in> set (ds_exporting d)" "p \<noteq> (i, r)" for p
    using that by simp
  have "(\<exists>c. sentinel_event j q c \<in> set (sv_taken (da_serv s))) \<or> (j, q) \<in> set (remove1 (i, r) (ds_exporting d))"
    if "(j, q) \<in> ended (sv_mgr (da_serv s))" for j q
    using a due(2) sub [of "(j, q)"] that by (cases "(j, q) = (i, r)") (auto simp: abstracts_def held_def)
  moreover have "set (remove1 (i, r) (da_due s)) \<subseteq> set (remove1 (i, r) (ds_exporting d))"
  proof
    fix p assume "p \<in> set (remove1 (i, r) (da_due s))"
    then have "p \<in> set (da_due s)" "p \<noteq> (i, r)" using due(1) by (simp_all add: set_remove1_eq)
    then show "p \<in> set (remove1 (i, r) (ds_exporting d))" using a by (auto simp: abstracts_def held_def)
  qed
  ultimately have "abstracts ?e (s\<lparr>da_sched := Scheduler_notify_export_done r (da_sched s), da_due := remove1 (i, r) (da_due s)\<rparr>)"
    using a by (simp add: abstracts_def matches_def held_def)
  with r show ?thesis by (rule simulated_by)
qed

lemma sim_step:
  assumes ok: "daemon_ok s" and a: "abstracts d s" and t: "core_step fs message glob m s = Some t"
  shows "simulated d t"
proof -
  have so: "serv_ok s" using ok by (simp add: daemon_ok_def)
  show ?thesis
  proof (cases m)
    case (Core_gen root)
    with t a show ?thesis
      by (intro sim_move [of "Gen root" d]) (auto simp: abstracts_def matches_def split: if_splits prod.splits)
  next
    case (Core_enqueue i root)
    with t a show ?thesis
      by (intro sim_move [of "Enqueue i root" d]) (auto simp: abstracts_def matches_def split: if_splits)
  next
    case (Core_cancel i)
    with t a show ?thesis
      by (intro sim_move [of "Cancel i" d]) (auto simp: abstracts_def matches_def split: prod.splits)
  next
    case (Core_cancel_manager i)
    with t obtain u where u: "da_manager fs (Cancel_scan i) s = Some u" "t = u\<lparr>da_cancels := remove1 i (da_cancels u)\<rparr>"
      by (auto split: if_splits)
    with sim_cancel [OF a u(1)] show ?thesis by (intro sim_none) (simp_all add: abstracts_def)
  next
    case Core_pick
    with t a show ?thesis
      by (intro sim_move [of "Pick" d]) (auto simp: abstracts_def matches_def split: if_splits option.splits)
  next
    case (Core_dispatch now)
    with t obtain p acc full u where u: "da_run s = Run_dispatch p"
        "fst (Manager_start_new_scan (pr_scan_id p) (pr_root p) now (sv_mgr (da_serv s))) = (acc, full)"
        "da_manager fs (Start_scan (pr_scan_id p) (pr_root p) now) s = Some u" "t = u\<lparr>da_run := Run_result p acc full\<rparr>"
      by (auto split: run_pc.splits prod.splits)
    with sim_dispatch [OF ok a u(1-3)] show ?thesis by simp
  next
    case Core_return
    with t a show ?thesis
      by (intro sim_move [of "Return" d]) (auto simp: abstracts_def matches_def split: run_pc.splits prod.splits)
  next
    case Core_late_cancel
    with t obtain i u where u: "da_run s = Run_late_cancel i" "da_manager fs (Cancel_scan i) s = Some u" "t = u\<lparr>da_run := Run_top\<rparr>"
      by (auto split: run_pc.splits)
    with sim_cancel [OF a u(2)] a show ?thesis
      by (intro sim_move [of "Late_cancel" d]) (auto simp: abstracts_def matches_def)
  next
    case (Core_work k now)
    with t sim_work [OF so a] show ?thesis by simp
  next
    case Core_export
    with t sim_export [OF so a] show ?thesis by (intro sim_none) simp_all
  next
    case Core_available
    with t a show ?thesis
      by (intro sim_move [of "Available" d]) (auto simp: abstracts_def matches_def split: if_splits)
  next
    case (Core_release i root)
    with t sim_release [OF so a, of i root] show ?thesis by (auto split: if_splits)
  next
    case Core_shutdown
    with t a show ?thesis
      by (intro sim_move [of "Shutdown_scheduler" d]) (auto simp: abstracts_def matches_def split: if_splits prod.splits)
  next
    case Core_stop
    with t sim_stop [OF so a] show ?thesis by auto
  next
    case Core_spurious
    with t a show ?thesis
      by (intro sim_none) (auto simp: abstracts_def matches_def split: shutdown_pc.splits)
  qed
qed

text \<open>Every state the composition reaches is the concrete side of a reachable one of the dispatch system.\<close>

lemma daemon_ok_init:
  "daemon_ok (daemon_start sc (service_init (Manager_init m q k metrics) n metrics' (ExportManager_init b db)))"
proof -
  have "service_inv (service_init (Manager_init m q k metrics) n metrics' (ExportManager_init b db))"
    by (rule service_inv_init [OF manager_inv_init]) (simp_all add: Manager_init_def ExportManager_init_def)
  then show ?thesis
    by (simp add: daemon_ok_def serv_ok_def fresh_ok_def rows_ok_def pend_ok_def due_ok_def daemon_start_def service_init_def
        Manager_init_def ExportManager_init_def list_all_iff)
qed

lemma thread_sum_idle: "(\<And>fr. fr \<in> set (mg_threads g) \<Longrightarrow> fr = []) \<Longrightarrow> thread_sum u g = 0"
  by (force simp: thread_sum_def intro!: sum_list_all_zero)

lemma abstracts_init:
  "abstracts (ds_init sc) (daemon_start sc (service_init (Manager_init m q k metrics) n metrics' (ExportManager_init b db)))"
proof -
  have "thread_sum u (Manager_init m q k metrics) = 0" for u
    by (rule thread_sum_idle) (simp add: Manager_init_def)
  then show ?thesis
    by (simp add: abstracts_def held_def matches_def ds_init_def daemon_start_def service_init_def ended_def live_scans_def)
      (simp add: Manager_init_def JobQueue_init_def)
qed

lemma scan_daemon_simulated:
  assumes "reach (core_step fs message glob)
      (daemon_start sc (service_init (Manager_init m q k metrics) n metrics' (ExportManager_init b db))) s"
  shows "daemon_ok s \<and> (\<exists>d. reach ds_step (ds_init sc) d \<and> abstracts d s)"
  using assms
proof (induction rule: reach.induct)
  case reach_start
  show ?case by (intro conjI exI [of _ "ds_init sc"] daemon_ok_init abstracts_init reach.reach_start)
next
  case (reach_move s m t)
  then obtain d where d: "daemon_ok s" "reach ds_step (ds_init sc) d" "abstracts d s" by blast
  then obtain ms e where "run ds_step ms d = Some e" "abstracts e t"
    using sim_step [OF d(1,3) reach_move.hyps(2)] by (auto simp: simulated_def)
  then show ?case using daemon_ok_step [OF d(1) reach_move.hyps(2)] run_reach [OF d(2)] by blast
qed

end
