(* ===== verification/Scan_Separation.thy ===== *)
theory Scan_Separation
  imports Scan_Daemon_Properties Manager_Regions
begin

section \<open>Live scans never touch the same rows\<close>

text \<open>
  What the refinement of theory \<open>Scan_Daemon_Properties\<close> says of the real manager and exporter: at most
  \<^verbatim>\<open>max_concurrent_scan\<close> scans run, and a result on its way into the index lies under the root of its
  scan and under the root of no other scan whose root has not been released.
\<close>

subsection \<open>Every path lies under the root of its scan\<close>

text \<open>The root of a scan, from the registry or, once it has left it, from its sentinel. A scan 0 has no sentinel.\<close>

definition scan_roots :: "manager \<Rightarrow> (u64 \<times> string) set" where
  "scan_roots g = {(i, r). i = 0 \<or> (\<exists>task. (i, task) \<in> set (mg_registry g) \<and> r = root_path task)
     \<or> (\<exists>c. sentinel_event i r c \<in> set (mg_results g))}"

definition under_root :: "manager \<Rightarrow> u64 \<Rightarrow> string \<Rightarrow> bool" where
  "under_root g i p \<longleftrightarrow> (\<exists>r. (i, r) \<in> scan_roots g \<and> below r p)"

definition job_under :: "manager \<Rightarrow> scan_data \<Rightarrow> bool" where
  "job_under g d \<longleftrightarrow> under_root g (sd_scan_id d) (sd_path d)"

definition event_under :: "manager \<Rightarrow> file_event \<Rightarrow> bool" where
  "event_under g e \<longleftrightarrow> under_root g (fe_scan_id e) (fe_path e)"

fun frame_under :: "manager \<Rightarrow> frame \<Rightarrow> bool" where
  "frame_under g (Begin d) = job_under g d"
| "frame_under g (Loop d cs) = list_all (job_under g) cs"
| "frame_under g (Submitting d cs c) = (job_under g c \<and> list_all (job_under g) cs)"
| "frame_under g _ = True"

definition paths_ok :: "manager \<Rightarrow> bool" where
  "paths_ok g \<longleftrightarrow> list_all (job_under g) (jq_container (mg_queue g))
     \<and> list_all (list_all (frame_under g)) (mg_threads g) \<and> list_all (event_under g) (mg_results g)"

lemma job_under_mono: "scan_roots g \<subseteq> scan_roots h \<Longrightarrow> job_under g d \<Longrightarrow> job_under h d"
  by (auto simp: job_under_def under_root_def)

lemma event_under_mono: "scan_roots g \<subseteq> scan_roots h \<Longrightarrow> event_under g e \<Longrightarrow> event_under h e"
  by (auto simp: event_under_def under_root_def)

lemma frame_under_mono: "scan_roots g \<subseteq> scan_roots h \<Longrightarrow> frame_under g f \<Longrightarrow> frame_under h f"
  using job_under_mono by (cases f) (auto simp: list_all_iff)

lemma sentinel_under: "sentinel_event i r c \<in> set (mg_results g) \<Longrightarrow> event_under g (sentinel_event i r c)"
  by (auto simp: event_under_def under_root_def scan_roots_def sentinel_event_def intro!: exI [of _ r])

lemma paths_ok_mono:
  assumes "paths_ok g" "scan_roots g \<subseteq> scan_roots h" "list_all (job_under h) (jq_container (mg_queue h))"
    "\<And>fr. fr \<in> set (mg_threads h) \<Longrightarrow> fr \<in> set (mg_threads g) \<or> list_all (frame_under h) fr"
    "\<And>e. e \<in> set (mg_results h) \<Longrightarrow> e \<in> set (mg_results g) \<or> event_under h e"
  shows "paths_ok h"
proof -
  have "list_all (frame_under h) fr" if "fr \<in> set (mg_threads h)" for fr
    using assms(1) assms(4) [OF that] frame_under_mono [OF assms(2)] by (auto simp: paths_ok_def list_all_iff)
  moreover have "event_under h e" if "e \<in> set (mg_results h)" for e
    using assms(1) assms(5) [OF that] event_under_mono [OF assms(2)] by (auto simp: paths_ok_def list_all_iff)
  ultimately show ?thesis using assms(3) by (simp add: paths_ok_def list_all_iff)
qed

lemma children_under: "job_under g d \<Longrightarrow> list_all (job_under g) (node_children fs d)"
proof -
  assume d: "job_under g d"
  have "job_under g c" if "c \<in> set (node_children fs d)" for c
  proof -
    have "\<exists>name. sd_path c = sd_path d @ CHR ''/'' # name"
      using that by (auto simp: node_children_def MultiScanner_scan_one_node_def Let_def scan_children_set
        split: sum.splits option.splits prod.splits list.splits if_splits)
    with d node_children_id [OF that] show ?thesis using below_child by (auto simp: job_under_def under_root_def)
  qed
  then show ?thesis by (simp add: list_all_iff)
qed

subsection \<open>The manager keeps it\<close>

text \<open>No step takes a root back.\<close>

lemma roots_unregister:
  assumes "distinct (map fst (mg_registry g))" "Manager_unregister i c now g = (row, h)"
  shows "scan_roots g \<subseteq> scan_roots h"
proof
  fix p assume p: "p \<in> scan_roots g"
  obtain j r where jr: "p = (j, r)" by (cases p)
  have res: "set (mg_results g) \<subseteq> set (mg_results h)"
    using assms(2) by (auto simp: Manager_unregister_def Let_def split: option.splits if_splits)
  consider "j = 0" | "\<exists>c. sentinel_event j r c \<in> set (mg_results g)"
    | task where "j \<noteq> 0" "map_of (mg_registry g) j = Some task" "r = root_path task"
    using p jr assms(1) by (auto simp: scan_roots_def)
  then show "p \<in> scan_roots h"
  proof cases
    case 3
    then show ?thesis
      using assms(2) jr map_of_SomeD [OF 3(2)]
      by (cases "j = i") (auto simp: Manager_unregister_def scan_roots_def Let_def AList.delete_eq split: option.splits if_splits)
  qed (use jr res in \<open>auto simp: scan_roots_def\<close>)
qed

lemma roots_frame:
  assumes "rows_ok g" "Manager_frame_step fs now f g = (new, h)"
  shows "scan_roots g \<subseteq> scan_roots h"
proof (cases f)
  case (Signalling j c fin)
  obtain row s where "Manager_unregister (sd_scan_id j) c fin g = (row, s)" by (metis surj_pair)
  with assms roots_unregister [of g "sd_scan_id j" c fin row s] Signalling show ?thesis
    by (auto simp: Manager_frame_step_def rows_ok_def split: option.splits)
qed (use assms in \<open>auto simp: Manager_frame_step_def Manager_pool_submit_def Manager_job_tail_def ctx_add_def scan_roots_def
    Let_def split: if_splits prod.splits submit_result.splits\<close>)

text \<open>What a step leaves on the thread and in the result queue.\<close>

lemma under_frame:
  assumes ok: "rows_ok g" "paths_ok g" and f: "frame_under g f" and st: "Manager_frame_step fs now f g = (new, h)"
  shows "list_all (job_under h) (jq_container (mg_queue h))" "list_all (frame_under h) new"
    "\<And>e. e \<in> set (mg_results h) \<Longrightarrow> e \<in> set (mg_results g) \<or> event_under h e"
proof -
  note roots = roots_frame [OF ok(1) st]
  have old: "list_all (job_under h) ds" if "list_all (job_under g) ds" for ds
    using that job_under_mono [OF roots] by (auto simp: list_all_iff)
  have q: "list_all (job_under h) (jq_container (mg_queue g))" using old ok(2) by (simp add: paths_ok_def)
  have "list_all (job_under h) (jq_container (mg_queue h)) \<and> list_all (frame_under h) new
    \<and> (\<forall>e \<in> set (mg_results h). e \<in> set (mg_results g) \<or> event_under h e)"
  proof (cases f)
    case (Begin d)
    then have d: "job_under g d" "list_all (job_under h) (node_children fs d)" using f old children_under by simp_all
    have "event_under h (node_event fs d)" using job_under_mono [OF roots d(1)] by (simp add: event_under_def job_under_def)
    with Begin d q st show ?thesis by (auto simp: begin_step split: if_splits)
  next
    case (Loop d cs)
    have "cs \<noteq> [] \<Longrightarrow> job_under h (last cs)" "list_all (job_under h) (butlast cs)"
      using f Loop old [of cs] by (auto simp: list_all_iff dest: in_set_butlastD)
    with Loop q st show ?thesis by (auto simp: Manager_frame_step_def Let_def ctx_add_def split: if_splits)
  next
    case (Submitting d cs c)
    obtain r u where u: "Manager_pool_submit c g = (r, u)" by (cases "Manager_pool_submit c g")
    have c: "job_under h c" "list_all (job_under h) cs" using f Submitting old [of "[c]"] old [of cs] by simp_all
    have "list_all (job_under h) (jq_container (mg_queue u))" "mg_results u = mg_results g"
      using u try_push_in [OF _ c(1) q] by (auto simp: Manager_pool_submit_def split: prod.splits)
    with st Submitting u c show ?thesis
      by (auto simp: Manager_frame_step_def Manager_job_tail_def ctx_add_def split: submit_result.splits)
  next
    case (Signalling d sc fin)
    with st q show ?thesis
      by (auto simp: Manager_frame_step_def Manager_unregister_def Let_def intro!: sentinel_under
          split: option.splits prod.splits if_splits)
  qed (use st q in \<open>auto simp: Manager_frame_step_def Manager_job_tail_def ctx_add_def split: if_splits\<close>)
  then show "list_all (job_under h) (jq_container (mg_queue h))" "list_all (frame_under h) new"
    "\<And>e. e \<in> set (mg_results h) \<Longrightarrow> e \<in> set (mg_results g) \<or> event_under h e" by auto
qed

lemma roots_same: "mg_registry h = mg_registry g \<Longrightarrow> mg_results h = mg_results g \<Longrightarrow> scan_roots h = scan_roots g"
  by (simp add: scan_roots_def)

lemma paths_work:
  assumes ok: "rows_ok g" "paths_ok g" and w: "Manager_work fs k now g = Some h"
  shows "paths_ok h"
proof -
  have k: "k < length (mg_threads g)" using w by (simp add: Manager_work_def split: if_splits)
  show ?thesis
  proof (cases "mg_threads g ! k")
    case Nil
    then obtain j q r where p: "JobQueue_pop (mg_queue g) = Some (Some j, q, r)" "h = set_thread k [Begin j] (g\<lparr>mg_queue := q\<rparr>)"
      using w k by (auto simp: Manager_work_def split: option.splits prod.splits)
    have "set (jq_container (mg_queue g)) = insert j (set (jq_container q))"
      using pop_container(1) [OF p(1)] by (metis set_mset_add_mset_insert set_mset_mset)
    moreover have r: "scan_roots h = scan_roots g" by (rule roots_same) (simp_all add: p(2))
    moreover from r have "job_under h = job_under g" by (simp add: job_under_def under_root_def fun_eq_iff)
    ultimately show ?thesis
      using ok(2) set_update_subset_insert [of "mg_threads g" k "[Begin j]"]
      by (intro paths_ok_mono [OF ok(2)]) (auto simp: p(2) paths_ok_def list_all_iff)
  next
    case (Cons f fr)
    obtain new s1 where st: "Manager_frame_step fs now f g = (new, s1)" by (cases "Manager_frame_step fs now f g")
    with Cons w k have h: "h = set_thread k (new @ fr) s1" by (simp add: Manager_work_def)
    have top: "frame_under g f" "list_all (frame_under g) fr"
      using ok(2) k Cons nth_mem [OF k] by (auto simp: paths_ok_def list_all_iff)
    note u = under_frame [OF ok top(1) st] and roots = roots_frame [OF ok(1) st]
    have r: "scan_roots h = scan_roots s1" by (rule roots_same) (simp_all add: h)
    then have same: "job_under h = job_under s1" "event_under h = event_under s1" "under_root h = under_root s1"
      by (simp_all add: job_under_def event_under_def under_root_def fun_eq_iff)
    have "frame_under h x = frame_under s1 x" for x by (cases x) (simp_all add: same)
    moreover have "list_all (frame_under s1) fr" using top(2) frame_under_mono [OF roots] by (auto simp: list_all_iff)
    ultimately have "list_all (frame_under h) (new @ fr)" using u(2) by (auto simp: list_all_iff)
    with u same roots r show ?thesis
      using set_update_subset_insert [of "mg_threads g" k "new @ fr"]
      by (intro paths_ok_mono [OF ok(2)]) (auto simp: h frame_step_threads [OF st])
  qed
qed

lemma paths_start:
  assumes ok: "paths_ok g" and reg: "map_of (mg_registry g) i = None" and st: "Manager_start_new_scan i r now g = (res, h)"
  shows "paths_ok h"
proof -
  have new: "(if res = (False, True) then True else (i, r) \<in> scan_roots h) \<and> scan_roots g \<subseteq> scan_roots h
    \<and> mg_threads h = mg_threads g \<and> (\<forall>e \<in> set (mg_results h). e \<in> set (mg_results g) \<or> event_under h e)"
    by (cases rule: start_cases [OF reg, of r now];
      use st delete_absent [OF reg] sentinel_under [of i r False h] in \<open>auto simp: scan_roots_def split: if_splits\<close>)
  have old: "list_all (job_under h) (jq_container (mg_queue g))"
    using ok new job_under_mono [of g h] by (auto simp: paths_ok_def list_all_iff)
  have "jq_container (mg_queue h) = jq_container (mg_queue g)
      \<or> res \<noteq> (False, True) \<and> jq_container (mg_queue h) = jq_container (mg_queue g) @ [\<lparr>sd_scan_id = i, sd_path = r\<rparr>]"
    by (cases rule: start_cases [OF reg, of r now]) (use st in auto)
  moreover have "job_under h \<lparr>sd_scan_id = i, sd_path = r\<rparr>" if "res \<noteq> (False, True)"
    using new that by (auto simp: job_under_def under_root_def)
  ultimately have "list_all (job_under h) (jq_container (mg_queue h))" using old by auto
  with new show ?thesis by (intro paths_ok_mono [OF ok]) auto
qed

lemma paths_step: "manager_inv g \<Longrightarrow> rows_ok g \<Longrightarrow> paths_ok g \<Longrightarrow> manager_step fs m g = Some h \<Longrightarrow> paths_ok h"
proof (cases m)
  case (Start_scan i r now)
  assume a: "manager_inv g" "paths_ok g" "manager_step fs m g = Some h"
  with Start_scan have "mg_ctx g i = None" "h = snd (Manager_start_new_scan i r now g)" by (auto split: if_splits)
  with a show ?thesis using unregistered [of g i] paths_start [of g i r now] by (metis prod.collapse)
next
  case (Work k now)
  assume "rows_ok g" "paths_ok g" "manager_step fs m g = Some h"
  with Work show ?thesis using paths_work by simp
next
  case (Cancel_scan i)
  assume a: "paths_ok g" "manager_step fs m g = Some h"
  with Cancel_scan have h: "h = snd (Manager_cancel_scan i g)" by simp
  then have "job_under h = job_under g" using roots_same [of h g] by (simp add: job_under_def under_root_def fun_eq_iff)
  with a(1) h roots_same [of h g] show ?thesis by (intro paths_ok_mono [OF a(1)]) (auto simp: paths_ok_def)
next
  case Shutdown_pool
  assume a: "paths_ok g" "manager_step fs m g = Some h"
  with Shutdown_pool have h: "h = Manager_shutdown_pool g" by simp
  then have "job_under h = job_under g" using roots_same [of h g] by (simp add: job_under_def under_root_def fun_eq_iff)
  with a(1) h roots_same [of h g] show ?thesis
    by (intro paths_ok_mono [OF a(1)]) (auto simp: paths_ok_def Manager_shutdown_pool_def JobQueue_shutdown_def)
qed

subsection \<open>The composition keeps it\<close>

text \<open>A move of the composition is a move of the scan system or leaves it alone.\<close>

lemma service_stop_manager:
  assumes "service_stop fs v = Some w"
  shows "sv_mgr w = sv_mgr v \<or> (\<exists>m. manager_step fs m (sv_mgr v) = Some (sv_mgr w))"
proof -
  have "manager_step fs (Cancel_scan i) (sv_mgr v) = Some (snd (Manager_cancel_scan i (sv_mgr v)))"
    "manager_step fs Shutdown_pool (sv_mgr v) = Some (Manager_shutdown_pool (sv_mgr v))" for i by simp_all
  with service_stop_frame [OF assms] show ?thesis by metis
qed

lemma core_step_manager:
  assumes "core_step fs message glob m s = Some t"
  shows "sv_mgr (da_serv t) = sv_mgr (da_serv s)
    \<or> (\<exists>mm. manager_step fs mm (sv_mgr (da_serv s)) = Some (sv_mgr (da_serv t)))"
proof -
  have g: "\<exists>mm. manager_step fs mm (sv_mgr (da_serv s)) = Some (sv_mgr (da_serv u))" if "da_manager fs mv s = Some u" for mv u
    by (rule da_manager_cases [OF that]) auto
  show ?thesis
  proof (cases m)
    case Core_export
    with assms show ?thesis
      by (auto simp: da_export_def service_export_def split: option.splits prod.splits if_splits)
  next
    case Core_stop
    with assms service_stop_manager [of fs "da_serv s"] show ?thesis by auto
  qed (use assms in \<open>auto dest: g split: if_splits option.splits run_pc.splits prod.splits shutdown_pc.splits\<close>)
qed

interpretation scan_paths: invariant "core_step fs message glob" "\<lambda>s. daemon_ok s \<and> paths_ok (sv_mgr (da_serv s))"
  for fs message glob
proof unfold_locales
  fix s m t assume s: "daemon_ok s \<and> paths_ok (sv_mgr (da_serv s))" and t: "core_step fs message glob m s = Some t"
  have "manager_inv (sv_mgr (da_serv s))" "rows_ok (sv_mgr (da_serv s))"
    using s by (simp_all add: daemon_ok_def serv_ok_def service_inv_def)
  with s core_step_manager [OF t] paths_step have "paths_ok (sv_mgr (da_serv t))" by metis
  with s daemon_ok_step [OF _ t] show "daemon_ok t \<and> paths_ok (sv_mgr (da_serv t))" by blast
qed

subsection \<open>The scans whose roots are taken\<close>

text \<open>The scans with rows still to come: registered, or their sentinel not yet taken by the exporter, or
  the call of \<^verbatim>\<open>notify_export_done\<close> still due.\<close>

definition unreleased :: "scan_daemon \<Rightarrow> (u64 \<times> string) set" where
  "unreleased s = {(i, r). (\<exists>task. (i, task) \<in> set (mg_registry (sv_mgr (da_serv s))) \<and> r = root_path task)
     \<or> (\<exists>c. sentinel_event i r c \<in> set (jq_container (sv_queue (da_serv s)) @ sv_refused (da_serv s)))
     \<or> (i, r) \<in> set (da_due s)}"

lemma registered_no_sentinel:
  assumes "manager_inv g" "(i, task) \<in> set (mg_registry g)"
  shows "sentinel_event i r c \<notin> set (mg_results g)"
proof
  assume "sentinel_event i r c \<in> set (mg_results g)"
  then have "sentinel_event i r c \<in> set (results_of i g)" by (simp add: results_of_def sentinel_event_id)
  moreover have "map_of (mg_registry g) i \<noteq> None" using assms(2) by (auto simp: map_of_eq_None_iff rev_image_eqI)
  moreover have "scan_ok i g" using assms(1) by (simp add: manager_inv_def)
  ultimately show False by (auto simp: scan_ok_def phase_ok_def node_events_def sentinel_event_def split: option.splits if_splits)
qed

lemma waiting_sentinel_not_taken:
  assumes "service_inv v" "sentinel_event i r c \<in> set (jq_container (sv_queue v) @ sv_refused v)"
  shows "sentinel_event i r' c' \<notin> set (sv_taken v)"
  using assms sentinel_once [of "sv_mgr v" "sv_taken v" "jq_container (sv_queue v) @ sv_refused v"]
  by (fastforce simp: service_inv_def flow_ok_def is_end_def sentinel_event_def)

lemma unreleased_active:
  assumes ok: "daemon_ok s" and a: "abstracts d s"
  shows "unreleased s \<subseteq> set (ds_live d) \<union> set (ds_exporting d)"
proof
  fix p assume "p \<in> unreleased s"
  then obtain i r where p: "p = (i, r)" "(i, r) \<in> unreleased s" by (cases p) auto
  let ?g = "sv_mgr (da_serv s)"
  have inv: "service_inv (da_serv s)" "manager_inv ?g" using ok by (simp_all add: daemon_ok_def serv_ok_def service_inv_def)
  have live: "ds_live d = live_scans ?g" and due: "set (da_due s) \<subseteq> set (ds_exporting d)"
    using a by (simp_all add: abstracts_def matches_def held_def)
  have held: "(i, r) \<in> set (ds_exporting d)"
    if "(i, r) \<in> ended ?g" "\<forall>c. sentinel_event i r c \<notin> set (sv_taken (da_serv s))"
    using a that unfolding abstracts_def held_def by blast
  have taken: "set (sv_taken (da_serv s)) \<subseteq> set (mg_results ?g)" "set (jq_container (sv_queue (da_serv s)) @ sv_refused (da_serv s)) \<subseteq> set (mg_results ?g)"
    using inv by (auto simp: service_inv_def flow_ok_def)
  consider task where "(i, task) \<in> set (mg_registry ?g)" "r = root_path task"
    | c where "sentinel_event i r c \<in> set (jq_container (sv_queue (da_serv s)) @ sv_refused (da_serv s))"
    | "(i, r) \<in> set (da_due s)"
    using p(2) by (auto simp: unreleased_def)
  then show "p \<in> set (ds_live d) \<union> set (ds_exporting d)"
  proof cases
    case 1
    then have "(i, r) \<in> set (live_scans ?g) \<or> (i, r) \<in> ended ?g" by (auto simp: live_mem ended_def)
    with held registered_no_sentinel [OF inv(2) 1(1)] taken(1) show ?thesis
      unfolding p(1) live by blast
  next
    case 2
    then have "(i, r) \<in> ended ?g" using taken(2) by (auto simp: ended_def)
    with held waiting_sentinel_not_taken [OF inv(1) 2] p(1) show ?thesis by blast
  qed (use due p(1) in auto)
qed

text \<open>What is still in the result queue belongs to such a scan.\<close>

lemma waiting_unreleased:
  assumes ok: "daemon_ok s" "paths_ok (sv_mgr (da_serv s))" and e: "e \<in> set (jq_container (sv_queue (da_serv s)))" "fe_scan_id e \<noteq> 0"
  shows "\<exists>r. (fe_scan_id e, r) \<in> unreleased s \<and> below r (fe_path e)"
proof -
  let ?v = "da_serv s" and ?g = "sv_mgr (da_serv s)"
  have inv: "manager_inv ?g" and res: "mg_results ?g = sv_taken ?v @ jq_container (sv_queue ?v) @ sv_refused ?v"
    using ok(1) by (simp_all add: daemon_ok_def serv_ok_def service_inv_def flow_ok_def)
  have "event_under ?g e" using ok(2) e(1) res by (auto simp: paths_ok_def list_all_iff)
  then obtain r where r: "(fe_scan_id e, r) \<in> scan_roots ?g" "below r (fe_path e)" by (auto simp: event_under_def under_root_def)
  have "(fe_scan_id e, r) \<in> unreleased s"
  proof (cases "\<exists>c. sentinel_event (fe_scan_id e) r c \<in> set (sv_taken ?v)")
    case True
    then obtain c where "sentinel_event (fe_scan_id e) r c \<in> set (sv_taken ?v)" by blast
    then have "fe_scan_id e \<noteq> fe_scan_id (sentinel_event (fe_scan_id e) r c)"
      by (rule sentinel_once [OF inv res]) (use e(1) in \<open>simp_all add: is_end_def sentinel_event_def\<close>)
    then show ?thesis by (simp add: sentinel_event_id)
  next
    case False
    with r(1) e(2) res show ?thesis by (auto simp: scan_roots_def unreleased_def)
  qed
  with r(2) show ?thesis by blast
qed

lemma roots_apart_pair:
  assumes "roots_ok d" "p \<in> set (ds_active d)" "p' \<in> set (ds_active d)" "p \<noteq> p'"
  shows "\<not> paths_overlap (snd p) (snd p')"
proof -
  have "snd p \<noteq> snd p'" using assms by (auto simp: roots_ok_def distinct_map dest: inj_onD)
  moreover have "snd p \<in> set (root_map (ds_sched d))" "snd p' \<in> set (root_map (ds_sched d))"
    using assms by (auto simp: roots_ok_def)
  ultimately show ?thesis using assms(1) by (simp add: roots_ok_def)
qed

subsection \<open>The theorems\<close>

text \<open>C3: The daemon's core as it is implements the dispatch system: whatever the clients, the dispatch
  thread, the workers, the exporter and the shutdown do, the scheduler's state is one the dispatch system
  reaches, with the scans of the real manager as its live ones. So all that is proved of that system holds
  here; and \<^verbatim>\<open>start_new_scan\<close> is only ever called with an id the manager does not know.\<close>

theorem scan_daemon_refines:
  assumes "reach (core_step fs message glob)
      (daemon_start sc (service_init (Manager_init m q k metrics) n metrics' (ExportManager_init b db))) s"
  shows "(\<exists>d. reach ds_step (ds_init sc) d \<and> ds_sched d = da_sched s \<and> ds_run d = da_run s
      \<and> ds_live d = live_scans (sv_mgr (da_serv s)) \<and> ds_dispatch_failed d = mg_dispatch_failed (sv_mgr (da_serv s))
      \<and> ds_pool_stopped d = jq_stop_flag (mg_queue (sv_mgr (da_serv s))) \<and> unreleased s \<subseteq> set (ds_live d) \<union> set (ds_exporting d))
    \<and> (\<forall>p. da_run s = Run_dispatch p \<longrightarrow> mg_ctx (sv_mgr (da_serv s)) (pr_scan_id p) = None)"
proof -
  obtain d where d: "daemon_ok s" "reach ds_step (ds_init sc) d" "abstracts d s" using scan_daemon_simulated [OF assms] by blast
  have "mg_ctx (sv_mgr (da_serv s)) (pr_scan_id p) = None" if "da_run s = Run_dispatch p" for p
    using d(1) that by (simp add: daemon_ok_def fresh_ok_def)
  moreover have "ds_sched d = da_sched s \<and> ds_run d = da_run s \<and> ds_live d = live_scans (sv_mgr (da_serv s))
      \<and> ds_dispatch_failed d = mg_dispatch_failed (sv_mgr (da_serv s))
      \<and> ds_pool_stopped d = jq_stop_flag (mg_queue (sv_mgr (da_serv s)))"
    using d(3) by (simp add: abstracts_def matches_def)
  ultimately show ?thesis using d(2) unreleased_active [OF d(1,3)] by blast
qed


subsection \<open>A run\<close>

text \<open>Two scans submitted and dispatched, the first results of both in the queue.\<close>

definition pair_start :: scan_daemon where
  "pair_start = daemon_start (Scheduler_init 2 8)
     (service_init (Manager_init 2 8 2 zero_metrics) 4 zero_metrics (ExportManager_init 10 empty_db))"

definition pair_moves :: "core_move list" where
  "pair_moves = [Core_gen ''/r'', Core_enqueue 1 ''/r'', Core_gen ''/q'', Core_enqueue 2 ''/q'',
     Core_pick, Core_dispatch 40, Core_return, Core_pick, Core_dispatch 41, Core_return,
     Core_work 0 50, Core_work 0 50, Core_work 1 50, Core_work 1 50]"

lemma static_cast_Suc:
  "static_cast_int (Suc (Suc 0)) = 2" "static_cast_int (Suc (Suc (Suc (Suc (Suc (Suc (Suc (Suc 0)))))))) = 8"
  by (simp_all add: static_cast_int_small)

lemma pair_run:
  "\<exists>t. run (core_step demo_fs (\<lambda>n. []) (\<lambda>p t. True)) pair_moves pair_start = Some t
     \<and> mg_registry (sv_mgr (da_serv t)) = [(2, \<lparr>root_path = ''/q'', start_time = 41\<rparr>), (1, \<lparr>root_path = ''/r'', start_time = 40\<rparr>)]
     \<and> jq_container (sv_queue (da_serv t)) = [node_event demo_fs (scan_job 2 ''/q''), node_event demo_fs (scan_job 1 ''/r'')]
     \<and> MAX_CONCURRENT_SCAN (da_sched t) = 2"
  by (simp add: pair_moves_def pair_start_def daemon_start_def service_init_def da_manager_def service_manager_def
      newly_accepted_def manager_notifies_def demo_step_eval scan_job_def ds_eval static_cast_Suc numeral_eq_Suc)


theorem scan_daemon_refines_witness:
  "\<exists>t d. run (core_step demo_fs (\<lambda>n. []) (\<lambda>p t. True)) pair_moves pair_start = Some t
     \<and> reach ds_step (ds_init (Scheduler_init 2 8)) d \<and> ds_sched d = da_sched t
     \<and> ds_live d = live_scans (sv_mgr (da_serv t)) \<and> map fst (mg_registry (sv_mgr (da_serv t))) = [2, 1]"
proof -
  obtain t where t: "run (core_step demo_fs (\<lambda>n. []) (\<lambda>p t. True)) pair_moves pair_start = Some t"
     "mg_registry (sv_mgr (da_serv t)) = [(2, \<lparr>root_path = ''/q'', start_time = 41\<rparr>), (1, \<lparr>root_path = ''/r'', start_time = 40\<rparr>)]"
    using pair_run by (elim exE conjE) (rule that)
  from scan_daemon_refines [OF run_reach_start [OF t(1) [unfolded pair_start_def]]] t show ?thesis by auto
qed

end
