(* ===== verification/Sync_Logger.thy ===== *)
theory Sync_Logger
  imports Async_Logger Transitions
begin

section \<open>SyncLogger (src/utils/sync\_logger.h)\<close>

text \<open>
  The logger without a queue: each call writes its line to the standard error itself, under a mutex that
  also protects the static buffer of \<^verbatim>\<open>logger_timestamp\<close>. The levels are those of \<open>Async_Logger\<close>. A call is
  three steps, the lock, the time stamp and the line, so that another thread could come between.
\<close>

text \<open>The overloads for \<^verbatim>\<open>std::string\<close> pass \<^verbatim>\<open>c_str()\<close>, so a message ends at its first zero byte.\<close>

definition SyncLogger_c_str :: "string \<Rightarrow> string" where
  "SyncLogger_c_str msg = takeWhile (\<lambda>c. c \<noteq> CHR 0x00) msg"

record sync_logger =
  sl_holder :: "nat option"
  sl_buf :: string
  sl_err :: string

definition SyncLogger_init :: sync_logger where
  "SyncLogger_init = \<lparr>sl_holder = None, sl_buf = [], sl_err = []\<rparr>"

definition SyncLogger_timestamp :: "(int \<Rightarrow> string) \<Rightarrow> int \<Rightarrow> sync_logger \<Rightarrow> sync_logger" where
  "SyncLogger_timestamp format now l = l\<lparr>sl_buf := format now\<rparr>"

definition sync_line :: "string \<Rightarrow> log_level \<Rightarrow> string \<Rightarrow> string" where
  "sync_line stamp level msg = stamp @ '' ['' @ level_name level @ ''] '' @ msg @ [CHR 0x0A]"

subsection \<open>The threads\<close>

datatype sync_pc = Sync_idle | Sync_locked log_level string | Sync_stamped log_level string int

record sync_system =
  ss_log :: sync_logger
  ss_threads :: "sync_pc list"
  ss_lines :: "(int \<times> log_level \<times> string) list"

datatype sync_move = Sync_call nat log_level string | Sync_stamp nat int | Sync_write nat

text \<open>\<^verbatim>\<open>error\<close>, \<^verbatim>\<open>debug\<close>, \<^verbatim>\<open>info\<close> and \<^verbatim>\<open>warn\<close> by their level; \<open>ss_lines\<close> notes the lines with the times read for them.\<close>

fun sync_step :: "(int \<Rightarrow> string) \<Rightarrow> sync_move \<Rightarrow> sync_system \<Rightarrow> sync_system option" where
  "sync_step format (Sync_call k level msg) s =
     (if k < length (ss_threads s) \<and> ss_threads s ! k = Sync_idle \<and> sl_holder (ss_log s) = None
      then Some (s\<lparr>ss_log := (ss_log s)\<lparr>sl_holder := Some k\<rparr>,
                   ss_threads := (ss_threads s)[k := Sync_locked level (SyncLogger_c_str msg)]\<rparr>)
      else None)"
| "sync_step format (Sync_stamp k now) s =
     (if k < length (ss_threads s) then
        (case ss_threads s ! k of
           Sync_locked level msg \<Rightarrow>
             Some (s\<lparr>ss_log := SyncLogger_timestamp format now (ss_log s),
                     ss_threads := (ss_threads s)[k := Sync_stamped level msg now]\<rparr>)
         | _ \<Rightarrow> None)
      else None)"
| "sync_step format (Sync_write k) s =
     (if k < length (ss_threads s) then
        (case ss_threads s ! k of
           Sync_stamped level msg now \<Rightarrow>
             Some (s\<lparr>ss_log := (ss_log s)\<lparr>sl_holder := None,
                       sl_err := sl_err (ss_log s) @ sync_line (sl_buf (ss_log s)) level msg\<rparr>,
                     ss_threads := (ss_threads s)[k := Sync_idle], ss_lines := ss_lines s @ [(now, level, msg)]\<rparr>)
         | _ \<Rightarrow> None)
      else None)"

definition sync_start :: "nat \<Rightarrow> sync_system" where
  "sync_start n = \<lparr>ss_log = SyncLogger_init, ss_threads = replicate n Sync_idle, ss_lines = []\<rparr>"

subsection \<open>Every line is whole and has its own time\<close>

definition sync_ok :: "(int \<Rightarrow> string) \<Rightarrow> sync_system \<Rightarrow> bool" where
  "sync_ok format s \<longleftrightarrow>
     sl_err (ss_log s) = concat (map (\<lambda>(now, level, msg). sync_line (format now) level msg) (ss_lines s))
     \<and> (\<forall>k < length (ss_threads s). (ss_threads s ! k \<noteq> Sync_idle \<longrightarrow> sl_holder (ss_log s) = Some k)
          \<and> (\<forall>level msg now. ss_threads s ! k = Sync_stamped level msg now \<longrightarrow> sl_buf (ss_log s) = format now))"

lemma sync_alone:
  assumes "sync_ok format s" "j < length (ss_threads s)" "ss_threads s ! j \<noteq> Sync_idle"
    "k < length (ss_threads s)" "k \<noteq> j"
  shows "ss_threads s ! k = Sync_idle"
  using assms unfolding sync_ok_def by (metis option.inject)

lemma sync_ok_step:
  assumes ok: "sync_ok format s" and t: "sync_step format m s = Some t" shows "sync_ok format t"
proof (cases m)
  case (Sync_call k level msg)
  with ok t show ?thesis by (auto simp: sync_ok_def nth_list_update split: if_splits)
next
  case (Sync_stamp k now)
  with t obtain level msg where k: "k < length (ss_threads s)" "ss_threads s ! k = Sync_locked level msg"
      "t = s\<lparr>ss_log := SyncLogger_timestamp format now (ss_log s), ss_threads := (ss_threads s)[k := Sync_stamped level msg now]\<rparr>"
    by (auto split: if_splits sync_pc.splits)
  with ok sync_alone [OF ok k(1)] show ?thesis by (auto simp: sync_ok_def SyncLogger_timestamp_def nth_list_update)
next
  case (Sync_write k)
  with t obtain level msg now where k: "k < length (ss_threads s)" "ss_threads s ! k = Sync_stamped level msg now"
      "t = s\<lparr>ss_log := (ss_log s)\<lparr>sl_holder := None, sl_err := sl_err (ss_log s) @ sync_line (sl_buf (ss_log s)) level msg\<rparr>,
         ss_threads := (ss_threads s)[k := Sync_idle], ss_lines := ss_lines s @ [(now, level, msg)]\<rparr>"
    by (auto split: if_splits sync_pc.splits)
  with ok sync_alone [OF ok k(1)] show ?thesis by (auto simp: sync_ok_def nth_list_update)
qed

interpretation sync_lines: invariant "sync_step format" "sync_ok format" for format
  by unfold_locales (rule sync_ok_step)

text \<open>However the threads interleave, the standard error is the sequence of whole lines, each with the
  time its own call has read, although all calls share one buffer.\<close>

theorem sync_logger_lines:
  assumes "reach (sync_step format) (sync_start n) s"
  shows "sl_err (ss_log s) = concat (map (\<lambda>(now, level, msg). sync_line (format now) level msg) (ss_lines s))"
proof -
  have "sync_ok format (sync_start n)" by (simp add: sync_ok_def sync_start_def SyncLogger_init_def)
  from sync_lines.reach_keeps [OF assms this] show ?thesis by (simp add: sync_ok_def)
qed

text \<open>A message with a zero byte loses what follows it.\<close>

theorem sync_logger_cuts: "CHR 0x00 \<notin> set a \<Longrightarrow> SyncLogger_c_str (a @ CHR 0x00 # b) = a"
  by (auto simp: SyncLogger_c_str_def takeWhile_append)

end
