(* ===== verification/Spec2Isabelle.thy ===== *)
theory Spec2Isabelle
  imports Job_Queue_Blocking Thread_Pool Dispatch_Faults Manager_Drain Index_Reader Export_Manager
    Http_Properties Http_Results Http_Connections Config_Properties Async_Logger_Threads Daemon Restart
    Pipeline_Concurrent Export_Faults Startup Scan_Separation Sync_Logger
begin

text \<open>
  A verification library for the parallel file-system scanner daemon (C++, \<^verbatim>\<open>src/src\<close>).

  \<^bold>\<open>The program.\<close> A client posts a directory to the HTTP server (\<^verbatim>\<open>daemon_system/httpserver.cpp\<close>), whose
  accept loop hands each connection to a pool of threads. \<^verbatim>\<open>Daemon\<close> passes the request to the
  \<^verbatim>\<open>Scheduler\<close> (\<^verbatim>\<open>daemon_system/scheduler.cpp\<close>), which keeps the queue of pending scans and the state of
  every scan, refuses overlapping roots, and dispatches on a thread of its own to the scan \<^verbatim>\<open>Manager\<close>
  (\<^verbatim>\<open>scan_system/manager.cpp\<close>). The manager's pool walks the tree (\<^verbatim>\<open>MultiScanner\<close>), a job for each node, with
  a fallback that walks in the same thread when the pool is full; each node is pushed as an event into
  the queue of the \<^verbatim>\<open>ExportManager\<close> (\<^verbatim>\<open>export_system/export_manager.cpp\<close>), the last job of a scan adds a
  sentinel. The export thread writes the events in batches to four tables of an SQLite file
  (\<^verbatim>\<open>export_system/db_wrapper\<close>) and, at the sentinel, deletes what was not seen, computes the differences to
  earlier scans and writes the row of the scan. The web pages read these tables. Everything logs through
  \<^verbatim>\<open>AsyncLogger\<close>, counts in \<^verbatim>\<open>Metrics\<close> and is set up from \<^verbatim>\<open>Config\<close>.

  \<^bold>\<open>Theories.\<close>
  \<^item> \<open>FS_Prelude\<close>: fixed-width types, C++ string operations (\<open>substr\<close>, \<open>str_find\<close>), counting in lists.
    \<open>Channel\<close>: locales of a queue seen as a channel (\<open>channel\<close>, \<open>fifo_channel\<close>), with order and
    conservation for every history of calls. \<open>Transitions\<close>: moves, schedules (\<open>run\<close>), reachable states
    (\<open>reach\<close>) and the locales \<open>invariant\<close> and \<open>variant\<close> that every component interprets on its step.
    \<open>Text_Numbers\<close>: \<^verbatim>\<open>atoll\<close>, \<^verbatim>\<open>stoi\<close>, \<^verbatim>\<open>stoull\<close>, \<^verbatim>\<open>to_string\<close>, \<^verbatim>\<open>getline\<close>.
  \<^item> \<open>Common_Types\<close>, \<open>Formater\<close>, \<open>Os_Info\<close>, \<open>Metrics\<close>, \<open>Config\<close>: \<^verbatim>\<open>common/\<close>, \<^verbatim>\<open>utils/formater.cpp\<close>, \<^verbatim>\<open>os_info.h\<close>,
    \<^verbatim>\<open>metrics.h\<close>, \<^verbatim>\<open>config.cpp\<close>.
    \<open>Config_Properties\<close>: a printed configuration is read back; what odd values do.
  \<^item> \<open>Job_Queue\<close>: \<^verbatim>\<open>concurrency/job_queue.h\<close>, an operation per critical section; accounting, order, bound,
    graceful shutdown. \<open>Job_Queue_Monitor\<close>, \<open>Job_Queue_Blocking\<close>: the same with sleeping threads,
    \<^verbatim>\<open>notify_one\<close> and spurious wake-ups; no lost wake-up with \<^verbatim>\<open>try_push\<close>, none with blocking producers up to
    the capacity, and a deadlock beyond. \<open>Thread_Pool\<close>: \<^verbatim>\<open>concurrency/thread_pool.h\<close>.
  \<^item> \<open>Scheduler\<close>: every critical section of \<^verbatim>\<open>scheduler.cpp\<close>. \<open>Dispatch_System\<close>: the dispatch thread, the
    clients, the manager's callbacks and \<^verbatim>\<open>shutdown\<close> interleaved. \<open>Dispatch_Invariant\<close>, \<open>Dispatch_Properties\<close>:
    counters, transitions, concurrency bound, disjoint roots. \<open>Dispatch_Faults\<close>: schedules that go wrong.
  \<^item> \<open>Multi_Scanner\<close>, \<open>Manager\<close>: \<^verbatim>\<open>scan_system/\<close>; a worker thread is a stack of frames of \<^verbatim>\<open>worker_job\<close>, the file
    system a parameter. \<open>Manager_Invariant\<close>, \<open>Manager_Tree\<close>, \<open>Manager_Properties\<close>: the job counter of a scan
    is exact, and a scan records its tree, the sentinel last. \<open>Manager_Drain\<close>: the workers come to rest.
  \<^item> \<open>Index_DB\<close>: the tables as lists of records and each prepared statement as a function on them;
    \<open>Index_Reader\<close>: the queries of the pages. \<open>Index_Properties\<close>: what an exported scan leaves in the index and in
    the table of differences. \<open>Export_Manager\<close>: the write loop, finalisation, loading at the start.
    \<open>Index_Faults\<close>, \<open>Export_Faults\<close>: the same with transactions and an SQLite that reports errors and rolls back;
    without errors it refines to the former, with them the keys stay unique, and what a lost write does.
    \<open>Pipeline\<close>: one scan and its export together. \<open>Export_Interleaving\<close>, \<open>Manager_Regions\<close>: the results of
    several scans in one queue, and why scans of separate roots meet no path of each other;
    \<open>Pipeline_Concurrent\<close> composes the two. \<open>Service_Shutdown\<close>: workers, bounded result queue, exporter and
    the thread in \<^verbatim>\<open>Scheduler::shutdown\<close> together; what a shutdown guarantees, and how it can hang.
    \<open>Scan_Daemon\<close>: the scheduler and its dispatch thread beside that service, with the callbacks of
    \<^verbatim>\<open>daemon.cpp\<close>: the whole core in one system. \<open>Scan_Daemon_Properties\<close>: it refines \<open>Dispatch_System\<close>;
    \<open>Scan_Separation\<close>: so two live scans never write the same rows.
    \<open>Startup\<close>: \<^verbatim>\<open>Manager::start\<close> and what follows if it fails. \<open>Restart\<close>: scan ids across a restart.
  \<^item> \<open>Http_Request\<close>, \<open>Http_Server\<close>, \<open>Http_Handlers\<close>: reading and routing a request, every handler on the state of
    the daemon, the answer. \<open>Http_Properties\<close>, \<open>Http_Results\<close>: from the bytes of a request to the answer.
    \<open>Http_Connections\<close>: listening socket, accept loop, pool and shutdown interleaved.
  \<^item> \<open>Async_Logger\<close>, \<open>Async_Logger_Threads\<close>: \<^verbatim>\<open>utils/async_logger.cpp\<close>, queue and threads.
    \<open>Sync_Logger\<close>: \<^verbatim>\<open>utils/sync_logger.h\<close>, which no file includes: whole lines, each with its own time.
    \<open>Daemon\<close>: \<^verbatim>\<open>Daemon::run\<close> and \<^verbatim>\<open>main\<close> as the sequence of their actions.

  \<^bold>\<open>Conventions.\<close> A C++ object is a record, a locked section a function on it, a thread a program counter, and
  a component with threads a function \<open>move \<Rightarrow> state \<Rightarrow> state option\<close> whose runs are the interleavings. Atomic
  operations are steps of their own wherever another thread can come between. \<^verbatim>\<open>uint64_t\<close>, \<^verbatim>\<open>int\<close> and
  \<^verbatim>\<open>uint16_t\<close> are words; counters that the code shares between threads are \<^typ>\<open>int\<close> where a theorem shows that
  they stay small. A wait on a condition variable is a step that is not possible (\<^term>\<open>None\<close>), except in the
  monitor theories, where the threads really sleep. Errors are values (\<^typ>\<open>'a option\<close> or an enumeration of
  the source).

  \<^bold>\<open>Bounds and fuel.\<close> The walk of a tree is bounded by a depth \<open>n\<close> with \<open>depth_ok fs n job\<close>, which holds for
  every finite tree and some \<open>n\<close>. The drain loop of the daemon runs at most 1000 rounds, as in the source, and
  the retries of a busy database at most as often as the source allows; both are the loops of the code, not
  fuel. The wait for the shutdown flag may never end and is a \<open>partial_function\<close>.

  \<^bold>\<open>Parameters.\<close> The file system as seen by \<^verbatim>\<open>lstat\<close> and \<^verbatim>\<open>readdir\<close> (fixed during a scan), \<^verbatim>\<open>realpath\<close>, SQLite's
  \<^verbatim>\<open>GLOB\<close> and \<^verbatim>\<open>LIKE\<close>, the texts of error codes, times and thread ids, the page file, \<^verbatim>\<open>statvfs\<close> and \<^verbatim>\<open>/proc/version\<close>, the answers of the
  socket calls and those of SQLite (\<open>sql_answers\<close>: a call succeeds, is busy or fails, and may roll back).
  \<open>glob_subtree\<close> is the documented meaning of \<^verbatim>\<open>GLOB\<close> for a root without special characters.

  \<^bold>\<open>Not modelled.\<close> SQLite's own machinery (files, locks, which of its calls fail); \<^verbatim>\<open>localtime_r\<close> and
  \<^verbatim>\<open>strftime\<close> (a parameter); \<^verbatim>\<open>stats.h\<close>, two records of counters that no file uses; memory exhaustion.
\<close>

end
